theory Spec2Isabelle
  imports Complex_Main "HOL-Library.Word"
begin

unbundle bit_operations_syntax

section \<open>Byte memory\<close>

text \<open>
  The allocator of \<^verbatim>\<open>mm.c\<close> works on raw bytes: pointers are 64-bit addresses, a header,
  a footer and a free-list link are 64-bit words read and written through
  \<^verbatim>\<open>uint64_t*\<close>. Memory is a function from addresses to bytes; a 64-bit word is stored
  in little-endian order. Address arithmetic wraps around, as the machine's does.
\<close>

type_synonym addr = "64 word"
type_synonym size_t = "64 word"
type_synonym memory = "addr \<Rightarrow> 8 word"

definition load64 :: "memory \<Rightarrow> addr \<Rightarrow> 64 word" where
  "load64 m a =
     ucast (m a) OR push_bit 8 (ucast (m (a + 1))) OR push_bit 16 (ucast (m (a + 2))) OR
     push_bit 24 (ucast (m (a + 3))) OR push_bit 32 (ucast (m (a + 4))) OR
     push_bit 40 (ucast (m (a + 5))) OR push_bit 48 (ucast (m (a + 6))) OR
     push_bit 56 (ucast (m (a + 7)))"

definition store64 :: "memory \<Rightarrow> addr \<Rightarrow> 64 word \<Rightarrow> memory" where
  "store64 m a v = (\<lambda>x. if x - a < 8 then ucast (drop_bit (8 * unat (x - a)) v) else m x)"

section \<open>The state of the allocator and of the heap layer\<close>

text \<open>
  \<^verbatim>\<open>segFreeList\<close> (an array of 15 list heads) and \<^verbatim>\<open>lastHeader\<close> are the two
  globals of \<^verbatim>\<open>mm.c\<close>. The heap layer (\<^verbatim>\<open>memlib\<close>: \<^verbatim>\<open>mm_sbrk\<close>,
  \<^verbatim>\<open>mm_heap_lo\<close>, \<^verbatim>\<open>mm_heap_hi\<close>) is not part of the source file; its state is the
  low address, the current break and the capacity of the region.

  Undefined behaviour of the C program is an error value: \<open>OutOfBounds\<close> is an access
  to \<^verbatim>\<open>segFreeList\<close> outside the indices 0..14, \<open>InvalidAccess\<close> is a byte copy or
  byte fill that leaves the heap region.
\<close>

datatype error = OutOfBounds | InvalidAccess

record state =
  mem :: memory
  heap_lo :: addr
  heap_brk :: addr
  heap_max :: addr
  segFreeList :: "nat \<Rightarrow> addr"
  lastHeader :: addr

abbreviation ALIGNMENT :: size_t where "ALIGNMENT \<equiv> 16"
abbreviation BASE_ALIGNMENT :: size_t where "BASE_ALIGNMENT \<equiv> 24"
abbreviation HEADER_SIZE :: size_t where "HEADER_SIZE \<equiv> 8"

text \<open>\<^verbatim>\<open>FOOTER_SIZE\<close> and \<^verbatim>\<open>FREE_OFFSET\<close> are 8 as well; they are written \<open>8\<close> below.\<close>

subsection \<open>The heap layer\<close>

text \<open>
  Modelled from the spec: the heap extender \<^verbatim>\<open>mm_sbrk\<close> and the bounds
  \<^verbatim>\<open>mm_heap_lo\<close>, \<^verbatim>\<open>mm_heap_hi\<close> (section 6: ``extend the high end by exactly n
  bytes, returning the starting address of the new region'', or failure). The failure
  value \<^verbatim>\<open>(void *) -1\<close> is the one \<^verbatim>\<open>extendHeap\<close> tests for. The extender fails when
  the region would grow past its capacity \<open>heap_max\<close>. The high bound is the address of
  the last byte of the heap.
\<close>

definition mm_sbrk :: "state \<Rightarrow> size_t \<Rightarrow> addr \<times> state" where
  "mm_sbrk st incr =
     (if unat (heap_brk st) + unat incr \<le> unat (heap_max st)
      then (heap_brk st, st\<lparr>heap_brk := heap_brk st + incr\<rparr>)
      else (- 1, st))"

definition mm_heap_lo :: "state \<Rightarrow> addr" where
  "mm_heap_lo st = heap_lo st"

definition mm_heap_hi :: "state \<Rightarrow> addr" where
  "mm_heap_hi st = heap_brk st - 1"

text \<open>
  Modelled from the spec: the byte-fill and byte-copy primitives \<^verbatim>\<open>mm_memset\<close> and
  \<^verbatim>\<open>mm_memcpy\<close> (section 1, external collaborator (c)). The bytes of the model are the
  heap bytes: a fill or copy of \<open>n > 0\<close> bytes whose range is not inside the heap
  region \<open>[heap_lo, heap_brk)\<close> touches memory the heap layer never handed out, which is
  undefined behaviour in C and the error \<open>InvalidAccess\<close> here. Both return the
  destination pointer.
\<close>

definition in_region :: "state \<Rightarrow> addr \<Rightarrow> size_t \<Rightarrow> bool" where
  "in_region st p n =
     (n = 0 \<or> unat (heap_lo st) \<le> unat p \<and> unat p + unat n \<le> unat (heap_brk st))"

definition mm_memset :: "state \<Rightarrow> addr \<Rightarrow> 8 word \<Rightarrow> size_t \<Rightarrow> error + addr \<times> state" where
  "mm_memset st p c n =
     (if in_region st p n
      then Inr (p, st\<lparr>mem := (\<lambda>x. if x - p < n then c else mem st x)\<rparr>)
      else Inl InvalidAccess)"

definition mm_memcpy :: "state \<Rightarrow> addr \<Rightarrow> addr \<Rightarrow> size_t \<Rightarrow> error + addr \<times> state" where
  "mm_memcpy st dst src n =
     (if in_region st dst n \<and> in_region st src n
      then Inr (dst, st\<lparr>mem := (\<lambda>x. if x - dst < n then mem st (src + (x - dst)) else mem st x)\<rparr>)
      else Inl InvalidAccess)"

subsection \<open>Alignment\<close>

definition align :: "size_t \<Rightarrow> size_t" where
  "align x = ALIGNMENT * ((x + ALIGNMENT - 1) div ALIGNMENT)"

definition newAlign :: "size_t \<Rightarrow> size_t" where
  "newAlign x = (if x \<le> BASE_ALIGNMENT then BASE_ALIGNMENT
                 else align (x - BASE_ALIGNMENT) + BASE_ALIGNMENT)"

definition aligned :: "addr \<Rightarrow> bool" where
  "aligned p = (align p = p)"

definition in_heap :: "state \<Rightarrow> addr \<Rightarrow> bool" where
  "in_heap st p = (p \<le> mm_heap_hi st \<and> p \<ge> mm_heap_lo st)"

subsection \<open>Block metadata accessors\<close>

definition rd :: "state \<Rightarrow> addr \<Rightarrow> 64 word" where
  "rd st p = load64 (mem st) p"

definition wr :: "state \<Rightarrow> addr \<Rightarrow> 64 word \<Rightarrow> state" where
  "wr st p v = st\<lparr>mem := store64 (mem st) p v\<rparr>"

definition isFree :: "state \<Rightarrow> addr \<Rightarrow> bool" where
  "isFree st p = (rd st p AND 0x1 = 0)"

definition setFree :: "state \<Rightarrow> addr \<Rightarrow> state" where
  "setFree st p = wr st p (rd st p AND 0xFFFFFFFFFFFFFFFE)"

definition setAlloc :: "state \<Rightarrow> addr \<Rightarrow> state" where
  "setAlloc st p = wr st p (rd st p OR 0x1)"

definition isPrevFree :: "state \<Rightarrow> addr \<Rightarrow> bool" where
  "isPrevFree st p = (rd st p AND 0x2 = 0)"

definition setPrevFree :: "state \<Rightarrow> addr \<Rightarrow> state" where
  "setPrevFree st p = wr st p (rd st p AND 0xFFFFFFFFFFFFFFFD)"

definition setPrevAlloc :: "state \<Rightarrow> addr \<Rightarrow> state" where
  "setPrevAlloc st p = wr st p (rd st p OR 0x2)"

definition getBlockSize :: "state \<Rightarrow> addr \<Rightarrow> size_t" where
  "getBlockSize st p = rd st p AND 0xFFFFFFFFFFFFFFF8"

definition setBlockSize :: "state \<Rightarrow> addr \<Rightarrow> size_t \<Rightarrow> state" where
  "setBlockSize st p sz =
     (let st1 = wr st p (rd st p AND 0x7)
      in wr st1 p (rd st1 p OR sz))"

definition get8ByteAlignment :: "size_t \<Rightarrow> size_t" where
  "get8ByteAlignment numBytes = numBytes div 8"

text \<open>
  The next five functions are arithmetic on \<^verbatim>\<open>uint64_t*\<close>: adding \<open>k\<close> to such a
  pointer moves the address by \<open>8 * k\<close> bytes.
\<close>

definition getFooter :: "addr \<Rightarrow> size_t \<Rightarrow> addr" where
  "getFooter header sz = header + 8 * get8ByteAlignment (HEADER_SIZE + sz - 8)"

definition getPrevFooter :: "addr \<Rightarrow> addr" where
  "getPrevFooter header = header - 8 * get8ByteAlignment 8"

definition getNextHeader :: "addr \<Rightarrow> size_t \<Rightarrow> addr" where
  "getNextHeader header sz = header + 8 * get8ByteAlignment (HEADER_SIZE + sz)"

definition getPrevHeader :: "addr \<Rightarrow> size_t \<Rightarrow> addr" where
  "getPrevHeader header sz = header - 8 * get8ByteAlignment (HEADER_SIZE + sz)"

definition getPayload :: "addr \<Rightarrow> addr" where
  "getPayload header = header + 8 * get8ByteAlignment HEADER_SIZE"

definition getNextFreeBlock :: "state \<Rightarrow> addr \<Rightarrow> addr" where
  "getNextFreeBlock st p = rd st p"

definition getPrevFreeBlock :: "state \<Rightarrow> addr \<Rightarrow> addr" where
  "getPrevFreeBlock st p = rd st (p + 8 * get8ByteAlignment 8)"

definition setNextFreeBlock :: "state \<Rightarrow> addr \<Rightarrow> addr \<Rightarrow> state" where
  "setNextFreeBlock st p newptr = wr st p newptr"

definition setPrevFreeBlock :: "state \<Rightarrow> addr \<Rightarrow> addr \<Rightarrow> state" where
  "setPrevFreeBlock st p newptr = wr st (p + 8 * get8ByteAlignment 8) newptr"

subsection \<open>The free-list registry\<close>

text \<open>
  Both list operations ``assume freeListIndex is a valid index''; an index outside
  0..14 reads or writes outside the array \<^verbatim>\<open>segFreeList\<close>.
\<close>

definition removeFreeBlock :: "state \<Rightarrow> addr \<Rightarrow> int \<Rightarrow> error + state" where
  "removeFreeBlock st p freeListIndex =
     (if freeListIndex < 0 \<or> 15 \<le> freeListIndex then Inl OutOfBounds
      else if p = segFreeList st (nat freeListIndex) then
        (let nextptr = getNextFreeBlock st p;
             st1 = (if nextptr \<noteq> 0 then setPrevFreeBlock st nextptr 0 else st)
         in Inr (st1\<lparr>segFreeList := (segFreeList st1)(nat freeListIndex := nextptr)\<rparr>))
      else
        (let nextptr = getNextFreeBlock st p;
             prevptr = getPrevFreeBlock st p;
             st1 = (if nextptr \<noteq> 0 then setPrevFreeBlock st nextptr prevptr else st)
         in Inr (setNextFreeBlock st1 prevptr nextptr)))"

definition addFreeBlock :: "state \<Rightarrow> addr \<Rightarrow> int \<Rightarrow> error + state" where
  "addFreeBlock st p freeListIndex =
     (if freeListIndex < 0 \<or> 15 \<le> freeListIndex then Inl OutOfBounds
      else
        (let st1 =
           (if segFreeList st (nat freeListIndex) = 0 then
              setPrevFreeBlock (setNextFreeBlock st p 0) p 0
            else
              (let st2 = setNextFreeBlock st p (segFreeList st (nat freeListIndex));
                   st3 = setPrevFreeBlock st2 (segFreeList st2 (nat freeListIndex)) p
               in setPrevFreeBlock st3 p 0))
         in Inr (st1\<lparr>segFreeList := (segFreeList st1)(nat freeListIndex := p)\<rparr>)))"

subsection \<open>Size-class binning\<close>

text \<open>
  \<^verbatim>\<open>sizeMul\<close> is a \<^verbatim>\<open>size_t\<close>; in the first branch \<^verbatim>\<open>sizeMul - 1\<close> is converted to
  the \<^verbatim>\<open>int\<close> result, so that \<^verbatim>\<open>sizeMul = 0\<close> gives \<open>-1\<close>.
\<close>

definition getFreeListIndex :: "size_t \<Rightarrow> int" where
  "getFreeListIndex sz =
     (let sizeMul = (sz - 8) div 16 in
      if sizeMul \<le> 4 then sint (ucast (sizeMul - 1) :: 32 word)
      else if sizeMul \<le> 6 then 4
      else if sizeMul \<le> 8 then 5
      else if sizeMul \<le> 16 then 6
      else if sizeMul \<le> 32 then 7
      else if sizeMul \<le> 64 then 8
      else if sizeMul \<le> 128 then 9
      else if sizeMul \<le> 256 then 10
      else if sizeMul \<le> 512 then 11
      else if sizeMul \<le> 1024 then 12
      else if sizeMul \<le> 2048 then 13
      else 14)"

subsection \<open>Heap extension and initialisation\<close>

definition extendHeap :: "state \<Rightarrow> size_t \<Rightarrow> addr \<times> state" where
  "extendHeap st sz =
     (case mm_sbrk st (HEADER_SIZE + sz) of (header, st1) \<Rightarrow>
        if header = - 1 then (0, st1)
        else
          (let st2 = wr st1 header 0x0;
               st3 = setAlloc st2 header;
               st4 = setBlockSize st3 header sz;
               st5 = (if lastHeader st4 \<noteq> mm_heap_lo st4
                      then (if \<not> isFree st4 (lastHeader st4) then setPrevAlloc st4 header else st4)
                      else setPrevAlloc st4 header)
           in (header, st5\<lparr>lastHeader := header\<rparr>)))"

definition mm_init :: "state \<Rightarrow> bool \<times> state" where
  "mm_init st =
     (case mm_sbrk st HEADER_SIZE of (heap_start, st1) \<Rightarrow>
        if heap_start \<noteq> mm_heap_lo st1 then (False, st1)
        else
          (let st2 = wr st1 heap_start 0x0;
               st3 = setAlloc st2 heap_start
           in (True, st3\<lparr>lastHeader := mm_heap_lo st3,
                          segFreeList := (\<lambda>i. if i < 15 then 0 else segFreeList st3 i)\<rparr>)))"

subsection \<open>malloc\<close>

text \<open>
  The body of the search loop's ``fits'' branch (lines 449 to 483 of \<^verbatim>\<open>mm.c\<close>): split
  the victim when the remainder can hold a block, mark it allocated, take it off its
  list and return its payload.
\<close>

definition place :: "state \<Rightarrow> size_t \<Rightarrow> int \<Rightarrow> addr \<Rightarrow> addr \<Rightarrow> size_t \<Rightarrow> error + addr \<times> state" where
  "place st new_block_size index p header block_size =
     (case
        (if block_size - new_block_size \<ge> 32 then
           (let split_block_size = block_size - new_block_size - HEADER_SIZE;
                st1 = setBlockSize st header new_block_size;
                nextHeader = getNextHeader header new_block_size;
                nextFooter = getFooter nextHeader split_block_size;
                st2 = wr st1 nextHeader 0x0;
                st3 = setBlockSize st2 nextHeader split_block_size;
                st4 = setPrevAlloc st3 nextHeader;
                st5 = wr st4 nextFooter 0x0;
                st6 = setBlockSize st5 nextFooter split_block_size;
                split_block_index = getFreeListIndex split_block_size
            in case addFreeBlock st6 (getPayload nextHeader) split_block_index of
                 Inl e \<Rightarrow> Inl e
               | Inr st7 \<Rightarrow>
                   Inr (if header = lastHeader st7 then st7\<lparr>lastHeader := nextHeader\<rparr> else st7))
         else
           Inr (if header \<noteq> lastHeader st
                then setPrevAlloc st (getNextHeader header block_size) else st))
      of Inl e \<Rightarrow> Inl e
       | Inr st8 \<Rightarrow>
           (case removeFreeBlock (setAlloc st8 header) p index of
              Inl e \<Rightarrow> Inl e
            | Inr st9 \<Rightarrow> Inr (p, st9)))"

text \<open>
  The search loop \<^verbatim>\<open>while(ptr || nextList)\<close> and the heap extension after it. A free
  list that loops back on itself would keep the search running forever, so the loop is
  a partial function: \<open>None\<close> is a search that never ends.
\<close>

partial_function (option) malloc_loop ::
  "state \<Rightarrow> size_t \<Rightarrow> int \<Rightarrow> addr \<Rightarrow> bool \<Rightarrow> (error + addr \<times> state) option" where
  "malloc_loop st new_block_size index p nextList =
     (if p \<noteq> 0 \<or> nextList then
        (if p = 0 then
           (if index = 14 then malloc_loop st new_block_size index p False
            else malloc_loop st new_block_size (index + 1) (segFreeList st (nat (index + 1))) nextList)
         else
           (let header = p - 8 * get8ByteAlignment HEADER_SIZE;
                block_size = getBlockSize st header
            in if new_block_size \<le> block_size
               then Some (place st new_block_size index p header block_size)
               else if index \<le> 3
                 then malloc_loop st new_block_size (index + 1) (segFreeList st (nat (index + 1))) nextList
                 else malloc_loop st new_block_size index (getNextFreeBlock st p) nextList))
      else
        (case extendHeap st new_block_size of (newHeader, st1) \<Rightarrow>
           Some (Inr (getPayload newHeader, st1))))"

definition malloc :: "state \<Rightarrow> size_t \<Rightarrow> (error + addr \<times> state) option" where
  "malloc st sz =
     (if sz = 0 then Some (Inr (0, st))
      else
        (let new_block_size = newAlign sz;
             index = getFreeListIndex new_block_size
         in if index < 0 \<or> 15 \<le> index then Some (Inl OutOfBounds)
            else malloc_loop st new_block_size index (segFreeList st (nat index)) True))"

subsection \<open>free\<close>

text \<open>The four cases of \<^verbatim>\<open>free\<close>; each gives the new state, the payload of the
  block to put on a free list, and the index of that list.\<close>

definition coalesce_both :: "state \<Rightarrow> addr \<Rightarrow> addr \<Rightarrow> addr \<Rightarrow> error + state \<times> addr \<times> int" where
  "coalesce_both st header nextHeader prevFooter =
     (let prevHeader = getPrevHeader header (getBlockSize st prevFooter);
          nextFooter = getFooter nextHeader (getBlockSize st nextHeader);
          prevBlock_index = getFreeListIndex (getBlockSize st prevHeader);
          nextBlock_index = getFreeListIndex (getBlockSize st nextHeader);
          newSize = getBlockSize st prevHeader + getBlockSize st header
                    + getBlockSize st nextHeader + 2 * HEADER_SIZE;
          index = getFreeListIndex newSize;
          st1 = setBlockSize st prevHeader newSize;
          st2 = setBlockSize st1 nextFooter newSize;
          st3 = setFree st2 prevHeader;
          st4 = setFree st3 nextFooter
      in case removeFreeBlock st4 (prevHeader + 8 * get8ByteAlignment HEADER_SIZE) prevBlock_index of
           Inl e \<Rightarrow> Inl e
         | Inr st5 \<Rightarrow>
            (case removeFreeBlock st5 (nextHeader + 8 * get8ByteAlignment HEADER_SIZE) nextBlock_index of
               Inl e \<Rightarrow> Inl e
             | Inr st6 \<Rightarrow>
                 Inr (if nextHeader = lastHeader st6 then st6\<lparr>lastHeader := prevHeader\<rparr> else st6,
                      getPayload prevHeader, index)))"

definition coalesce_next :: "state \<Rightarrow> addr \<Rightarrow> addr \<Rightarrow> addr \<Rightarrow> error + state \<times> addr \<times> int" where
  "coalesce_next st p header nextHeader =
     (let nextFooter = getFooter nextHeader (getBlockSize st nextHeader);
          nextBlock_index = getFreeListIndex (getBlockSize st nextHeader);
          newSize = getBlockSize st header + getBlockSize st nextFooter + HEADER_SIZE;
          index = getFreeListIndex newSize;
          st1 = setBlockSize st header newSize;
          st2 = setBlockSize st1 nextFooter newSize;
          st3 = setFree st2 nextFooter;
          st4 = setFree st3 header
      in case removeFreeBlock st4 (nextHeader + 8 * get8ByteAlignment HEADER_SIZE) nextBlock_index of
           Inl e \<Rightarrow> Inl e
         | Inr st5 \<Rightarrow>
             Inr (if nextHeader = lastHeader st5 then st5\<lparr>lastHeader := header\<rparr> else st5,
                  p, index))"

definition coalesce_prev ::
  "state \<Rightarrow> addr \<Rightarrow> addr \<Rightarrow> addr \<Rightarrow> addr \<Rightarrow> error + state \<times> addr \<times> int" where
  "coalesce_prev st header footer nextHeader prevFooter =
     (let prevHeader = getPrevHeader header (getBlockSize st prevFooter);
          prevBlock_index = getFreeListIndex (getBlockSize st prevHeader);
          newSize = getBlockSize st prevHeader + getBlockSize st header + HEADER_SIZE;
          index = getFreeListIndex newSize;
          st1 = setBlockSize st footer newSize;
          st2 = setBlockSize st1 prevHeader newSize;
          st3 = setFree st2 prevHeader;
          st4 = setFree st3 footer
      in case removeFreeBlock st4 (prevHeader + 8 * get8ByteAlignment HEADER_SIZE) prevBlock_index of
           Inl e \<Rightarrow> Inl e
         | Inr st5 \<Rightarrow>
             Inr (if header \<noteq> lastHeader st5 then setPrevFree st5 nextHeader
                  else st5\<lparr>lastHeader := prevHeader\<rparr>,
                  getPayload prevHeader, index))"

definition no_coalesce ::
  "state \<Rightarrow> addr \<Rightarrow> addr \<Rightarrow> addr \<Rightarrow> size_t \<Rightarrow> addr \<Rightarrow> int \<Rightarrow> error + state \<times> addr \<times> int" where
  "no_coalesce st p header footer block_size nextHeader index =
     (let st1 = setBlockSize st footer block_size;
          st2 = setFree st1 footer;
          st3 = setFree st2 header
      in Inr (if header \<noteq> lastHeader st3 then setPrevFree st3 nextHeader else st3, p, index))"

definition free :: "state \<Rightarrow> addr \<Rightarrow> error + state" where
  "free st p =
     (if in_heap st p then
        (let header = p - HEADER_SIZE;
             block_size = getBlockSize st header;
             footer = getFooter header block_size;
             index = getFreeListIndex block_size;
             nextHeader = getNextHeader header block_size;
             nextFree = (header \<noteq> lastHeader st \<and> isFree st nextHeader);
             prevFree = (header - 8 * get8ByteAlignment HEADER_SIZE \<noteq> mm_heap_lo st
                         \<and> isPrevFree st header);
             prevFooter = getPrevFooter header
         in case
              (if nextFree \<and> prevFree then coalesce_both st header nextHeader prevFooter
               else if nextFree then coalesce_next st p header nextHeader
               else if prevFree then coalesce_prev st header footer nextHeader prevFooter
               else no_coalesce st p header footer block_size nextHeader index)
            of Inl e \<Rightarrow> Inl e
             | Inr (st1, p1, index1) \<Rightarrow> addFreeBlock st1 p1 index1)
      else Inr st)"

subsection \<open>realloc and calloc\<close>

definition realloc :: "state \<Rightarrow> addr \<Rightarrow> size_t \<Rightarrow> (error + addr \<times> state) option" where
  "realloc st oldptr sz =
     (if oldptr = 0 then malloc st sz
      else if sz = 0 then
        (case free st oldptr of Inl e \<Rightarrow> Some (Inl e) | Inr st1 \<Rightarrow> Some (Inr (0, st1)))
      else
        (case malloc st sz of
           None \<Rightarrow> None
         | Some (Inl e) \<Rightarrow> Some (Inl e)
         | Some (Inr (newptr, st1)) \<Rightarrow>
             if newptr = 0 then Some (Inr (0, st1))
             else
               (let old_size = getBlockSize st1 (oldptr - 8 * get8ByteAlignment HEADER_SIZE)
                in case (if sz > old_size then mm_memcpy st1 newptr oldptr old_size
                         else mm_memcpy st1 newptr oldptr sz) of
                     Inl e \<Rightarrow> Some (Inl e)
                   | Inr (newptr', st2) \<Rightarrow>
                       (case free st2 oldptr of
                          Inl e \<Rightarrow> Some (Inl e)
                        | Inr st3 \<Rightarrow> Some (Inr (newptr', st3))))))"

definition calloc :: "state \<Rightarrow> size_t \<Rightarrow> size_t \<Rightarrow> (error + addr \<times> state) option" where
  "calloc st nmemb sz =
     (let sz' = sz * nmemb in
      case malloc st sz' of
        None \<Rightarrow> None
      | Some (Inl e) \<Rightarrow> Some (Inl e)
      | Some (Inr (p, st1)) \<Rightarrow>
          if p \<noteq> 0 then
            (case mm_memset st1 p 0 sz' of
               Inl e \<Rightarrow> Some (Inl e)
             | Inr (_, st2) \<Rightarrow> Some (Inr (p, st2)))
          else Some (Inr (p, st1)))"

subsection \<open>The heap checker\<close>

text \<open>
  \<^verbatim>\<open>mm_checkheap\<close> has its whole body under \<^verbatim>\<open>#ifdef DEBUG\<close>; the macro is a
  parameter here. The shipped file leaves \<^verbatim>\<open>DEBUG\<close> undefined (line 42 is commented
  out), which is also why \<^verbatim>\<open>malloc\<close> and \<^verbatim>\<open>free\<close> above do not call the checker.
  The three loops of the debugging body follow pointers stored in the heap and need not
  end on a corrupted heap.
\<close>

partial_function (option) checkheap_in_list :: "state \<Rightarrow> addr \<Rightarrow> addr \<Rightarrow> bool \<Rightarrow> bool option" where
  "checkheap_in_list st header counter inList =
     (if counter \<noteq> 0 then
        checkheap_in_list st header (getNextFreeBlock st counter)
          (if header = counter - 8 * get8ByteAlignment HEADER_SIZE then True else inList)
      else Some inList)"

partial_function (option) checkheap_blocks :: "state \<Rightarrow> addr \<Rightarrow> bool option" where
  "checkheap_blocks st header =
     (if header + 8 < mm_heap_hi st then
        (let blockSize = getBlockSize st header in
         if (blockSize - 8) mod 16 \<noteq> 0 then Some False
         else if isFree st header then
           (let footer = getFooter header blockSize;
                footerSize = getBlockSize st footer
            in if blockSize \<noteq> footerSize then Some False
               else
                 (let nextHeader = getNextHeader header blockSize in
                  if nextHeader + 8 < mm_heap_hi st \<and> isFree st nextHeader then Some False
                  else if nextHeader + 8 < mm_heap_hi st \<and> \<not> isPrevFree st nextHeader then Some False
                  else
                    (let index = getFreeListIndex blockSize in
                     if index \<noteq> - 1 then
                       Option.bind (checkheap_in_list st header (segFreeList st (nat index)) False)
                         (\<lambda>inList. if \<not> inList then Some False
                                    else checkheap_blocks st (getNextHeader header (getBlockSize st header)))
                     else checkheap_blocks st (getNextHeader header (getBlockSize st header)))))
         else checkheap_blocks st (getNextHeader header (getBlockSize st header)))
      else Some True)"

partial_function (option) checkheap_lists :: "state \<Rightarrow> int \<Rightarrow> addr \<Rightarrow> bool \<Rightarrow> bool option" where
  "checkheap_lists st index p nextList =
     (if p \<noteq> 0 \<or> nextList then
        (if p = 0 then
           (if index = 14 then checkheap_lists st index p False
            else checkheap_lists st (index + 1) (segFreeList st (nat (index + 1))) nextList)
         else
           (let header = p - 8 * get8ByteAlignment HEADER_SIZE in
            if getFreeListIndex (getBlockSize st header) \<noteq> index then Some False
            else if \<not> isFree st header then Some False
            else checkheap_lists st index (getNextFreeBlock st p) nextList))
      else Some True)"

definition mm_checkheap :: "bool \<Rightarrow> state \<Rightarrow> int \<Rightarrow> bool option" where
  "mm_checkheap DEBUG st lineno =
     (if DEBUG then
        Option.bind (checkheap_blocks st (mm_heap_lo st + 8))
          (\<lambda>ok. if \<not> ok then Some False
                 else Option.bind (checkheap_lists st 0 (segFreeList st 0) True)
                        (\<lambda>ok'. if \<not> ok' then Some False else Some True))
      else Some True)"

subsection \<open>States for examples\<close>

text \<open>
  The heap layer before \<^verbatim>\<open>mm_init\<close>: an empty region at \<open>lo\<close> that can grow by \<open>cap\<close>
  bytes, every byte zero, the allocator's globals zero as C initialises them.
\<close>

definition empty_region :: "addr \<Rightarrow> size_t \<Rightarrow> state" where
  "empty_region lo cap =
     \<lparr>mem = (\<lambda>_. 0), heap_lo = lo, heap_brk = lo, heap_max = lo + cap,
      segFreeList = (\<lambda>_. 0), lastHeader = 0\<rparr>"

section \<open>The abstract view of a heap\<close>

text \<open>
  The definitions of this section are not code of \<^verbatim>\<open>mm.c\<close>: they describe the heap the
  code maintains (its blocks, their tags, its free lists), and the theorems below relate
  the functions above to them.
\<close>

text \<open>The 64-bit word stored at the address \<open>x\<close>, with the address a natural number: the
  blocks of a heap are described below by natural numbers, which do not wrap around.\<close>

definition W :: "memory \<Rightarrow> nat \<Rightarrow> 64 word" where
  "W m x = load64 m (of_nat x)"

text \<open>The header word of a block (section 3 of the spec): the payload size \<open>sz\<close>, a multiple
  of 8, with bit 0 the allocated flag \<open>al\<close> and bit 1 the previous-allocated flag \<open>pa\<close>.\<close>

definition hdr :: "nat \<Rightarrow> bool \<Rightarrow> bool \<Rightarrow> 64 word" where
  "hdr sz al pa = of_nat sz OR (if al then 1 else 0) OR (if pa then 2 else 0)"

text \<open>Every setter of the code is a read-modify-write of one word: \<open>modw st y f st'\<close> says
  that \<open>st'\<close> is \<open>st\<close> with the word at \<open>y\<close> replaced by \<open>f\<close> of its old value.\<close>

definition modw :: "state \<Rightarrow> nat \<Rightarrow> (64 word \<Rightarrow> 64 word) \<Rightarrow> state \<Rightarrow> bool" where
  "modw st y f st' \<longleftrightarrow>
     heap_lo st' = heap_lo st \<and> heap_brk st' = heap_brk st \<and> heap_max st' = heap_max st \<and>
     segFreeList st' = segFreeList st \<and> lastHeader st' = lastHeader st \<and>
     (\<forall>x. 8 dvd x \<longrightarrow> x + 8 \<le> 2 ^ 64 \<longrightarrow>
          W (mem st') x = (if x = y then f (W (mem st) y) else W (mem st) x))"

text \<open>A block is described by the address of its header, its payload size and its allocated
  flag. \<open>chain a bs e\<close>: the blocks \<open>bs\<close> lie one after the other from the address \<open>a\<close> to
  the address \<open>e\<close>, each an 8-byte header followed by a payload of size \<open>24 + 16k\<close>.\<close>

type_synonym block = "nat \<times> nat \<times> bool"

fun chain :: "nat \<Rightarrow> block list \<Rightarrow> nat \<Rightarrow> bool" where
  "chain a [] e = (a = e)"
| "chain a ((a', sz, al) # bs) e =
     (a' = a \<and> 24 \<le> sz \<and> sz mod 16 = 8 \<and> chain (a + 8 + sz) bs e)"

text \<open>\<open>tags_ok m pa bs\<close>: in the memory \<open>m\<close> every block of \<open>bs\<close> has the header of its size
  and allocated flag; its previous-allocated flag is the allocated flag of its left neighbour
  (\<open>pa\<close> for the first block); a free block has no free left neighbour; and the last word of
  the payload of a free block, its footer, holds its size.\<close>

fun tags_ok :: "memory \<Rightarrow> bool \<Rightarrow> block list \<Rightarrow> bool" where
  "tags_ok m pa [] = True"
| "tags_ok m pa ((a, sz, al) # bs) =
     (W m a = hdr sz al pa \<and> (al \<or> pa) \<and>
      (al \<or> W m (a + sz) AND 0xFFFFFFFFFFFFFFF8 = of_nat sz) \<and>
      tags_ok m al bs)"

text \<open>The allocated flag of the last block of \<open>bs\<close>, or \<open>pa\<close> when there is none; and the
  addresses strictly inside a block, the footer of a free block excepted.\<close>

definition last_alloc :: "bool \<Rightarrow> block list \<Rightarrow> bool" where
  "last_alloc pa bs = (if bs = [] then pa else snd (snd (last bs)))"

definition interior :: "block list \<Rightarrow> nat \<Rightarrow> bool" where
  "interior bs x = (\<exists>(a, sz, al) \<in> set bs. a < x \<and> (x < a + sz \<or> al \<and> x < a + 8 + sz))"

text \<open>The first and the last element of a list, or a default.\<close>

definition head_or :: "nat list \<Rightarrow> nat \<Rightarrow> nat" where
  "head_or ps d = (case ps of [] \<Rightarrow> d | p # _ \<Rightarrow> p)"

definition last_or :: "nat list \<Rightarrow> nat \<Rightarrow> nat" where
  "last_or ps d = (if ps = [] then d else last ps)"

text \<open>\<open>dlseg m prv ps nxt\<close>: the payload addresses \<open>ps\<close> form a doubly linked list segment in
  the memory \<open>m\<close>. The word at a node is the address of its successor (\<open>nxt\<close> after the last
  node), the word 8 bytes further the address of its predecessor (\<open>prv\<close> before the first).\<close>

fun dlseg :: "memory \<Rightarrow> nat \<Rightarrow> nat list \<Rightarrow> nat \<Rightarrow> bool" where
  "dlseg m prv [] nxt = True"
| "dlseg m prv (p # ps) nxt =
     (W m p = of_nat (head_or ps nxt) \<and> W m (p + 8) = of_nat prv \<and> dlseg m p ps nxt)"

text \<open>The payload address of a block is a positive multiple of 16 with room for two links;
  \<open>wupd m y v m'\<close>: the memory \<open>m'\<close> is \<open>m\<close> with the word \<open>v\<close> stored at \<open>y\<close>.\<close>

definition node :: "nat \<Rightarrow> bool" where
  "node p = (0 < p \<and> 16 dvd p \<and> p + 16 \<le> 2 ^ 64)"

definition wupd :: "memory \<Rightarrow> nat \<Rightarrow> 64 word \<Rightarrow> memory \<Rightarrow> bool" where
  "wupd m y v m' = (\<forall>x. 8 dvd x \<longrightarrow> x + 8 \<le> 2 ^ 64 \<longrightarrow> W m' x = (if x = y then v else W m x))"

text \<open>\<open>lists_ok st fl\<close>: for each of the fifteen size classes \<open>i\<close> the list \<open>fl i\<close> of payload
  addresses is the null-terminated doubly linked list that starts at \<^verbatim>\<open>segFreeList[i]\<close>.\<close>

definition lists_ok :: "state \<Rightarrow> (nat \<Rightarrow> nat list) \<Rightarrow> bool" where
  "lists_ok st fl =
     (\<forall>i<15. segFreeList st i = of_nat (head_or (fl i) 0) \<and> dlseg (mem st) 0 (fl i) 0)"

definition nodes_ok :: "(nat \<Rightarrow> nat list) \<Rightarrow> bool" where
  "nodes_ok fl =
     (\<forall>i<15. distinct (fl i) \<and> (\<forall>p\<in>set (fl i). node p) \<and>
             (\<forall>j<15. i \<noteq> j \<longrightarrow> set (fl i) \<inter> set (fl j) = {}))"

text \<open>The two link words of each node of a set of nodes; and \<open>frame st st' S\<close>: the state
  \<open>st'\<close> has the heap bounds of \<open>st\<close> and differs from it in memory at most in the words
  of \<open>S\<close>.\<close>

definition links :: "nat set \<Rightarrow> nat set" where
  "links S = S \<union> (\<lambda>q. q + 8) ` S"

definition frame :: "state \<Rightarrow> state \<Rightarrow> nat set \<Rightarrow> bool" where
  "frame st st' S =
     (heap_lo st' = heap_lo st \<and> heap_brk st' = heap_brk st \<and> heap_max st' = heap_max st \<and>
      (\<forall>x. 8 dvd x \<longrightarrow> x + 8 \<le> 2 ^ 64 \<longrightarrow> x \<notin> S \<longrightarrow> W (mem st') x = W (mem st) x))"

text \<open>The size class of a payload size, and the payload addresses of the free blocks of a
  size class.\<close>

definition bin_of :: "nat \<Rightarrow> nat" where
  "bin_of sz = nat (getFreeListIndex (of_nat sz))"

definition free_nodes :: "block list \<Rightarrow> nat \<Rightarrow> nat list" where
  "free_nodes bs i =
     map (\<lambda>b. fst b + 8) (filter (\<lambda>b. \<not> snd (snd b) \<and> bin_of (fst (snd b)) = i) bs)"

text \<open>
  The invariants of sections 3 and 8 of the spec. \<open>repr st bs fl\<close>: the heap of the state
  \<open>st\<close> is the sequence of blocks \<open>bs\<close> and its free lists are \<open>fl\<close>. The low address is a
  positive multiple of 16; the blocks run from just after the 8-byte prologue exactly to the
  high mark \<^verbatim>\<open>mm_sbrk\<close> has reached (invariants 1 and 2 of section 8); the tags are right
  (\<open>tags_ok\<close>: invariants 3, 4 and 5); \<^verbatim>\<open>lastHeader\<close> is the header of the last block, or the
  low address when there is no block; the lists are well linked; and list \<open>i\<close> holds, once
  each, exactly the free blocks of size class \<open>i\<close> (invariants 6, 7 and 8).
\<close>

definition repr :: "state \<Rightarrow> block list \<Rightarrow> (nat \<Rightarrow> nat list) \<Rightarrow> bool" where
  "repr st bs fl =
     (0 < unat (heap_lo st) \<and> unat (heap_lo st) mod 16 = 0 \<and>
      chain (unat (heap_lo st) + 8) bs (unat (heap_brk st)) \<and>
      tags_ok (mem st) True bs \<and>
      lastHeader st = of_nat (if bs = [] then unat (heap_lo st) else fst (last bs)) \<and>
      lists_ok st fl \<and>
      (\<forall>i<15. distinct (fl i) \<and> set (fl i) = set (free_nodes bs i)))"

text \<open>The table of size classes of section 3 of the spec, on \<open>m = (s - 8) / 16\<close>.\<close>

definition bin_nat :: "nat \<Rightarrow> nat" where
  "bin_nat m =
     (if m \<le> 4 then m - 1 else if m \<le> 6 then 4 else if m \<le> 8 then 5 else if m \<le> 16 then 6
      else if m \<le> 32 then 7 else if m \<le> 64 then 8 else if m \<le> 128 then 9
      else if m \<le> 256 then 10 else if m \<le> 512 then 11 else if m \<le> 1024 then 12
      else if m \<le> 2048 then 13 else 14)"

text \<open>The outcome of the search that starts in list \<open>idx\<close> with the nodes \<open>ps\<close> still to
  visit: either a free block that fits is placed, or the heap is extended, and then no free
  block that fits is in the lists still to be searched.\<close>

definition search_fit ::
  "state \<Rightarrow> block list \<Rightarrow> nat \<Rightarrow> nat \<Rightarrow> nat list \<Rightarrow> (error + addr \<times> state) \<Rightarrow> bool" where
  "search_fit st bs n idx ps r =
     ((r = (case extendHeap st (of_nat n) of (h, st1) \<Rightarrow> Inr (getPayload h, st1)) \<and>
       (\<forall>a sz. (a, sz, False) \<in> set bs \<and> n \<le> sz \<longrightarrow>
           bin_of sz < idx \<or> (bin_of sz = idx \<and> a + 8 \<notin> set ps))) \<or>
      (\<exists>a sz. (a, sz, False) \<in> set bs \<and> n \<le> sz \<and>
         r = place st (of_nat n) (int (bin_of sz)) (of_nat (a + 8)) (of_nat a) (of_nat sz)))"

text \<open>Some free block of \<open>bs\<close> has room for \<open>n\<close> bytes.\<close>

definition fits :: "block list \<Rightarrow> nat \<Rightarrow> bool" where
  "fits bs n = (\<exists>(a, sz, al) \<in> set bs. \<not> al \<and> n \<le> sz)"

text \<open>The free lists after the free block at \<open>a\<close> of size \<open>sz\<close> has been split for a request
  of \<open>n\<close> bytes: the remainder has been put in front of the list of its size class and the
  victim has been taken off its list.\<close>

definition split_lists :: "(nat \<Rightarrow> nat list) \<Rightarrow> nat \<Rightarrow> nat \<Rightarrow> nat \<Rightarrow> nat \<Rightarrow> nat list" where
  "split_lists fl a sz n =
     (fl(bin_of (sz - n - 8) := (a + 8 + n + 8) # fl (bin_of (sz - n - 8))))
       (bin_of sz := remove1 (a + 8)
          ((fl(bin_of (sz - n - 8) := (a + 8 + n + 8) # fl (bin_of (sz - n - 8)))) (bin_of sz)))"

text \<open>
  What \<^verbatim>\<open>malloc\<close> does on a well-formed heap for a request normalised to \<open>n\<close> bytes, with the
  result \<open>p\<close> and the new state \<open>st'\<close>. If a free block fits, one such block is used: it is
  split when at least 32 bytes remain and marked allocated as a whole otherwise. If none
  fits and the heap can grow by \<open>8 + n\<close> bytes, a new last block is created. If none fits
  and the heap cannot grow, the result is the address 8 and the state is unchanged.
\<close>

definition malloc_post ::
  "state \<Rightarrow> block list \<Rightarrow> (nat \<Rightarrow> nat list) \<Rightarrow> nat \<Rightarrow> addr \<Rightarrow> state \<Rightarrow> bool" where
  "malloc_post st bs fl n p st' =
     (if fits bs n then
        (\<exists>pre a sz post. bs = pre @ (a, sz, False) # post \<and> n \<le> sz \<and> p = of_nat (a + 8) \<and>
           heap_brk st' = heap_brk st \<and>
           (if 32 \<le> sz - n
            then repr st' (pre @ (a, n, True) # (a + 8 + n, sz - n - 8, False) # post)
                   (split_lists fl a sz n)
            else repr st' (pre @ (a, sz, True) # post)
                   (fl(bin_of sz := remove1 (a + 8) (fl (bin_of sz))))))
      else if unat (heap_brk st) + (8 + n) \<le> unat (heap_max st)
        then p = heap_brk st + 8 \<and> repr st' (bs @ [(unat (heap_brk st), n, True)]) fl
        else p = 8 \<and> st' = st)"

text \<open>A heap on which \<open>malloc\<close> can succeed for the size \<open>n\<close>: a free block fits or the
  extender has room.\<close>

definition can_alloc :: "state \<Rightarrow> block list \<Rightarrow> nat \<Rightarrow> bool" where
  "can_alloc st bs n = (fits bs n \<or> unat (heap_brk st) + (8 + n) \<le> unat (heap_max st))"

text \<open>No two adjacent blocks are both free.\<close>

fun naf :: "block list \<Rightarrow> bool" where
  "naf ((a, sz, al) # (a', sz', al') # bs) = ((al \<or> al') \<and> naf ((a', sz', al') # bs))"
| "naf bs = True"

text \<open>The state after a call, for writing down runs of the allocator.\<close>

definition init_st :: "state \<Rightarrow> state" where
  "init_st st = snd (mm_init st)"

definition malloc_st :: "state \<Rightarrow> size_t \<Rightarrow> state" where
  "malloc_st st s = (case malloc st s of Some (Inr (p, st')) \<Rightarrow> st' | _ \<Rightarrow> st)"

definition free_st :: "state \<Rightarrow> addr \<Rightarrow> state" where
  "free_st st p = (case free st p of Inr st' \<Rightarrow> st' | Inl e \<Rightarrow> st)"

text \<open>
  Example heaps, all in a region at \<open>0x1000\<close>. \<open>heap0\<close>: initialised, with room for
  \<open>0x1000\<close> bytes. \<open>heap3\<close>: three blocks of 40 bytes, all allocated. \<open>heap_hole\<close>: a free
  block of 104 bytes followed by an allocated block of 40 bytes. \<open>heap_full\<close>: a region with
  room for \<open>0x38\<close> bytes only, filled by the prologue and one allocated block of 40 bytes.
\<close>

definition heap0 :: state where
  "heap0 = init_st (empty_region 0x1000 0x1000)"

definition heap3 :: state where
  "heap3 = malloc_st (malloc_st (malloc_st heap0 40) 40) 40"

definition heap_hole :: state where
  "heap_hole = free_st (malloc_st (malloc_st heap0 100) 40) 0x1010"

definition heap_full :: state where
  "heap_full = malloc_st (init_st (empty_region 0x1000 0x38)) 40"

text \<open>
  A run on the fresh heap \<open>heap0\<close>: \<^verbatim>\<open>malloc(40)\<close> and \<^verbatim>\<open>free\<close> of the result give
  \<open>heap_freed\<close>, one free block of 40 bytes. A request of \<open>2\<^sup>6\<^sup>4 - 16\<close> bytes is normalised to
  \<open>2\<^sup>6\<^sup>4 - 8\<close>, the extender is asked for \<open>8 + (2\<^sup>6\<^sup>4 - 8) = 0\<close> bytes and succeeds, and
  \<^verbatim>\<open>extendHeap\<close> writes a header at the break and makes it \<^verbatim>\<open>lastHeader\<close>
  (\<open>heap_wrapped\<close>). The next \<^verbatim>\<open>malloc(56)\<close> creates a block at the same address and finds
  itself as the last block, which is allocated, so it sets its previous-allocated bit
  although the block before it is free (\<open>heap_wrapped2\<close>).
\<close>

definition heap_freed :: state where
  "heap_freed = free_st (malloc_st heap0 40) 0x1010"

definition heap_wrapped :: state where
  "heap_wrapped = malloc_st heap_freed 0xFFFFFFFFFFFFFFF0"

definition heap_wrapped2 :: state where
  "heap_wrapped2 = malloc_st heap_wrapped 56"

text \<open>Freeing that block: its previous-allocated bit is set, so \<^verbatim>\<open>free\<close> does not look at
  the block before it, and two free blocks lie side by side (\<open>heap_broken\<close>).\<close>

definition heap_broken :: state where
  "heap_broken = free_st heap_wrapped2 0x1040"

text \<open>
  The blocks of the heap after \<^verbatim>\<open>free\<close> of the allocated block at \<open>a\<close> of size \<open>sz\<close>, which
  lies between the blocks \<open>pre\<close> and \<open>post\<close>, in the four cases of \<^verbatim>\<open>free\<close>: a free left
  neighbour (the last block of \<open>pre\<close>) and a free right neighbour (the first block of
  \<open>post\<close>) are absorbed, with their headers, into one free block.
\<close>

definition coalesced :: "block list \<Rightarrow> nat \<Rightarrow> nat \<Rightarrow> block list \<Rightarrow> block list" where
  "coalesced pre a sz post =
     (case (if pre \<noteq> [] \<and> \<not> snd (snd (last pre)) then Some (last pre) else None,
            if post \<noteq> [] \<and> \<not> snd (snd (hd post)) then Some (hd post) else None) of
        (None, None) \<Rightarrow> pre @ (a, sz, False) # post
      | (None, Some (a2, s2, l2)) \<Rightarrow> pre @ (a, sz + s2 + 8, False) # tl post
      | (Some (ap, sp, lp), None) \<Rightarrow> butlast pre @ (ap, sp + sz + 8, False) # post
      | (Some (ap, sp, lp), Some (a2, s2, l2)) \<Rightarrow>
          butlast pre @ (ap, sp + sz + s2 + 16, False) # tl post)"

text \<open>The blocks of the heap after \<^verbatim>\<open>malloc\<close> has placed a request normalised to \<open>n\<close> bytes
  in the free block at \<open>a\<close> of size \<open>b\<close>.\<close>

definition placed :: "block list \<Rightarrow> nat \<Rightarrow> nat \<Rightarrow> nat \<Rightarrow> block list \<Rightarrow> block list" where
  "placed pre a b n post =
     (if 32 \<le> b - n then pre @ (a, n, True) # (a + 8 + n, b - n - 8, False) # post
      else pre @ (a, b, True) # post)"

section \<open>Size normalisation\<close>

lemma unat_newAlign:
  assumes "s \<le> 0xFFFFFFFFFFFFFFF8"
  shows "unat (newAlign s) = (if unat s \<le> 24 then 24 else 16 * ((unat s - 9) div 16) + 24)"
proof (cases "s \<le> 24")
  case True
  then show ?thesis by (simp add: newAlign_def word_le_nat_alt)
next
  case False
  then have gt: "24 < unat s" by (simp add: word_le_nat_alt)
  have le: "unat s \<le> 18446744073709551608" using assms by (simp add: word_le_nat_alt)
  define q where "q = (unat s - 9) div 16"
  have "q \<le> (18446744073709551608 - 9) div 16"
    unfolding q_def using le by (intro div_le_mono diff_le_mono)
  then have q: "16 * q + 24 < 18446744073709551616" by simp
  have A: "newAlign s = 16 * ((s - 9) div 16) + 24"
    using False by (simp add: newAlign_def align_def)
  have 2: "unat (s - 9) = unat s - 9"
    using gt by (simp add: unat_sub word_le_nat_alt)
  have 3: "unat ((s - 9) div 16) = q"
    by (simp add: unat_div 2 q_def)
  have m: "unat (16::64 word) * unat ((s - 9) div 16) < 2 ^ LENGTH(64)"
    unfolding 3 using q le by simp
  have 4: "unat (16 * ((s - 9) div 16)) = 16 * q"
    using iffD1[OF unat_mult_lem m] 3 by simp
  have a: "unat (16 * ((s - 9) div 16)) + unat (24 :: 64 word) < 2 ^ LENGTH(64)"
    unfolding 4 using q le gt by simp
  have 5: "unat (16 * ((s - 9) div 16) + 24) = 16 * q + 24"
    using iffD1[OF unat_add_lem a] 4 by simp
  show ?thesis using gt 5 unfolding A q_def by simp
qed

lemma newAlign_nat_props:
  fixes n :: nat
  assumes "24 < n"
  shows "\<exists>k. 16 * ((n - 9) div 16) + 24 = 24 + 16 * k"
    and "n \<le> 16 * ((n - 9) div 16) + 24"
    and "\<And>k. n \<le> 24 + 16 * k \<Longrightarrow> 16 * ((n - 9) div 16) + 24 \<le> 24 + 16 * k"
proof -
  show "\<exists>k. 16 * ((n - 9) div 16) + 24 = 24 + 16 * k" by auto
  show "n \<le> 16 * ((n - 9) div 16) + 24" using assms by presburger
  show "16 * ((n - 9) div 16) + 24 \<le> 24 + 16 * k" if "n \<le> 24 + 16 * k" for k
  proof -
    have "(n - 9) div 16 \<le> (24 + 16 * k - 9) div 16"
      using that by (intro div_le_mono diff_le_mono)
    also have "\<dots> = k" by presburger
    finally show ?thesis by simp
  qed
qed

lemma ceil16: "\<lceil>(real_of_int x - 24) / 16\<rceil> = (x - 9) div 16"
proof (rule ceiling_unique)
  define z where "z = (x - 9) div 16"
  define r where "r = (x - 9) mod 16"
  have x: "x - 9 = 16 * z + r" unfolding z_def r_def by simp
  have r: "0 \<le> r" "r < 16" unfolding r_def by simp_all
  have "x - 24 \<le> 16 * z" using x r by linarith
  then have "real_of_int (x - 24) \<le> real_of_int (16 * z)" by (simp only: of_int_le_iff)
  then show "(real_of_int x - 24) / 16 \<le> real_of_int ((x - 9) div 16)"
    unfolding z_def[symmetric] by simp
  have "16 * z - 16 < x - 24" using x r by linarith
  then have "16 * (z - 1) < x - 24" by (simp add: algebra_simps)
  then have "real_of_int (16 * (z - 1)) < real_of_int (x - 24)" by (simp only: of_int_less_iff)
  then show "real_of_int ((x - 9) div 16) - 1 < (real_of_int x - 24) / 16"
    unfolding z_def[symmetric] by simp
qed

lemma uint_newAlign_ceiling:
  assumes "s \<le> 0xFFFFFFFFFFFFFFF8"
  shows "uint (newAlign s) = max 24 (24 + 16 * \<lceil>(real_of_int (uint s) - 24) / 16\<rceil>)"
proof -
  define n where "n = unat s"
  have u: "uint s = int n" by (simp add: n_def)
  have "int (unat (newAlign s)) = max 24 (24 + 16 * ((int n - 9) div 16))"
  proof (cases "n \<le> 24")
    case True
    then have "(int n - 9) div 16 \<le> 0" by presburger
    moreover have "unat (newAlign s) = 24" using True unat_newAlign[OF assms] by (simp add: n_def)
    ultimately show ?thesis by simp
  next
    case False
    then have "int ((n - 9) div 16) = (int n - 9) div 16"
      by (simp add: zdiv_int)
    moreover have "(int n - 9) div 16 \<ge> 0" using False by simp
    moreover have "unat (newAlign s) = 16 * ((n - 9) div 16) + 24"
      using False unat_newAlign[OF assms] by (simp add: n_def)
    ultimately show ?thesis by simp
  qed
  then show ?thesis unfolding ceil16 u by simp
qed

text \<open>
  Claim C7, as amended. For every requested size \<open>s\<close> with \<open>0 < s \<le> 2^64 - 8\<close>,
  \<^verbatim>\<open>newAlign\<close> gives \<open>n = max 24 (24 + 16 * ceiling ((s - 24) / 16))\<close>; \<open>n\<close> is a valid
  payload size \<open>24 + 16 k\<close>, it is at least \<open>s\<close>, and no valid payload size below it
  is at least \<open>s\<close>.
\<close>

theorem newAlign_smallest_valid:
  assumes "0 < s" and "s \<le> 0xFFFFFFFFFFFFFFF8"
  shows "uint (newAlign s) = max 24 (24 + 16 * \<lceil>(real_of_int (uint s) - 24) / 16\<rceil>)
       \<and> (\<exists>k. unat (newAlign s) = 24 + 16 * k)
       \<and> s \<le> newAlign s
       \<and> (\<forall>k. unat s \<le> 24 + 16 * k \<longrightarrow> unat (newAlign s) \<le> 24 + 16 * k)"
proof (cases "unat s \<le> 24")
  case True
  then have n: "unat (newAlign s) = 24" using unat_newAlign[OF assms(2)] by simp
  have "s \<le> newAlign s" using True n by (simp add: word_le_nat_alt)
  moreover have "\<exists>k. unat (newAlign s) = 24 + 16 * k" using n by simp
  ultimately show ?thesis using n uint_newAlign_ceiling[OF assms(2)] by simp
next
  case False
  then have gt: "24 < unat s" by simp
  have n: "unat (newAlign s) = 16 * ((unat s - 9) div 16) + 24"
    using unat_newAlign[OF assms(2)] False by simp
  have "s \<le> newAlign s"
    using newAlign_nat_props(2)[OF gt] n by (simp add: word_le_nat_alt)
  moreover have "\<exists>k. unat (newAlign s) = 24 + 16 * k"
    using newAlign_nat_props(1)[OF gt] n by simp
  moreover have "\<forall>k. unat s \<le> 24 + 16 * k \<longrightarrow> unat (newAlign s) \<le> 24 + 16 * k"
    using newAlign_nat_props(3)[OF gt] n by simp
  ultimately show ?thesis using uint_newAlign_ceiling[OF assms(2)] by simp
qed

theorem newAlign_smallest_valid_witness:
  "(0::size_t) < 100 \<and> (100::size_t) \<le> 0xFFFFFFFFFFFFFFF8 \<and> newAlign 100 = 104
   \<and> (100::size_t) \<le> newAlign 100 \<and> (\<exists>k. unat (newAlign 100) = 24 + 16 * k)"
proof -
  have h1: "(0::size_t) < 100" and h2: "(100::size_t) \<le> 0xFFFFFFFFFFFFFFF8" by simp_all
  have "newAlign 100 = 104" by (simp add: newAlign_def align_def)
  with newAlign_smallest_valid[OF h1 h2] h1 h2 show ?thesis by blast
qed

text \<open>
  The claim as stated, for every \<open>s > 0\<close>, fails where the arithmetic of \<^verbatim>\<open>size_t\<close>
  wraps around: for the largest request, \<^verbatim>\<open>newAlign\<close> gives 8, which is below the
  request (and is no valid payload size).
\<close>

theorem newAlign_wraps_counterexample:
  "newAlign 0xFFFFFFFFFFFFFFFF = 8 \<and> \<not> (0xFFFFFFFFFFFFFFFF \<le> newAlign 0xFFFFFFFFFFFFFFFF)"
  by (simp add: newAlign_def align_def)

section \<open>free outside the heap\<close>

text \<open>
  Claim C8. For every pointer \<open>p\<close> outside the heap bounds, \<^verbatim>\<open>free\<close> is a no-op: the
  state (heap bytes, the 15 list heads, the last-block pointer) is returned unchanged.
  The null pointer is outside the bounds of every heap whose low address is not 0.
\<close>

theorem free_outside_heap_noop:
  "(\<not> in_heap st p \<longrightarrow> free st p = Inr st)
   \<and> (mm_heap_lo st \<noteq> 0 \<longrightarrow> \<not> in_heap st 0 \<and> free st 0 = Inr st)"
proof -
  have "\<not> in_heap st 0" if "mm_heap_lo st \<noteq> 0"
    using that by (simp add: in_heap_def)
  then show ?thesis by (simp add: free_def)
qed

theorem free_outside_heap_noop_witness:
  "\<not> in_heap (empty_region 0x1000 0x100) 0x2000
   \<and> free (empty_region 0x1000 0x100) 0x2000 = Inr (empty_region 0x1000 0x100)
   \<and> mm_heap_lo (empty_region 0x1000 0x100) \<noteq> 0
   \<and> free (empty_region 0x1000 0x100) 0 = Inr (empty_region 0x1000 0x100)"
proof -
  have h1: "\<not> in_heap (empty_region 0x1000 0x100) 0x2000"
    by (simp add: in_heap_def mm_heap_hi_def mm_heap_lo_def empty_region_def)
  have h2: "mm_heap_lo (empty_region 0x1000 0x100) \<noteq> 0"
    by (simp add: mm_heap_lo_def empty_region_def)
  from free_outside_heap_noop[of "empty_region 0x1000 0x100" "0x2000"] h1 h2
  show ?thesis by blast
qed

section \<open>The heap checker in the shipped configuration\<close>

text \<open>
  Claim C10. With \<^verbatim>\<open>DEBUG\<close> undefined, \<^verbatim>\<open>mm_checkheap\<close> returns true for every
  state and every call-site tag: its result does not depend on the heap.
\<close>

theorem mm_checkheap_nodebug: "mm_checkheap False st lineno = Some True"
  by (simp add: mm_checkheap_def)

section \<open>Reading and writing 64-bit words\<close>

lemma load64_store64_same: "load64 (store64 m a v) a = v"
  unfolding load64_def store64_def
  apply (simp)
  apply (rule bit_word_eqI)
  subgoal for n
    apply (simp add: bit_simps less_diff_conv2 cong: conj_cong)
    apply (cases "bit v n")
     apply simp_all
    apply linarith
    done
  done

lemma store64_apart: "\<not> x - a < 8 \<Longrightarrow> store64 m a v x = m x"
  by (simp add: store64_def)

lemma load64_cong:
  assumes "\<And>i. i < 8 \<Longrightarrow> m' (b + i) = m (b + i)"
  shows "load64 m' b = load64 m b"
  using assms[of 0] assms[of 1] assms[of 2] assms[of 3] assms[of 4] assms[of 5] assms[of 6] assms[of 7]
  by (simp add: load64_def)

lemma addr_apart:
  fixes a b i :: addr
  assumes "8 \<le> b - a" "8 \<le> a - b" "i < 8"
  shows "\<not> (b + i - a < 8)"
proof -
  have 1: "unat (b - a) \<ge> 8" using assms(1) by (simp add: word_le_nat_alt)
  have 2: "unat (a - b) \<ge> 8" using assms(2) by (simp add: word_le_nat_alt)
  have 3: "unat i < 8" using assms(3) by (simp add: word_less_nat_alt)
  have 4: "b + i - a = (b - a) + i" by simp
  have 5: "a - b = 0 - (b - a)" by simp
  have 6: "unat (a - b) = (if unat (b - a) \<le> 0 then 0 - unat (b - a) else 2^64 - unat (b - a))"
    unfolding 5 by (subst unat_sub_if_size) (simp add: word_size)
  have 7: "unat (b - a) < 2^64" using unsigned_less[of "b - a", where 'a=nat] by simp
  have 8: "unat (b - a + i) = unat (b - a) + unat i"
    using 1 2 3 6 7 by (subst unat_plus_if') (simp split: if_splits)
  show ?thesis
    unfolding 4 word_less_nat_alt 8 using 1 by simp
qed

lemma load64_store64_other:
  assumes "8 \<le> b - a" "8 \<le> a - b"
  shows "load64 (store64 m a v) b = load64 m b"
  by (rule load64_cong) (rule store64_apart, rule addr_apart[OF assms])

lemma unat_of_nat64: "x < 2 ^ 64 \<Longrightarrow> unat (of_nat x :: addr) = x"
  by (rule of_nat_inverse[OF refl]) simp

lemma of_nat_diff_apart:
  fixes x y :: nat
  assumes "x + 8 \<le> y" "y + 8 \<le> 2 ^ 64"
  shows "8 \<le> (of_nat y :: addr) - of_nat x" "8 \<le> (of_nat x :: addr) - of_nat y"
proof -
  have y: "y < 2 ^ 64" and x: "x < 2 ^ 64" using assms by simp_all
  have ux: "unat (of_nat x :: addr) = x" using x by (simp add: unat_of_nat64)
  have uy: "unat (of_nat y :: addr) = y" using y by (simp add: unat_of_nat64)
  have 1: "unat ((of_nat y :: addr) - of_nat x) = y - x"
    by (subst unat_sub_if_size) (use assms ux uy in \<open>simp add: word_size\<close>)
  have 2: "unat ((of_nat x :: addr) - of_nat y) = x + 2 ^ 64 - y"
    by (subst unat_sub_if_size) (use assms ux uy in \<open>simp add: word_size\<close>)
  show "8 \<le> (of_nat y :: addr) - of_nat x"
    unfolding word_le_nat_alt 1 using assms by simp
  show "8 \<le> (of_nat x :: addr) - of_nat y"
    unfolding word_le_nat_alt 2 using assms by simp
qed

lemma W_store_same: "W (store64 m (of_nat x) v) x = v"
  by (simp add: W_def load64_store64_same)

lemma W_store_other:
  assumes "x + 8 \<le> y \<or> y + 8 \<le> x" "x + 8 \<le> 2 ^ 64" "y + 8 \<le> 2 ^ 64"
  shows "W (store64 m (of_nat y) v) x = W m x"
  using assms(1)
proof
  assume "x + 8 \<le> y"
  from of_nat_diff_apart[OF this assms(3)] show ?thesis
    unfolding W_def by (intro load64_store64_other)
next
  assume "y + 8 \<le> x"
  from of_nat_diff_apart[OF this assms(2)] show ?thesis
    unfolding W_def by (intro load64_store64_other)
qed

lemma aligned_apart:
  fixes x y :: nat
  assumes "8 dvd x" "8 dvd y" "x \<noteq> y"
  shows "x + 8 \<le> y \<or> y + 8 \<le> x"
proof -
  from assms(1) obtain i where i: "x = 8 * i" by (rule dvdE)
  from assms(2) obtain j where j: "y = 8 * j" by (rule dvdE)
  from assms(3) show ?thesis unfolding i j by auto
qed

lemma W_store:
  assumes "8 dvd x" "8 dvd y" "x + 8 \<le> 2 ^ 64" "y + 8 \<le> 2 ^ 64"
  shows "W (store64 m (of_nat y) v) x = (if x = y then v else W m x)"
  using W_store_other[OF aligned_apart[OF assms(1,2)] assms(3,4)] W_store_same
  by auto

section \<open>Header words\<close>

lemma mask_consts:
  "(0xFFFFFFFFFFFFFFF8 :: 64 word) = NOT (mask 3)" "(0xFFFFFFFFFFFFFFFE :: 64 word) = NOT 1"
  "(0xFFFFFFFFFFFFFFFD :: 64 word) = NOT 2" "(7 :: 64 word) = mask 3"
  by (simp_all add: mask_eq_exp_minus_1)

lemma low3_bits:
  fixes z :: "64 word"
  assumes "z AND 7 = 0" "n < 3"
  shows "\<not> bit z n"
proof
  assume "bit z n"
  then have "bit (z AND mask 3) n" using assms(2) by (simp only: bit_and_iff bit_mask_iff) simp
  then show False using assms(1) by (simp only: mask_consts[symmetric]) simp
qed

lemmas bit_unfold = bit_and_iff bit_or_iff bit_not_iff bit_mask_iff bit_1_iff bit_2_iff

lemma and1_eq0: "(w AND 1 = 0) = (\<not> bit w 0)" for w :: "64 word"
proof
  assume "w AND 1 = 0"
  then have "\<not> bit (w AND 1) 0" by simp
  then show "\<not> bit w 0" by (simp only: bit_unfold) simp
next
  assume "\<not> bit w 0"
  then show "w AND 1 = 0"
    by (intro bit_word_eqI) (simp only: bit_unfold, auto simp: bit_1_iff bit_2_iff intro: ccontr)
qed

lemma and2_eq0: "(w AND 2 = 0) = (\<not> bit w 1)" for w :: "64 word"
proof
  assume "w AND 2 = 0"
  then have "\<not> bit (w AND 2) 1" by simp
  then show "\<not> bit w 1" by (simp only: bit_unfold) simp
next
  assume "\<not> bit w 1"
  then show "w AND 2 = 0"
    by (intro bit_word_eqI) (simp only: bit_unfold, auto simp: bit_1_iff bit_2_iff intro: ccontr)
qed

lemma hdr_bit0: "of_nat sz AND (7 :: 64 word) = 0 \<Longrightarrow> bit (hdr sz al pa) 0 = al"
  using low3_bits[of "of_nat sz" 0]
  by (simp only: hdr_def bit_unfold) (auto simp: bit_1_iff bit_2_iff split: if_splits)

lemma hdr_bit1: "of_nat sz AND (7 :: 64 word) = 0 \<Longrightarrow> bit (hdr sz al pa) 1 = pa"
  using low3_bits[of "of_nat sz" 1]
  by (simp only: hdr_def bit_unfold) (auto simp: bit_1_iff bit_2_iff split: if_splits)

lemma hdr_free: "of_nat sz AND (7 :: 64 word) = 0 \<Longrightarrow> (hdr sz al pa AND 1 = 0) = (\<not> al)"
  by (simp only: and1_eq0 hdr_bit0)

lemma hdr_prev: "of_nat sz AND (7 :: 64 word) = 0 \<Longrightarrow> (hdr sz al pa AND 2 = 0) = (\<not> pa)"
  by (simp only: and2_eq0 hdr_bit1)

lemma hdr_size:
  assumes "of_nat sz AND (7 :: 64 word) = 0"
  shows "hdr sz al pa AND 0xFFFFFFFFFFFFFFF8 = of_nat sz"
  unfolding mask_consts
  apply (rule bit_word_eqI)
  apply (simp only: hdr_def bit_unfold)
  using low3_bits[OF assms] low3_bits[OF assms, of 0] low3_bits[OF assms, of 1]
  apply (auto simp: bit_1_iff bit_2_iff split: if_splits intro!: gr0I)
  done

lemma hdr_set_alloc: "hdr sz al pa OR 1 = hdr sz True pa"
  apply (rule bit_word_eqI)
  apply (simp only: hdr_def bit_unfold)
  apply (auto simp: bit_1_iff bit_2_iff split: if_splits)
  done

lemma hdr_set_free:
  assumes "of_nat sz AND (7 :: 64 word) = 0"
  shows "hdr sz al pa AND 0xFFFFFFFFFFFFFFFE = hdr sz False pa"
  unfolding mask_consts
  apply (rule bit_word_eqI)
  apply (simp only: hdr_def bit_unfold)
  using low3_bits[OF assms] low3_bits[OF assms, of 0] low3_bits[OF assms, of 1]
  apply (auto simp: bit_1_iff bit_2_iff split: if_splits intro!: gr0I)
  done

lemma hdr_set_prev_alloc: "hdr sz al pa OR 2 = hdr sz al True"
  apply (rule bit_word_eqI)
  apply (simp only: hdr_def bit_unfold)
  apply (auto simp: bit_1_iff bit_2_iff split: if_splits)
  done

lemma hdr_set_prev_free:
  assumes "of_nat sz AND (7 :: 64 word) = 0"
  shows "hdr sz al pa AND 0xFFFFFFFFFFFFFFFD = hdr sz al False"
  unfolding mask_consts
  apply (rule bit_word_eqI)
  apply (simp only: hdr_def bit_unfold)
  using low3_bits[OF assms] low3_bits[OF assms, of 0] low3_bits[OF assms, of 1]
  apply (auto simp: bit_1_iff bit_2_iff split: if_splits intro!: gr0I)
  done

lemma hdr_set_size:
  assumes "of_nat sz AND (7 :: 64 word) = 0"
  shows "(hdr sz al pa AND 7) OR of_nat sz' = hdr sz' al pa"
  unfolding mask_consts
  apply (rule bit_word_eqI)
  apply (simp only: hdr_def bit_unfold)
  using low3_bits[OF assms] low3_bits[OF assms, of 0] low3_bits[OF assms, of 1]
  apply (auto simp: bit_1_iff bit_2_iff split: if_splits intro!: gr0I)
  done

lemma ftr_set_size:
  fixes f z :: "64 word"
  assumes "z AND 7 = 0"
  shows "((f AND 7) OR z) AND 0xFFFFFFFFFFFFFFF8 = z"
  unfolding mask_consts
  apply (rule bit_word_eqI)
  apply (simp only: bit_unfold)
  using low3_bits[OF assms]
  apply auto
  done

lemma ftr_set_free:
  fixes g :: "64 word"
  shows "(g AND 0xFFFFFFFFFFFFFFFE) AND 0xFFFFFFFFFFFFFFF8 = g AND 0xFFFFFFFFFFFFFFF8"
  unfolding mask_consts
  apply (rule bit_word_eqI)
  apply (simp only: bit_unfold)
  apply auto
  done

lemma hdr_plain: "hdr sz False False = of_nat sz"
  by (simp add: hdr_def)

lemma of_nat_and7:
  assumes "8 dvd sz"
  shows "of_nat sz AND (7 :: 64 word) = 0"
proof -
  from assms obtain k where "sz = 8 * k" by (rule dvdE)
  then have "(of_nat sz :: 64 word) = push_bit 3 (of_nat k)"
    by (simp add: push_bit_eq_mult)
  then show ?thesis
    unfolding mask_consts
    by (intro bit_word_eqI) (simp add: bit_simps)
qed

section \<open>Moving between the tags of a block\<close>

lemma word_div8: 
  assumes "8 dvd x" "x < 2 ^ 64"
  shows "8 * ((of_nat x :: 64 word) div 8) = of_nat x"
proof -
  from assms(1) obtain k where k: "x = 8 * k" by (rule dvdE)
  have "(of_nat x :: 64 word) div 8 = of_nat (unat (of_nat x :: 64 word) div unat (8 :: 64 word))"
    by (rule word_arith_nat_div)
  also have "\<dots> = of_nat (x div 8)"
    by (simp only: unat_of_nat64[OF assms(2)]) simp
  also have "x div 8 = k" using k by simp
  finally show ?thesis using k by simp
qed

lemma nav_next:
  assumes "8 dvd sz" "sz + 8 < 2 ^ 64"
  shows "getNextHeader (of_nat a) (of_nat sz) = of_nat (a + 8 + sz)"
proof -
  have "8 * (((8::64 word) + of_nat sz) div 8) = of_nat (8 + sz)"
    using word_div8[of "8 + sz"] assms by simp
  then show ?thesis
    by (simp add: getNextHeader_def get8ByteAlignment_def)
qed

lemma nav_footer:
  assumes "8 dvd sz" "sz < 2 ^ 64"
  shows "getFooter (of_nat a) (of_nat sz) = of_nat (a + sz)"
  using word_div8[OF assms] by (simp add: getFooter_def get8ByteAlignment_def)

lemma nav_prev_footer:
  assumes "8 \<le> a"
  shows "getPrevFooter (of_nat a) = of_nat (a - 8)"
  using assms by (simp add: getPrevFooter_def get8ByteAlignment_def)

lemma nav_prev:
  assumes "8 dvd sz" "sz + 8 < 2 ^ 64" "8 + sz \<le> a"
  shows "getPrevHeader (of_nat a) (of_nat sz) = of_nat (a - 8 - sz)"
proof -
  have "8 * (((8::64 word) + of_nat sz) div 8) = of_nat (8 + sz)"
    using word_div8[of "8 + sz"] assms by simp
  moreover have "(of_nat (a - 8 - sz) :: 64 word) = of_nat a - of_nat (8 + sz)"
    using assms(3) by simp
  ultimately show ?thesis
    by (simp add: getPrevHeader_def get8ByteAlignment_def)
qed

lemma nav_payload: "getPayload (of_nat a) = of_nat (a + 8)"
  by (simp add: getPayload_def get8ByteAlignment_def)

lemma nav_hdr_of_payload: "(of_nat (a + 8) :: 64 word) - 8 = of_nat a"
  by simp

lemma mul8_div8: "(8::64 word) * get8ByteAlignment 8 = 8"
  by (simp add: get8ByteAlignment_def)

lemma rd_W: "rd st (of_nat x) = W (mem st) x"
  by (simp add: rd_def W_def)

lemma wr_simps [simp]:
  "heap_lo (wr st a v) = heap_lo st" "heap_brk (wr st a v) = heap_brk st"
  "heap_max (wr st a v) = heap_max st" "segFreeList (wr st a v) = segFreeList st"
  "lastHeader (wr st a v) = lastHeader st"
  by (simp_all add: wr_def)

lemma W_wr:
  assumes "8 dvd x" "8 dvd y" "x + 8 \<le> 2 ^ 64" "y + 8 \<le> 2 ^ 64"
  shows "W (mem (wr st (of_nat y) v)) x = (if x = y then v else W (mem st) x)"
  using W_store[OF assms] by (simp add: wr_def)

lemma modw_wr:
  assumes "8 dvd y" "y + 8 \<le> 2 ^ 64"
  shows "modw st y (\<lambda>_. v) (wr st (of_nat y) v)"
  unfolding modw_def using assms by (simp add: W_wr)

lemma modw_setAlloc:
  assumes "8 dvd y" "y + 8 \<le> 2 ^ 64"
  shows "modw st y (\<lambda>w. w OR 1) (setAlloc st (of_nat y))"
  unfolding modw_def setAlloc_def using assms by (simp add: W_wr rd_W)

lemma modw_setFree:
  assumes "8 dvd y" "y + 8 \<le> 2 ^ 64"
  shows "modw st y (\<lambda>w. w AND 0xFFFFFFFFFFFFFFFE) (setFree st (of_nat y))"
  unfolding modw_def setFree_def using assms by (simp add: W_wr rd_W)

lemma modw_setPrevAlloc:
  assumes "8 dvd y" "y + 8 \<le> 2 ^ 64"
  shows "modw st y (\<lambda>w. w OR 2) (setPrevAlloc st (of_nat y))"
  unfolding modw_def setPrevAlloc_def using assms by (simp add: W_wr rd_W)

lemma modw_setPrevFree:
  assumes "8 dvd y" "y + 8 \<le> 2 ^ 64"
  shows "modw st y (\<lambda>w. w AND 0xFFFFFFFFFFFFFFFD) (setPrevFree st (of_nat y))"
  unfolding modw_def setPrevFree_def using assms by (simp add: W_wr rd_W)

lemma modw_setBlockSize:
  assumes "8 dvd y" "y + 8 \<le> 2 ^ 64"
  shows "modw st y (\<lambda>w. (w AND 7) OR s) (setBlockSize st (of_nat y) s)"
  unfolding modw_def setBlockSize_def Let_def using assms by (simp add: W_wr rd_W)

section \<open>The blocks of a heap\<close>

lemma chain_append:
  "chain a (xs @ ys) e = (\<exists>c. chain a xs c \<and> chain c ys e)"
  by (induction xs arbitrary: a) auto

lemma chain_le: "chain a bs e \<Longrightarrow> a \<le> e"
proof (induction bs arbitrary: a)
  case Nil
  then show ?case by simp
next
  case (Cons b bs)
  obtain a0 s0 l0 where b: "b = (a0, s0, l0)" by (cases b)
  from Cons.prems have "chain (a + 8 + s0) bs e" by (simp add: b)
  from Cons.IH[OF this] show ?case by simp
qed

lemma chain_mem:
  "chain a bs e \<Longrightarrow> (a', sz, al) \<in> set bs \<Longrightarrow>
     a \<le> a' \<and> a' + 8 + sz \<le> e \<and> 24 \<le> sz \<and> sz mod 16 = 8"
proof (induction bs arbitrary: a)
  case Nil
  then show ?case by simp
next
  case (Cons b bs)
  obtain a0 s0 l0 where b: "b = (a0, s0, l0)" by (cases b)
  from Cons.prems(1) have c: "a0 = a" "24 \<le> s0" "s0 mod 16 = 8" "chain (a + 8 + s0) bs e"
    by (simp_all add: b)
  show ?case
  proof (cases "(a', sz, al) = b")
    case True
    then show ?thesis using c chain_le[OF c(4)] b by auto
  next
    case False
    then have "(a', sz, al) \<in> set bs" using Cons.prems(2) by simp
    from Cons.IH[OF c(4) this] show ?thesis by simp
  qed
qed

lemma chain_unique_end: "chain a bs e \<Longrightarrow> chain a bs e' \<Longrightarrow> e = e'"
  by (induction bs arbitrary: a) auto

lemma mod16_step:
  fixes a s :: nat
  assumes "a mod 16 = 8" "s mod 16 = 8"
  shows "(a + 8 + s) mod 16 = 8"
proof -
  obtain i where i: "a = 16 * i + 8" using assms(1) by (metis mod_mult_div_eq add.commute)
  obtain j where j: "s = 16 * j + 8" using assms(2) by (metis mod_mult_div_eq add.commute)
  define k where "k = i + j + 1"
  have "a + 8 + s = 16 * k + 8" unfolding i j k_def by simp
  also have "\<dots> mod 16 = 8" by simp
  finally show ?thesis .
qed

lemma mod16_dvd8:
  fixes s :: nat
  assumes "s mod 16 = 8"
  shows "8 dvd s"
proof -
  have "s = 16 * (s div 16) + s mod 16" by simp
  then have "s = 8 * (2 * (s div 16) + 1)" unfolding assms by simp
  then show ?thesis by (rule dvdI)
qed

lemma chain_align:
  "chain a bs e \<Longrightarrow> a mod 16 = 8 \<Longrightarrow> e mod 16 = 8"
proof (induction bs arbitrary: a)
  case Nil
  then show ?case by simp
next
  case (Cons b bs)
  obtain a0 s0 l0 where b: "b = (a0, s0, l0)" by (cases b)
  from Cons.prems(1) have c: "s0 mod 16 = 8" "chain (a + 8 + s0) bs e"
    by (simp_all add: b)
  have "(a + 8 + s0) mod 16 = 8" using c(1) Cons.prems(2) by (intro mod16_step)
  from Cons.IH[OF c(2) this] show ?case .
qed

lemma chain_mem_align:
  assumes "chain a bs e" "a mod 16 = 8" "(a', sz, al) \<in> set bs"
  shows "a' mod 16 = 8"
proof -
  from assms(3) obtain xs ys where s: "bs = xs @ (a', sz, al) # ys"
    by (meson split_list)
  from assms(1) obtain c where c: "chain a xs c" "chain c ((a', sz, al) # ys) e"
    unfolding s chain_append by blast
  from c(2) have "a' = c" by simp
  with chain_align[OF c(1) assms(2)] show ?thesis by simp
qed

lemma tags_ok_append:
  "tags_ok m pa (xs @ ys) = (tags_ok m pa xs \<and> tags_ok m (last_alloc pa xs) ys)"
  by (induction xs arbitrary: pa) (auto simp: last_alloc_def)

lemma interior_Cons:
  "interior (b # bs) x = ((fst b < x \<and> (x < fst b + fst (snd b) \<or> snd (snd b) \<and> x < fst b + 8 + fst (snd b))) \<or> interior bs x)"
  by (cases b) (auto simp: interior_def)

lemma interior_bounds:
  assumes "chain a bs e" "interior bs x"
  shows "a < x \<and> x < e"
proof -
  from assms(2) obtain a' sz al where m: "(a', sz, al) \<in> set bs"
      and x: "a' < x" "x < a' + sz \<or> al \<and> x < a' + 8 + sz"
    unfolding interior_def by auto
  from chain_mem[OF assms(1) m] x show ?thesis by auto
qed

lemma tags_ok_frame:
  assumes "chain a bs e" "8 dvd a" "e \<le> 2 ^ 64"
    and "\<And>x. 8 dvd x \<Longrightarrow> x + 8 \<le> 2 ^ 64 \<Longrightarrow> a \<le> x \<Longrightarrow> x < e \<Longrightarrow> \<not> interior bs x \<Longrightarrow> W m' x = W m x"
  shows "tags_ok m' pa bs = tags_ok m pa bs"
  using assms
proof (induction bs arbitrary: a pa)
  case Nil
  then show ?case by simp
next
  case (Cons b bs)
  obtain a0 s0 l0 where b: "b = (a0, s0, l0)" by (cases b)
  from Cons.prems(1) have c: "a0 = a" "24 \<le> s0" "s0 mod 16 = 8" "chain (a + 8 + s0) bs e"
    by (simp_all add: b)
  have le: "a + 8 + s0 \<le> e" using chain_le[OF c(4)] .
  have d8: "8 dvd s0" using c(3) by (rule mod16_dvd8)
  have ni: "\<not> interior bs x" if "x < a + 8 + s0" for x
    using interior_bounds[OF c(4), of x] that by auto
  have h: "W m' a = W m a"
    using Cons.prems(2,3) le ni[of a] c(2)
    by (intro Cons.prems(4)) (auto simp: interior_Cons b c(1))
  have f: "W m' (a + s0) = W m (a + s0)" if "\<not> l0"
    using Cons.prems(2,3) le ni[of "a + s0"] d8 that
    by (intro Cons.prems(4)) (auto simp: interior_Cons b c(1))
  have r: "tags_ok m' l0 bs = tags_ok m l0 bs"
  proof (rule Cons.IH[OF c(4)])
    show "8 dvd a + 8 + s0" using Cons.prems(2) d8 by simp
    show "e \<le> 2 ^ 64" by fact
    fix x assume x: "8 dvd x" "x + 8 \<le> 2 ^ 64" "a + 8 + s0 \<le> x" "x < e" "\<not> interior bs x"
    show "W m' x = W m x"
      using x by (intro Cons.prems(4)) (auto simp: interior_Cons b c(1))
  qed
  show ?case
  proof (cases l0)
    case True
    then show ?thesis using h r by (simp add: b c(1))
  next
    case False
    then show ?thesis using h f r by (simp add: b c(1))
  qed
qed

section \<open>Doubly linked free lists\<close>

lemma head_or_simps [simp]: "head_or [] d = d" "head_or (p # ps) d = p"
  by (simp_all add: head_or_def)

lemma last_or_simps [simp]: "last_or [] d = d" "last_or (xs @ [p]) d = p"
  by (simp_all add: last_or_def)

lemma last_or_Cons: "last_or (p # ps) d = last_or ps p"
  by (simp add: last_or_def)

lemma head_or_append: "head_or (xs @ ys) d = head_or xs (head_or ys d)"
  by (cases xs) simp_all

lemma dlseg_append:
  "dlseg m prv (xs @ ys) nxt = (dlseg m prv xs (head_or ys nxt) \<and> dlseg m (last_or xs prv) ys nxt)"
proof (induction xs arbitrary: prv)
  case Nil
  show ?case by simp
next
  case (Cons p xs)
  show ?case by (simp add: Cons.IH head_or_append last_or_Cons)
qed

lemma node_facts:
  assumes "node p"
  shows "8 dvd p" "8 dvd p + 8" "p + 8 \<le> 2 ^ 64" "p + 8 + 8 \<le> 2 ^ 64" "p < 2 ^ 64" "0 < p"
proof -
  from assms have d: "16 dvd p" and b: "p + 16 \<le> 2 ^ 64" and z: "0 < p"
    by (simp_all add: node_def)
  from d obtain k where k: "p = 16 * k" by (rule dvdE)
  have "p = 8 * (2 * k)" using k by simp
  then show "8 dvd p" by (rule dvdI)
  then show "8 dvd p + 8" by simp
  show "p + 8 \<le> 2 ^ 64" "p + 8 + 8 \<le> 2 ^ 64" "p < 2 ^ 64" using b by simp_all
  show "0 < p" by fact
qed

lemma node_apart:
  assumes "node p" "node q" "p \<noteq> q"
  shows "p \<noteq> q + 8" "p + 8 \<noteq> q"
proof -
  from assms(1) obtain k where k: "p = 16 * k" unfolding node_def by blast
  from assms(2) obtain l where l: "q = 16 * l" unfolding node_def by blast
  show "p \<noteq> q + 8" unfolding k l by presburger
  show "p + 8 \<noteq> q" unfolding k l by presburger
qed

lemma wupd_same: "wupd m y v m' \<Longrightarrow> 8 dvd y \<Longrightarrow> y + 8 \<le> 2 ^ 64 \<Longrightarrow> W m' y = v"
  by (simp add: wupd_def)

lemma wupd_other: "wupd m y v m' \<Longrightarrow> 8 dvd x \<Longrightarrow> x + 8 \<le> 2 ^ 64 \<Longrightarrow> x \<noteq> y \<Longrightarrow> W m' x = W m x"
  by (simp add: wupd_def)

lemma wupd_store:
  assumes "8 dvd y" "y + 8 \<le> 2 ^ 64"
  shows "wupd m y v (store64 m (of_nat y) v)"
  unfolding wupd_def using assms by (simp add: W_store)

lemma dlseg_wupd_other:
  assumes "wupd m y v m'" "\<forall>p \<in> set ps. node p \<and> y \<noteq> p \<and> y \<noteq> p + 8"
  shows "dlseg m' prv ps nxt = dlseg m prv ps nxt"
  using assms(2)
proof (induction ps arbitrary: prv)
  case Nil
  show ?case by simp
next
  case (Cons p ps)
  then have n: "node p" and y: "y \<noteq> p" "y \<noteq> p + 8" by simp_all
  have 1: "W m' p = W m p"
    using wupd_other[OF assms(1) node_facts(1,3)[OF n]] y by simp
  have 2: "W m' (p + 8) = W m (p + 8)"
    using wupd_other[OF assms(1) node_facts(2,4)[OF n]] y by simp
  show ?case using Cons by (simp add: 1 2)
qed

lemma dlseg_set_prev:
  assumes "wupd m (q + 8) (of_nat p') m'" "dlseg m prv (q # ys) nxt"
    "distinct (q # ys)" "\<forall>p \<in> set (q # ys). node p"
  shows "dlseg m' p' (q # ys) nxt"
proof -
  have n: "node q" using assms(4) by simp
  have "\<forall>p \<in> set ys. node p \<and> q + 8 \<noteq> p \<and> q + 8 \<noteq> p + 8"
  proof
    fix p assume p: "p \<in> set ys"
    then have np: "node p" and ne: "q \<noteq> p" using assms(3,4) by auto
    from node_apart[OF n np ne] np ne show "node p \<and> q + 8 \<noteq> p \<and> q + 8 \<noteq> p + 8" by simp
  qed
  from dlseg_wupd_other[OF assms(1) this] have r: "dlseg m' q ys nxt"
    using assms(2) by simp
  have 1: "W m' q = W m q"
    using wupd_other[OF assms(1) node_facts(1,3)[OF n]] by simp
  have 2: "W m' (q + 8) = of_nat p'"
    using wupd_same[OF assms(1) node_facts(2,4)[OF n]] .
  show ?thesis using assms(2) r by (simp add: 1 2)
qed

lemma dlseg_set_next:
  assumes "wupd m (last xs) (of_nat n') m'" "dlseg m prv xs nxt" "xs \<noteq> []"
    "distinct xs" "\<forall>p \<in> set xs. node p"
  shows "dlseg m' prv xs n'"
  using assms(2-)  assms(1)
proof (induction xs arbitrary: prv)
  case Nil
  then show ?case by simp
next
  case (Cons p xs)
  have n: "node p" using Cons.prems(4) by simp
  show ?case
  proof (cases "xs = []")
    case True
    have 1: "W m' p = of_nat n'"
      using wupd_same[OF Cons.prems(5)[unfolded True] ] node_facts(1,3)[OF n] by simp
    have 2: "W m' (p + 8) = W m (p + 8)"
      using wupd_other[OF Cons.prems(5)[unfolded True] node_facts(2,4)[OF n]] by simp
    show ?thesis using Cons.prems(1) by (simp add: True 1 2)
  next
    case False
    then have l: "last (p # xs) = last xs" by simp
    have lm: "last xs \<in> set xs" using False by simp
    then have nl: "node (last xs)" and ne: "last xs \<noteq> p"
      using Cons.prems(3,4) by auto
    have w: "wupd m (last xs) (of_nat n') m'" using Cons.prems(5) unfolding l .
    have 1: "W m' p = W m p"
      using wupd_other[OF w node_facts(1,3)[OF n]] ne by simp
    have 2: "W m' (p + 8) = W m (p + 8)"
      using wupd_other[OF w node_facts(2,4)[OF n]] node_apart[OF n nl] ne by simp
    have r: "dlseg m' p xs n'"
      using Cons.IH[OF _ False _ _ w] Cons.prems(1,3,4) by simp
    obtain q zs where xs: "xs = q # zs" using False by (cases xs) auto
    show ?thesis using Cons.prems(1) r by (simp add: 1 2 xs)
  qed
qed

section \<open>The fifteen lists of the registry\<close>

lemma of_nat_inj64:
  assumes "x < 2 ^ 64" "y < 2 ^ 64"
  shows "((of_nat x :: 64 word) = of_nat y) = (x = y)"
  using unat_of_nat64[OF assms(1)] unat_of_nat64[OF assms(2)] by metis

lemma of_nat_node_neq0: "node p \<Longrightarrow> (of_nat p :: 64 word) \<noteq> 0"
  using of_nat_inj64[of p 0] node_facts(5,6)[of p] by simp

lemma rd_W8: "rd st (of_nat x + 8) = W (mem st) (x + 8)"
  by (simp add: rd_def W_def)

lemma wupd_wr:
  assumes "8 dvd y" "y + 8 \<le> 2 ^ 64"
  shows "wupd (mem st) y v (mem (wr st (of_nat y) v))"
  using wupd_store[OF assms] by (simp add: wr_def)

lemma wr_of_nat8: "wr st (of_nat q + 8) v = wr st (of_nat (q + 8)) v"
  by simp

lemma in_links: "(x \<in> links S) = (x \<in> S \<or> (\<exists>q \<in> S. x = q + 8))"
  by (auto simp: links_def)

lemma frame_refl: "frame st st S"
  by (simp add: frame_def)

lemma frame_trans: "frame st st1 S \<Longrightarrow> frame st1 st2 T \<Longrightarrow> frame st st2 (S \<union> T)"
  by (simp add: frame_def)

lemma frame_mono: "frame st st' S \<Longrightarrow> S \<subseteq> T \<Longrightarrow> frame st st' T"
  by (auto simp: frame_def)

lemma frame_wr:
  assumes "8 dvd y" "y + 8 \<le> 2 ^ 64"
  shows "frame st (wr st (of_nat y) v) {y}"
  unfolding frame_def using wupd_other[OF wupd_wr[OF assms]] by simp

lemma frame_segFreeList [simp]: "frame st (st'\<lparr>segFreeList := h\<rparr>) S = frame st st' S"
  by (simp add: frame_def)

lemma frame_lastHeader [simp]: "frame st (st'\<lparr>lastHeader := h\<rparr>) S = frame st st' S"
  by (simp add: frame_def)

lemma frame_lastHeader' [simp]: "frame (st\<lparr>lastHeader := h\<rparr>) st' S = frame st st' S"
  by (simp add: frame_def)

lemma lists_other:
  assumes "lists_ok st fl" "nodes_ok fl" "j < 15"
    and "wupd (mem st) y v m'" "\<forall>p \<in> set (fl j). y \<noteq> p \<and> y \<noteq> p + 8"
  shows "dlseg m' 0 (fl j) 0"
proof -
  have "\<forall>p \<in> set (fl j). node p \<and> y \<noteq> p \<and> y \<noteq> p + 8"
    using assms(2,3,5) by (simp add: nodes_ok_def)
  from dlseg_wupd_other[OF assms(4) this] assms(1,3) show ?thesis
    by (simp add: lists_ok_def)
qed

section \<open>Inserting into a free list\<close>

lemma fresh_apart:
  assumes "node p" "node r" "p \<noteq> r"
  shows "p \<noteq> r \<and> p \<noteq> r + 8" "p + 8 \<noteq> r \<and> p + 8 \<noteq> r + 8"
  using node_apart[OF assms] assms(3) by simp_all

lemma add_ok:
  assumes L: "lists_ok st fl" and N: "nodes_ok fl" and i: "i < 15"
    and p: "node p" and fresh: "\<forall>j<15. p \<notin> set (fl j)"
  shows "\<exists>st'. addFreeBlock st (of_nat p) (int i) = Inr st' \<and>
           lists_ok st' (fl(i := p # fl i)) \<and> frame st st' (links (insert p (set (fl i)))) \<and>
           lastHeader st' = lastHeader st"
proof -
  define m where "m = mem st"
  have hd: "segFreeList st i = of_nat (head_or (fl i) 0)" and dl: "dlseg m 0 (fl i) 0"
    using L i by (simp_all add: lists_ok_def m_def)
  have nodes: "\<And>j r. j < 15 \<Longrightarrow> r \<in> set (fl j) \<Longrightarrow> node r"
    using N by (simp add: nodes_ok_def)
  have ne: "\<And>j r. j < 15 \<Longrightarrow> r \<in> set (fl j) \<Longrightarrow> p \<noteq> r"
    using fresh by auto
  have p8: "8 dvd p" "p + 8 \<le> 2 ^ 64" "8 dvd p + 8" "p + 8 + 8 \<le> 2 ^ 64"
    using node_facts[OF p] by simp_all
  show ?thesis
  proof (cases "fl i")
    case Nil
    define st1 where "st1 = wr st (of_nat p) 0"
    define st2 where "st2 = wr st1 (of_nat (p + 8)) 0"
    define st' where "st' = st2\<lparr>segFreeList := (segFreeList st2)(i := of_nat p)\<rparr>"
    note st_defs = st2_def st1_def
    have w1: "wupd m p 0 (mem st1)" unfolding st1_def m_def by (rule wupd_wr[OF p8(1,2)])
    have w2: "wupd (mem st1) (p + 8) 0 (mem st2)" unfolding st2_def by (rule wupd_wr[OF p8(3,4)])
    have run: "addFreeBlock st (of_nat p) (int i) = Inr st'"
      using i hd Nil
      by (simp add: addFreeBlock_def setNextFreeBlock_def setPrevFreeBlock_def mul8_div8
            st'_def st2_def st1_def Let_def)
    have Wp: "W (mem st2) p = 0"
      using wupd_other[OF w2 p8(1,2)] wupd_same[OF w1 p8(1,2)] by simp
    have Wp8: "W (mem st2) (p + 8) = 0"
      using wupd_same[OF w2 p8(3,4)] .
    have other: "dlseg (mem st2) 0 (fl j) 0" if j: "j < 15" for j
    proof -
      have a: "\<forall>r \<in> set (fl j). node r \<and> p \<noteq> r \<and> p \<noteq> r + 8"
        using fresh_apart(1)[OF p nodes[OF j] ne[OF j]] nodes[OF j] by simp
      have b: "\<forall>r \<in> set (fl j). node r \<and> p + 8 \<noteq> r \<and> p + 8 \<noteq> r + 8"
        using fresh_apart(2)[OF p nodes[OF j] ne[OF j]] nodes[OF j] by simp
      have "dlseg m 0 (fl j) 0" using L j by (simp add: lists_ok_def m_def)
      then show ?thesis
        using dlseg_wupd_other[OF w1 a, of 0 0] dlseg_wupd_other[OF w2 b, of 0 0] by blast
    qed
    have heads: "segFreeList st2 = segFreeList st" by (simp add: st2_def st1_def)
    have lo: "lists_ok st' (fl(i := p # fl i))"
      unfolding lists_ok_def
    proof (intro allI impI)
      fix j :: nat assume j: "j < 15"
      show "segFreeList st' j = of_nat (head_or ((fl(i := p # fl i)) j) 0) \<and>
            dlseg (mem st') 0 ((fl(i := p # fl i)) j) 0"
      proof (cases "j = i")
        case True
        then show ?thesis using Wp Wp8 by (simp add: st'_def Nil)
      next
        case False
        then show ?thesis using other[OF j] L j by (simp add: st'_def heads lists_ok_def)
      qed
    qed
    have f1: "frame st st1 {p}" unfolding st1_def by (rule frame_wr[OF p8(1,2)])
    have f2: "frame st1 st2 {p + 8}" unfolding st2_def by (rule frame_wr[OF p8(3,4)])
    have "frame st st2 ({p} \<union> {p + 8})" by (rule frame_trans[OF f1 f2])
    then have "frame st st' (links (insert p (set (fl i))))"
      unfolding st'_def frame_segFreeList by (rule frame_mono) (auto simp: in_links)
    moreover have "lastHeader st' = lastHeader st" by (simp add: st'_def st_defs)
    ultimately show ?thesis using run lo by blast
  next
    case (Cons q zs)
    have qn: "node q" using nodes[OF i, of q] Cons by simp
    have q8: "8 dvd q + 8" "q + 8 + 8 \<le> 2 ^ 64" using node_facts[OF qn] by simp_all
    have pq: "p \<noteq> q" using ne[OF i, of q] Cons by simp
    have q0: "(of_nat q :: 64 word) \<noteq> 0" by (rule of_nat_node_neq0[OF qn])
    define st1 where "st1 = wr st (of_nat p) (of_nat q)"
    define st2 where "st2 = wr st1 (of_nat (q + 8)) (of_nat p)"
    define st3 where "st3 = wr st2 (of_nat (p + 8)) 0"
    define st' where "st' = st3\<lparr>segFreeList := (segFreeList st3)(i := of_nat p)\<rparr>"
    note st_defs = st3_def st2_def st1_def
    have w1: "wupd m p (of_nat q) (mem st1)" unfolding st1_def m_def by (rule wupd_wr[OF p8(1,2)])
    have w2: "wupd (mem st1) (q + 8) (of_nat p) (mem st2)" unfolding st2_def by (rule wupd_wr[OF q8])
    have w3: "wupd (mem st2) (p + 8) 0 (mem st3)" unfolding st3_def by (rule wupd_wr[OF p8(3,4)])
    have run: "addFreeBlock st (of_nat p) (int i) = Inr st'"
      using i hd Cons q0
      by (simp add: addFreeBlock_def setNextFreeBlock_def setPrevFreeBlock_def mul8_div8
            st'_def st3_def st2_def st1_def Let_def)
    have ap: "p \<noteq> q + 8" "p + 8 \<noteq> q" "p + 8 \<noteq> q + 8"
      using fresh_apart[OF p qn pq] by simp_all
    have Wp: "W (mem st3) p = of_nat q"
      using wupd_other[OF w3 p8(1,2)] wupd_other[OF w2 p8(1,2)] wupd_same[OF w1 p8(1,2)] ap by simp
    have Wp8: "W (mem st3) (p + 8) = 0"
      using wupd_same[OF w3 p8(3,4)] .
    have a: "\<forall>r \<in> set (fl j). node r \<and> p \<noteq> r \<and> p \<noteq> r + 8" if j: "j < 15" for j
      using fresh_apart(1)[OF p nodes[OF j] ne[OF j]] nodes[OF j] by simp
    have b: "\<forall>r \<in> set (fl j). node r \<and> p + 8 \<noteq> r \<and> p + 8 \<noteq> r + 8" if j: "j < 15" for j
      using fresh_apart(2)[OF p nodes[OF j] ne[OF j]] nodes[OF j] by simp
    have "dlseg (mem st1) 0 (fl i) 0"
      using dlseg_wupd_other[OF w1 a[OF i], of 0 0] dl by blast
    then have d1: "dlseg (mem st1) 0 (q # zs) 0" unfolding Cons .
    have dist: "distinct (q # zs)" and alln: "\<forall>r \<in> set (q # zs). node r"
      using N i Cons by (auto simp: nodes_ok_def)
    have d2: "dlseg (mem st2) p (q # zs) 0"
      by (rule dlseg_set_prev[OF w2 d1 dist alln])
    have "dlseg (mem st3) p (fl i) 0"
      using dlseg_wupd_other[OF w3 b[OF i], of p 0] d2 unfolding Cons by blast
    then have d3: "dlseg (mem st3) p (q # zs) 0" unfolding Cons .
    have other: "dlseg (mem st3) 0 (fl j) 0" if j: "j < 15" and ji: "j \<noteq> i" for j
    proof -
      have qj: "q \<notin> set (fl j)" using N i j ji Cons by (auto simp: nodes_ok_def)
      have c: "\<forall>r \<in> set (fl j). node r \<and> q + 8 \<noteq> r \<and> q + 8 \<noteq> r + 8"
      proof
        fix r assume r: "r \<in> set (fl j)"
        then have "q \<noteq> r" using qj by auto
        from fresh_apart(2)[OF qn nodes[OF j r] this] nodes[OF j r]
        show "node r \<and> q + 8 \<noteq> r \<and> q + 8 \<noteq> r + 8" by simp
      qed
      have "dlseg m 0 (fl j) 0" using L j by (simp add: lists_ok_def m_def)
      then show ?thesis
        using dlseg_wupd_other[OF w1 a[OF j], of 0 0] dlseg_wupd_other[OF w2 c, of 0 0]
          dlseg_wupd_other[OF w3 b[OF j], of 0 0]
        by blast
    qed
    have heads: "segFreeList st3 = segFreeList st" by (simp add: st3_def st2_def st1_def)
    have lo: "lists_ok st' (fl(i := p # fl i))"
      unfolding lists_ok_def
    proof (intro allI impI)
      fix j :: nat assume j: "j < 15"
      show "segFreeList st' j = of_nat (head_or ((fl(i := p # fl i)) j) 0) \<and>
            dlseg (mem st') 0 ((fl(i := p # fl i)) j) 0"
      proof (cases "j = i")
        case True
        then show ?thesis using Wp Wp8 d3 by (simp add: st'_def Cons)
      next
        case False
        then show ?thesis using other[OF j False] L j by (simp add: st'_def heads lists_ok_def)
      qed
    qed
    have f1: "frame st st1 {p}" unfolding st1_def by (rule frame_wr[OF p8(1,2)])
    have f2: "frame st1 st2 {q + 8}" unfolding st2_def by (rule frame_wr[OF q8])
    have f3: "frame st2 st3 {p + 8}" unfolding st3_def by (rule frame_wr[OF p8(3,4)])
    have "frame st st3 (({p} \<union> {q + 8}) \<union> {p + 8})" by (rule frame_trans[OF frame_trans[OF f1 f2] f3])
    then have "frame st st' (links (insert p (set (fl i))))"
      unfolding st'_def frame_segFreeList by (rule frame_mono) (auto simp: in_links Cons)
    moreover have "lastHeader st' = lastHeader st" by (simp add: st'_def st_defs)
    ultimately show ?thesis using run lo by blast
  qed
qed

section \<open>Removing from a free list\<close>

lemma remove_ok:
  assumes L: "lists_ok st fl" and N: "nodes_ok fl" and i: "i < 15" and p: "p \<in> set (fl i)"
  shows "\<exists>st'. removeFreeBlock st (of_nat p) (int i) = Inr st' \<and>
           lists_ok st' (fl(i := remove1 p (fl i))) \<and> frame st st' (links (set (fl i) - {p})) \<and>
           lastHeader st' = lastHeader st"
proof -
  define m where "m = mem st"
  have hd: "segFreeList st i = of_nat (head_or (fl i) 0)" and dl: "dlseg m 0 (fl i) 0"
    using L i by (simp_all add: lists_ok_def m_def)
  have nodes: "\<And>j r. j < 15 \<Longrightarrow> r \<in> set (fl j) \<Longrightarrow> node r"
    using N by (simp add: nodes_ok_def)
  have dist: "distinct (fl i)" using N i by (simp add: nodes_ok_def)
  have disj: "\<And>j r. j < 15 \<Longrightarrow> j \<noteq> i \<Longrightarrow> r \<in> set (fl i) \<Longrightarrow> r \<notin> set (fl j)"
    using N i by (auto simp: nodes_ok_def)
  have pn: "node p" using nodes[OF i p] .
  from p obtain xs ys where split: "fl i = xs @ p # ys" by (meson split_list)
  have pxs: "p \<notin> set xs" and pys: "p \<notin> set ys" and dxs: "distinct xs" and dys: "distinct ys"
    and xy: "set xs \<inter> set ys = {}"
    using dist unfolding split by auto
  have rem: "remove1 p (fl i) = xs @ ys"
    unfolding split using pxs by (simp add: remove1_append)
  have nxs: "\<forall>r \<in> set xs. node r" and nys: "\<forall>r \<in> set ys. node r"
    using nodes[OF i] unfolding split by auto
  from dl have d0: "dlseg m 0 xs p" and Wp: "W m p = of_nat (head_or ys 0)"
    and Wp8: "W m (p + 8) = of_nat (last_or xs 0)" and dy: "dlseg m p ys 0"
    unfolding split dlseg_append by simp_all
  have rdp: "rd st (of_nat p) = of_nat (head_or ys 0)" using Wp by (simp add: rd_W m_def)
  have rdp8: "rd st (of_nat p + 8) = of_nat (last_or xs 0)" using Wp8 by (simp add: rd_W8 m_def)
  have set_sub: "set (xs @ ys) = set (fl i) - {p}" unfolding split using pxs pys by auto
  \<comment> \<open>the optional write to the successor's back link\<close>
  define st1 where "st1 = (if ys = [] then st else wr st (of_nat (hd ys + 8)) (of_nat (last_or xs 0)))"
  have st1_fields: "segFreeList st1 = segFreeList st" by (simp add: st1_def)
  have f1: "frame st st1 (links (set ys))"
  proof (cases ys)
    case Nil
    then show ?thesis by (simp add: st1_def frame_refl)
  next
    case (Cons q zs)
    have qn: "node q" using nys Cons by simp
    have "frame st st1 {q + 8}" unfolding st1_def
      using Cons frame_wr[OF node_facts(2,4)[OF qn], of st "of_nat (last_or xs 0)"] by simp
    then show ?thesis by (rule frame_mono) (simp add: in_links Cons)
  qed
  have d1: "dlseg (mem st1) (last_or xs 0) ys 0"
  proof (cases ys)
    case Nil
    then show ?thesis by simp
  next
    case (Cons q zs)
    have qn: "node q" using nys Cons by simp
    have w: "wupd m (q + 8) (of_nat (last_or xs 0)) (mem st1)"
      unfolding st1_def m_def
      using Cons wupd_wr[OF node_facts(2,4)[OF qn], of st "of_nat (last_or xs 0)"] by simp
    show ?thesis
      using dlseg_set_prev[OF w dy[unfolded Cons]] dys nys unfolding Cons by blast
  qed
  have o1: "dlseg (mem st1) prv zs nxt = dlseg m prv zs nxt"
    if "\<forall>r \<in> set zs. node r" "set zs \<inter> set ys = {}" for zs prv nxt
  proof (cases ys)
    case Nil
    then show ?thesis by (simp add: st1_def m_def)
  next
    case (Cons q zs')
    have qn: "node q" using nys Cons by simp
    have w: "wupd m (q + 8) (of_nat (last_or xs 0)) (mem st1)"
      unfolding st1_def m_def
      using Cons wupd_wr[OF node_facts(2,4)[OF qn], of st "of_nat (last_or xs 0)"] by simp
    have "\<forall>r \<in> set zs. node r \<and> q + 8 \<noteq> r \<and> q + 8 \<noteq> r + 8"
    proof
      fix r assume r: "r \<in> set zs"
      then have "q \<noteq> r" using that(2) Cons by auto
      from fresh_apart(2)[OF qn _ this] that(1) r show "node r \<and> q + 8 \<noteq> r \<and> q + 8 \<noteq> r + 8" by simp
    qed
    from dlseg_wupd_other[OF w this] show ?thesis .
  qed
  have ys_nz: "(of_nat (head_or ys 0) :: 64 word) \<noteq> 0" if "ys \<noteq> []"
  proof -
    from that obtain q zs where c: "ys = q # zs" by (cases ys) auto
    have "node q" using nys c by simp
    from of_nat_node_neq0[OF this] show ?thesis by (simp add: c)
  qed
  have hd_ys: "of_nat (head_or ys 0) + 8 = (of_nat (hd ys + 8) :: 64 word)" if "ys \<noteq> []"
    using that by (cases ys) simp_all
  show ?thesis
  proof (cases "xs = []")
    case True
    define st' where "st' = st1\<lparr>segFreeList := (segFreeList st1)(i := of_nat (head_or ys 0))\<rparr>"
    have run: "removeFreeBlock st (of_nat p) (int i) = Inr st'"
      using i hd rdp ys_nz hd_ys
      by (simp add: removeFreeBlock_def split True getNextFreeBlock_def setPrevFreeBlock_def
            mul8_div8 Let_def st'_def st1_def)
    have lo: "lists_ok st' (fl(i := remove1 p (fl i)))"
      unfolding lists_ok_def
    proof (intro allI impI)
      fix j :: nat assume j: "j < 15"
      show "segFreeList st' j = of_nat (head_or ((fl(i := remove1 p (fl i))) j) 0) \<and>
            dlseg (mem st') 0 ((fl(i := remove1 p (fl i))) j) 0"
      proof (cases "j = i")
        case True
        then show ?thesis using d1 \<open>xs = []\<close> by (simp add: st'_def rem)
      next
        case False
        have "set (fl j) \<inter> set ys = {}" using disj[OF j False] unfolding split by auto
        from o1[OF _ this, of 0 0] nodes[OF j] have "dlseg (mem st1) 0 (fl j) 0"
          using L j by (simp add: lists_ok_def m_def)
        then show ?thesis using False L j by (simp add: st'_def st1_fields lists_ok_def)
      qed
    qed
    have "frame st st' (links (set (fl i) - {p}))"
      unfolding st'_def frame_segFreeList
      by (rule frame_mono[OF f1]) (auto simp: in_links set_sub[symmetric])
    moreover have "lastHeader st' = lastHeader st" by (simp add: st'_def st1_def)
    ultimately show ?thesis using run lo by blast
  next
    case False
    define l where "l = last xs"
    have lx: "l \<in> set xs" unfolding l_def using False by simp
    have ln: "node l" using nxs lx by simp
    have lo_xs: "last_or xs 0 = l" using False by (simp add: last_or_def l_def)
    have lp: "l \<noteq> p" using lx pxs by auto
    have hdx: "head_or (fl i) 0 = hd xs" unfolding split using False by (cases xs) simp_all
    have "hd xs \<in> set xs" using False by simp
    then have hne: "hd xs \<noteq> p" and hn: "node (hd xs)" using pxs nxs by auto
    have not_head: "(of_nat p :: 64 word) \<noteq> of_nat (hd xs)"
      using of_nat_inj64[OF node_facts(5)[OF pn] node_facts(5)[OF hn]] hne by simp
    define st' where "st' = wr st1 (of_nat l) (of_nat (head_or ys 0))"
    have run: "removeFreeBlock st (of_nat p) (int i) = Inr st'"
      using i hd rdp rdp8 ys_nz hd_ys not_head
      by (simp add: removeFreeBlock_def hdx getNextFreeBlock_def getPrevFreeBlock_def
            setPrevFreeBlock_def setNextFreeBlock_def mul8_div8 Let_def st'_def st1_def lo_xs)
    have w2: "wupd (mem st1) l (of_nat (head_or ys 0)) (mem st')"
      unfolding st'_def by (rule wupd_wr[OF node_facts(1,3)[OF ln]])
    have "dlseg (mem st1) 0 xs p" using o1[OF nxs xy] d0 by simp
    from dlseg_set_next[OF w2[unfolded l_def] this False dxs nxs]
    have a: "dlseg (mem st') 0 xs (head_or ys 0)" .
    have o2: "dlseg (mem st') prv zs nxt = dlseg (mem st1) prv zs nxt"
      if "\<forall>r \<in> set zs. node r" "l \<notin> set zs" for zs prv nxt
    proof -
      have "\<forall>r \<in> set zs. node r \<and> l \<noteq> r \<and> l \<noteq> r + 8"
      proof
        fix r assume r: "r \<in> set zs"
        then have "l \<noteq> r" using that(2) by auto
        from fresh_apart(1)[OF ln _ this] that(1) r show "node r \<and> l \<noteq> r \<and> l \<noteq> r + 8" by simp
      qed
      from dlseg_wupd_other[OF w2 this] show ?thesis .
    qed
    have "l \<notin> set ys" using lx xy by auto
    from o2[OF nys this] d1 have b: "dlseg (mem st') l ys 0" by (simp add: lo_xs)
    have di: "dlseg (mem st') 0 (xs @ ys) 0"
      unfolding dlseg_append using a b by (simp add: lo_xs)
    have heads: "segFreeList st' = segFreeList st" by (simp add: st'_def st1_fields)
    have lo: "lists_ok st' (fl(i := remove1 p (fl i)))"
      unfolding lists_ok_def
    proof (intro allI impI)
      fix j :: nat assume j: "j < 15"
      show "segFreeList st' j = of_nat (head_or ((fl(i := remove1 p (fl i))) j) 0) \<and>
            dlseg (mem st') 0 ((fl(i := remove1 p (fl i))) j) 0"
      proof (cases "j = i")
        case True
        have "head_or (xs @ ys) 0 = hd xs" using False by (cases xs) simp_all
        then show ?thesis using di hd True by (simp add: heads rem hdx)
      next
        case ji: False
        have 1: "set (fl j) \<inter> set ys = {}" using disj[OF j ji] unfolding split by auto
        have 2: "l \<notin> set (fl j)" using disj[OF j ji, of l] lx unfolding split by auto
        have "dlseg m 0 (fl j) 0" using L j by (simp add: lists_ok_def m_def)
        then have "dlseg (mem st') 0 (fl j) 0"
          using o1[OF _ 1, of 0 0] o2[OF _ 2, of 0 0] nodes[OF j] by blast
        then show ?thesis using ji L j by (simp add: heads lists_ok_def)
      qed
    qed
    have f2: "frame st1 st' {l}" unfolding st'_def by (rule frame_wr[OF node_facts(1,3)[OF ln]])
    have "frame st st' (links (set (fl i) - {p}))"
      by (rule frame_mono[OF frame_trans[OF f1 f2]]) (use lx in \<open>auto simp: in_links set_sub[symmetric]\<close>)
    moreover have "lastHeader st' = lastHeader st" by (simp add: st'_def st1_def)
    ultimately show ?thesis using run lo by blast
  qed
qed

section \<open>Well-formed heaps\<close>

lemma small_index:
  fixes w :: "64 word"
  assumes "1 \<le> w" "w \<le> 4"
  shows "sint (ucast (w - 1) :: 32 word) = uint w - 1"
proof -
  have "1 \<le> unat w" "unat w \<le> 4" using assms by (simp_all add: word_le_nat_alt)
  then have "unat w = 1 \<or> unat w = 2 \<or> unat w = 3 \<or> unat w = 4" by linarith
  moreover have "w = 1" if "unat w = 1" using that by (simp add: word_unat_eq_iff)
  moreover have "w = 2" if "unat w = 2" using that by (simp add: word_unat_eq_iff)
  moreover have "w = 3" if "unat w = 3" using that by (simp add: word_unat_eq_iff)
  moreover have "w = 4" if "unat w = 4" using that by (simp add: word_unat_eq_iff)
  ultimately have "w = 1 \<or> w = 2 \<or> w = 3 \<or> w = 4" by blast
  then show ?thesis by auto
qed

lemma index_range_aux:
  fixes k :: "64 word"
  assumes "1 \<le> k"
  shows "0 \<le> (if k \<le> 4 then sint (ucast (k - 1) :: 32 word)
      else if k \<le> 6 then 4 else if k \<le> 8 then 5 else if k \<le> 16 then 6
      else if k \<le> 32 then 7 else if k \<le> 64 then 8 else if k \<le> 128 then 9
      else if k \<le> 256 then 10 else if k \<le> 512 then 11 else if k \<le> 1024 then 12
      else if k \<le> 2048 then 13 else (14::int))
    \<and> (if k \<le> 4 then sint (ucast (k - 1) :: 32 word)
      else if k \<le> 6 then 4 else if k \<le> 8 then 5 else if k \<le> 16 then 6
      else if k \<le> 32 then 7 else if k \<le> 64 then 8 else if k \<le> 128 then 9
      else if k \<le> 256 then 10 else if k \<le> 512 then 11 else if k \<le> 1024 then 12
      else if k \<le> 2048 then 13 else (14::int)) < 15"
proof (cases "k \<le> 4")
  case True
  have "1 \<le> uint k" "uint k \<le> 4" using assms True by (simp_all add: word_le_def)
  then show ?thesis using small_index[OF assms True] True by simp
next
  case False
  then show ?thesis by simp
qed

lemma index_range:
  assumes "24 \<le> unat w"
  shows "0 \<le> getFreeListIndex w \<and> getFreeListIndex w < 15"
proof -
  define k where "k = (w - 8) div 16"
  have "unat (w - 8) = unat w - 8" using assms by (simp add: unat_sub word_le_nat_alt)
  then have "unat k = (unat w - 8) div 16" by (simp add: k_def unat_div)
  then have "1 \<le> unat k" using assms by simp
  then have k1: "1 \<le> k" by (simp add: word_le_nat_alt)
  show ?thesis
    unfolding getFreeListIndex_def k_def[symmetric] Let_def by (rule index_range_aux[OF k1])
qed

lemma bin_of_valid:
  assumes "24 \<le> sz" "sz < 2 ^ 64"
  shows "bin_of sz < 15" "getFreeListIndex (of_nat sz) = int (bin_of sz)"
proof -
  have "24 \<le> unat (of_nat sz :: 64 word)" using assms by (simp add: unat_of_nat64)
  from index_range[OF this] have r: "0 \<le> getFreeListIndex (of_nat sz)" "getFreeListIndex (of_nat sz) < 15"
    by simp_all
  from r show "bin_of sz < 15" unfolding bin_of_def by linarith
  from r show "getFreeListIndex (of_nat sz) = int (bin_of sz)" unfolding bin_of_def by simp
qed

section \<open>Consequences of well-formedness\<close>

lemma chain_addr_unique:
  assumes "chain a0 bs e" "(a, sz, al) \<in> set bs" "(a, sz', al') \<in> set bs"
  shows "sz = sz' \<and> al = al'"
  using assms
proof (induction bs arbitrary: a0)
  case Nil
  then show ?case by simp
next
  case (Cons b bs)
  obtain a1 s1 l1 where b: "b = (a1, s1, l1)" by (cases b)
  from Cons.prems(1) have c: "a1 = a0" "24 \<le> s1" "chain (a0 + 8 + s1) bs e"
    by (simp_all add: b)
  have later: "a0 + 8 + s1 \<le> x" if "(x, y, z) \<in> set bs" for x y z
    using chain_mem[OF c(3) that] by simp
  show ?case
  proof (cases "a = a0")
    case True
    have "(a, sz, al) \<notin> set bs" "(a, sz', al') \<notin> set bs"
      using later[of a sz al] later[of a sz' al'] True by auto
    then show ?thesis using Cons.prems(2,3) by (simp add: b)
  next
    case False
    then have "(a, sz, al) \<in> set bs" "(a, sz', al') \<in> set bs"
      using Cons.prems(2,3) by (simp_all add: b c(1))
    from Cons.IH[OF c(3) this] show ?thesis .
  qed
qed

lemma blocks_apart:
  assumes "chain a0 bs e" "(a, sz, al) \<in> set bs" "(a', sz', al') \<in> set bs" "a \<noteq> a'"
  shows "a + 8 + sz \<le> a' \<or> a' + 8 + sz' \<le> a"
  using assms
proof (induction bs arbitrary: a0)
  case Nil
  then show ?case by simp
next
  case (Cons b bs)
  obtain a1 s1 l1 where b: "b = (a1, s1, l1)" by (cases b)
  from Cons.prems(1) have c: "a1 = a0" "24 \<le> s1" "chain (a0 + 8 + s1) bs e"
    by (simp_all add: b)
  have later: "a0 + 8 + s1 \<le> x" if "(x, y, z) \<in> set bs" for x y z
    using chain_mem[OF c(3) that] by simp
  consider "(a, sz, al) = b" "(a', sz', al') \<in> set bs"
    | "(a', sz', al') = b" "(a, sz, al) \<in> set bs"
    | "(a, sz, al) \<in> set bs" "(a', sz', al') \<in> set bs"
    using Cons.prems(2,3,4) by auto
  then show ?case
  proof cases
    case 1
    then show ?thesis using later[OF 1(2)] b c(1) by auto
  next
    case 2
    then show ?thesis using later[OF 2(2)] b c(1) by auto
  next
    case 3
    from Cons.IH[OF c(3) 3 Cons.prems(4)] show ?thesis .
  qed
qed

text \<open>Facts about a block of a represented heap.\<close>

lemma repr_bounds:
  assumes "repr st bs fl"
  shows "0 < unat (heap_lo st)" "unat (heap_lo st) mod 16 = 0"
    "unat (heap_lo st) + 8 \<le> unat (heap_brk st)" "unat (heap_brk st) < 2 ^ 64"
    "unat (heap_brk st) mod 16 = 8"
proof -
  from assms have c: "chain (unat (heap_lo st) + 8) bs (unat (heap_brk st))"
    and z: "0 < unat (heap_lo st)" and m: "unat (heap_lo st) mod 16 = 0"
    by (simp_all add: repr_def)
  show "0 < unat (heap_lo st)" "unat (heap_lo st) mod 16 = 0" by fact+
  show "unat (heap_lo st) + 8 \<le> unat (heap_brk st)" using chain_le[OF c] .
  show "unat (heap_brk st) < 2 ^ 64" using unsigned_less[of "heap_brk st", where 'a=nat] by simp
  have "(unat (heap_lo st) + 8) mod 16 = 8" using m by (simp add: mod_add_left_eq[symmetric])
  from chain_align[OF c this] show "unat (heap_brk st) mod 16 = 8" .
qed

lemma repr_block:
  assumes "repr st bs fl" "(a, sz, al) \<in> set bs"
  shows "unat (heap_lo st) + 8 \<le> a" "a + 8 + sz \<le> unat (heap_brk st)" "24 \<le> sz"
    "sz mod 16 = 8" "a mod 16 = 8" "8 dvd a" "8 dvd sz" "a + 8 + sz < 2 ^ 64" "16 dvd a + 8"
proof -
  from assms have c: "chain (unat (heap_lo st) + 8) bs (unat (heap_brk st))"
    by (simp add: repr_def)
  from chain_mem[OF c assms(2)]
  show 1: "unat (heap_lo st) + 8 \<le> a" "a + 8 + sz \<le> unat (heap_brk st)" "24 \<le> sz" "sz mod 16 = 8"
    by simp_all
  have "(unat (heap_lo st) + 8) mod 16 = 8"
    using repr_bounds(2)[OF assms(1)] by (simp add: mod_add_left_eq[symmetric])
  from chain_mem_align[OF c this assms(2)] show am: "a mod 16 = 8" .
  show "8 dvd a" using am by (rule mod16_dvd8)
  show "8 dvd sz" using 1(4) by (rule mod16_dvd8)
  show "a + 8 + sz < 2 ^ 64" using 1(2) repr_bounds(4)[OF assms(1)] by simp
  obtain k where "a = 16 * k + 8" using am by (metis mod_mult_div_eq add.commute)
  then have "a + 8 = 16 * (k + 1)" by simp
  then show "16 dvd a + 8" by (rule dvdI)
qed

lemma in_free_nodes:
  "(p \<in> set (free_nodes bs i)) = (\<exists>a sz. (a, sz, False) \<in> set bs \<and> p = a + 8 \<and> bin_of sz = i)"
  by (auto simp: free_nodes_def image_iff)

lemma repr_node:
  assumes "repr st bs fl" "i < 15" "p \<in> set (fl i)"
  obtains a sz where "(a, sz, False) \<in> set bs" "p = a + 8" "bin_of sz = i"
proof -
  from assms have "p \<in> set (free_nodes bs i)" by (simp add: repr_def)
  then show ?thesis using that unfolding in_free_nodes by blast
qed

lemma repr_node_is_node:
  assumes "repr st bs fl" "i < 15" "p \<in> set (fl i)"
  shows "node p"
proof -
  from repr_node[OF assms] obtain a sz where b: "(a, sz, False) \<in> set bs" "p = a + 8" by blast
  from repr_block[OF assms(1) b(1)] show ?thesis
    unfolding node_def b(2) by simp
qed

lemma repr_free_block:
  assumes "repr st bs fl" "(a, sz, False) \<in> set bs"
  shows "bin_of sz < 15" "a + 8 \<in> set (fl (bin_of sz))"
proof -
  from repr_block[OF assms] have "24 \<le> sz" "sz < 2 ^ 64" by simp_all
  from bin_of_valid[OF this] show i: "bin_of sz < 15" by simp
  have "a + 8 \<in> set (free_nodes bs (bin_of sz))"
    unfolding in_free_nodes using assms(2) by blast
  then show "a + 8 \<in> set (fl (bin_of sz))" using assms(1) i by (simp add: repr_def)
qed

lemma repr_nodes_ok:
  assumes "repr st bs fl"
  shows "nodes_ok fl"
  unfolding nodes_ok_def
proof (intro allI impI conjI ballI)
  fix i :: nat assume i: "i < 15"
  show "distinct (fl i)" using assms i by (simp add: repr_def)
  show "node p" if "p \<in> set (fl i)" for p using repr_node_is_node[OF assms i that] .
  fix j :: nat assume j: "j < 15" and ij: "i \<noteq> j"
  show "set (fl i) \<inter> set (fl j) = {}"
  proof (rule ccontr)
    assume "set (fl i) \<inter> set (fl j) \<noteq> {}"
    then obtain p where p: "p \<in> set (fl i)" "p \<in> set (fl j)" by auto
    from repr_node[OF assms i p(1)] obtain a sz where 1: "(a, sz, False) \<in> set bs" "p = a + 8" "bin_of sz = i" by blast
    from repr_node[OF assms j p(2)] obtain a' sz' where 2: "(a', sz', False) \<in> set bs" "p = a' + 8" "bin_of sz' = j" by blast
    have "a = a'" using 1(2) 2(2) by simp
    from assms have c: "chain (unat (heap_lo st) + 8) bs (unat (heap_brk st))"
      by (simp add: repr_def)
    from chain_addr_unique[OF c 1(1) 2(1)[folded \<open>a = a'\<close>]] 1(3) 2(3) ij show False by simp
  qed
qed

section \<open>Frames\<close>

lemma dlseg_cong:
  assumes "\<forall>p \<in> set ps. W m' p = W m p \<and> W m' (p + 8) = W m (p + 8)"
  shows "dlseg m' prv ps nxt = dlseg m prv ps nxt"
  using assms by (induction ps arbitrary: prv) simp_all

lemma lists_frame:
  assumes "lists_ok st fl" "segFreeList st' = segFreeList st"
    and "\<And>i p. i < 15 \<Longrightarrow> p \<in> set (fl i) \<Longrightarrow>
           W (mem st') p = W (mem st) p \<and> W (mem st') (p + 8) = W (mem st) (p + 8)"
  shows "lists_ok st' fl"
  unfolding lists_ok_def
proof (intro allI impI)
  fix i :: nat assume i: "i < 15"
  have "dlseg (mem st') 0 (fl i) 0 = dlseg (mem st) 0 (fl i) 0"
    by (rule dlseg_cong) (use assms(3)[OF i] in blast)
  then show "segFreeList st' i = of_nat (head_or (fl i) 0) \<and> dlseg (mem st') 0 (fl i) 0"
    using assms(1,2) i by (simp add: lists_ok_def)
qed

lemma modw_comp:
  assumes "modw st y f st1" "modw st1 y g st2" "8 dvd y" "y + 8 \<le> 2 ^ 64"
  shows "modw st y (\<lambda>w. g (f w)) st2"
  using assms unfolding modw_def by simp

lemma modw_val: "modw st y f st' \<Longrightarrow> 8 dvd y \<Longrightarrow> y + 8 \<le> 2 ^ 64 \<Longrightarrow> W (mem st') y = f (W (mem st) y)"
  by (simp add: modw_def)

lemma modw_other:
  "modw st y f st' \<Longrightarrow> 8 dvd x \<Longrightarrow> x + 8 \<le> 2 ^ 64 \<Longrightarrow> x \<noteq> y \<Longrightarrow> W (mem st') x = W (mem st) x"
  by (simp add: modw_def)

lemma modw_fields:
  assumes "modw st y f st'"
  shows "heap_lo st' = heap_lo st" "heap_brk st' = heap_brk st" "heap_max st' = heap_max st"
    "segFreeList st' = segFreeList st" "lastHeader st' = lastHeader st"
  using assms by (simp_all add: modw_def)

lemma modw_id: "modw st y (\<lambda>w. w) st"
  by (simp add: modw_def)

lemma modw_cong: "modw st y f st' \<Longrightarrow> f (W (mem st) y) = g (W (mem st) y) \<Longrightarrow> modw st y g st'"
  by (simp add: modw_def)

text \<open>Reading the tags of a block.\<close>

lemma decode:
  assumes "W (mem st) a = hdr sz al pa" "8 dvd sz"
  shows "getBlockSize st (of_nat a) = of_nat sz" "isFree st (of_nat a) = (\<not> al)"
    "isPrevFree st (of_nat a) = (\<not> pa)"
  using assms(1) of_nat_and7[OF assms(2)]
  by (simp_all add: getBlockSize_def isFree_def isPrevFree_def rd_W hdr_size hdr_free hdr_prev)

lemma tags_block:
  assumes "tags_ok m pa0 (pre @ (a, sz, al) # post)"
  shows "W m a = hdr sz al (last_alloc pa0 pre)" "al \<or> last_alloc pa0 pre"
    "al \<or> W m (a + sz) AND 0xFFFFFFFFFFFFFFF8 = of_nat sz"
    "tags_ok m pa0 pre" "tags_ok m al post"
  using assms unfolding tags_ok_append by simp_all

lemma last_alloc_snoc [simp]: "last_alloc pa (xs @ [(a, sz, al)]) = al"
  by (simp add: last_alloc_def)

lemma last_alloc_Nil [simp]: "last_alloc pa [] = pa"
  by (simp add: last_alloc_def)

lemma of_nat_unat64 [simp]: "(of_nat (unat w) :: 64 word) = w"
  by simp

section \<open>Extending the heap\<close>

lemma hdr_fresh: "((0 OR 1) AND 7) OR (of_nat n :: 64 word) = hdr n True False"
  by (simp add: hdr_def or.commute)

lemma unat_8_plus:
  assumes "n + 8 < 2 ^ 64"
  shows "unat (8 + of_nat n :: 64 word) = 8 + n"
proof -
  have "(8 + of_nat n :: 64 word) = of_nat (8 + n)" by simp
  then show ?thesis using assms by (simp only: unat_of_nat64) 
qed

lemma extend_fail:
  assumes "n + 8 < 2 ^ 64" "\<not> unat (heap_brk st) + (8 + n) \<le> unat (heap_max st)"
  shows "extendHeap st (of_nat n) = (0, st)"
  using assms(2) unfolding extendHeap_def mm_sbrk_def unat_8_plus[OF assms(1)] by simp

lemma free_nodes_append:
  "free_nodes (xs @ ys) i = free_nodes xs i @ free_nodes ys i"
  by (simp add: free_nodes_def)

lemma free_nodes_alloc [simp]: "free_nodes [(a, sz, True)] i = []"
  by (simp add: free_nodes_def)

lemma extend_ok:
  assumes R: "repr st bs fl" and n: "24 \<le> n" "n mod 16 = 8" "n + 8 < 2 ^ 64"
    and cap: "unat (heap_brk st) + (8 + n) \<le> unat (heap_max st)"
  shows "\<exists>st'. extendHeap st (of_nat n) = (heap_brk st, st') \<and>
           repr st' (bs @ [(unat (heap_brk st), n, True)]) fl \<and>
           heap_lo st' = heap_lo st \<and> heap_max st' = heap_max st"
proof -
  define b where "b = unat (heap_brk st)"
  define lo where "lo = unat (heap_lo st)"
  note rb = repr_bounds[OF R, folded b_def lo_def]
  have hb: "heap_brk st = of_nat b" by (simp add: b_def)
  have hlo: "heap_lo st = of_nat lo" by (simp add: lo_def)
  have mx: "unat (heap_max st) < 2 ^ 64" using unsigned_less[of "heap_max st", where 'a=nat] by simp
  have bb: "b + 8 + n < 2 ^ 64" using cap mx by (simp add: b_def)
  have b8: "8 dvd b" "b + 8 \<le> 2 ^ 64" using mod16_dvd8[OF rb(5)] bb by simp_all
  have c: "chain (lo + 8) bs b" and t: "tags_ok (mem st) True bs"
    and lh: "lastHeader st = of_nat (if bs = [] then lo else fst (last bs))"
    and L: "lists_ok st fl" and S: "\<forall>i<15. distinct (fl i) \<and> set (fl i) = set (free_nodes bs i)"
    using R by (simp_all add: repr_def b_def lo_def)
  have nm1: "heap_brk st \<noteq> - 1"
  proof
    assume "heap_brk st = - 1"
    then have "b = unat (- 1 :: 64 word)" by (simp add: b_def)
    also have "\<dots> = 18446744073709551615" by (simp add: unsigned_minus_1_eq_mask mask_eq_exp_minus_1)
    finally show False using rb(5) by simp
  qed
  define st1 where "st1 = st\<lparr>heap_brk := heap_brk st + (8 + of_nat n)\<rparr>"
  define st2 where "st2 = wr st1 (of_nat b) 0"
  define st3 where "st3 = setAlloc st2 (of_nat b)"
  define st4 where "st4 = setBlockSize st3 (of_nat b) (of_nat n)"
  define pa where "pa = last_alloc True bs"
  define st5 where "st5 = (if pa then setPrevAlloc st4 (of_nat b) else st4)"
  define st' where "st' = st5\<lparr>lastHeader := of_nat b\<rparr>"
  have m12: "modw st1 b (\<lambda>_. 0) st2" unfolding st2_def by (rule modw_wr[OF b8])
  have m23: "modw st2 b (\<lambda>w. w OR 1) st3" unfolding st3_def by (rule modw_setAlloc[OF b8])
  have m34: "modw st3 b (\<lambda>w. (w AND 7) OR of_nat n) st4" unfolding st4_def by (rule modw_setBlockSize[OF b8])
  have m14: "modw st1 b (\<lambda>_. hdr n True False) st4"
    using modw_comp[OF modw_comp[OF m12 m23 b8] m34 b8] by (simp only: hdr_fresh)
  have m45: "modw st4 b (\<lambda>w. if pa then w OR 2 else w) st5"
    unfolding st5_def using modw_setPrevAlloc[OF b8, of st4] modw_id[of st4 b] by (cases pa) simp_all
  have m15: "modw st1 b (\<lambda>_. hdr n True pa) st5"
    using modw_comp[OF m14 m45 b8] by (cases pa) (simp_all add: hdr_set_prev_alloc)
  have m1: "mem st1 = mem st" by (simp add: st1_def)
  have Wb: "W (mem st5) b = hdr n True pa" using modw_val[OF m15 b8] .
  have Wo: "W (mem st5) x = W (mem st) x" if "8 dvd x" "x + 8 \<le> 2 ^ 64" "x \<noteq> b" for x
    using modw_other[OF m15 that] by (simp add: m1)
  have W4: "W (mem st4) x = W (mem st) x" if "8 dvd x" "x + 8 \<le> 2 ^ 64" "x \<noteq> b" for x
    using modw_other[OF m14 that] by (simp add: m1)
  have f4: "lastHeader st4 = lastHeader st" "heap_lo st4 = heap_lo st"
    using modw_fields[OF m14] by (simp_all add: st1_def)
  have cond: "(if lastHeader st4 \<noteq> mm_heap_lo st4
          then (if \<not> isFree st4 (lastHeader st4) then setPrevAlloc st4 (of_nat b) else st4)
          else setPrevAlloc st4 (of_nat b)) = st5"
  proof (cases "bs = []")
    case True
    then show ?thesis by (simp add: f4 mm_heap_lo_def lh hlo st5_def pa_def)
  next
    case False
    then obtain xs al sl ll where bs: "bs = xs @ [(al, sl, ll)]"
      by (metis rev_exhaust prod_cases3)
    have mem: "(al, sl, ll) \<in> set bs" by (simp add: bs)
    note blk = repr_block[OF R mem, folded lo_def b_def]
    have ne: "(of_nat al :: 64 word) \<noteq> of_nat lo"
      using of_nat_inj64[of al lo] blk(1,8) by simp
    have "W (mem st) al = hdr sl ll (last_alloc True xs)"
      using tags_block(1)[OF t[unfolded bs]] .
    then have "W (mem st4) al = hdr sl ll (last_alloc True xs)"
      using W4[of al] blk by simp
    from decode(2)[OF this blk(7)] have "isFree st4 (of_nat al) = (\<not> ll)" .
    moreover have "pa = ll" by (simp add: pa_def bs)
    ultimately show ?thesis using ne by (simp add: f4 mm_heap_lo_def lh hlo st5_def bs)
  qed
  have "extendHeap st (of_nat n) = (heap_brk st,
      (if lastHeader st4 \<noteq> mm_heap_lo st4
          then (if \<not> isFree st4 (lastHeader st4) then setPrevAlloc st4 (of_nat b) else st4)
          else setPrevAlloc st4 (of_nat b))\<lparr>lastHeader := heap_brk st\<rparr>)"
    unfolding extendHeap_def mm_sbrk_def unat_8_plus[OF n(3)] st4_def st3_def st2_def st1_def b_def
    using cap nm1 by (simp add: Let_def)
  then have run: "extendHeap st (of_nat n) = (heap_brk st, st')"
    unfolding cond st'_def hb .
  have f5: "heap_lo st5 = heap_lo st" "heap_brk st5 = heap_brk st + (8 + of_nat n)"
    "heap_max st5 = heap_max st" "segFreeList st5 = segFreeList st"
    using modw_fields[OF m15] by (simp_all add: st1_def)
  have nb: "unat (heap_brk st + (8 + of_nat n)) = b + 8 + n"
  proof -
    have "heap_brk st + (8 + of_nat n) = of_nat (b + 8 + n)" by (simp add: hb)
    then show ?thesis using bb by (simp only: unat_of_nat64)
  qed
  have ch: "chain (lo + 8) (bs @ [(b, n, True)]) (b + 8 + n)"
    unfolding chain_append using c n by auto
  have tg: "tags_ok (mem st5) True bs"
  proof -
    have "tags_ok (mem st5) True bs = tags_ok (mem st) True bs"
    proof (rule tags_ok_frame[OF c])
      show "8 dvd lo + 8" using rb(2) by (simp add: mod_eq_0_iff_dvd dvd_trans[of 8 16])
      show "b \<le> 2 ^ 64" using bb by simp
      show "W (mem st5) x = W (mem st) x" if "8 dvd x" "x + 8 \<le> 2 ^ 64" "x < b" for x
        using Wo[OF that(1,2)] that(3) by simp
    qed
    then show ?thesis using t by simp
  qed
  have tg': "tags_ok (mem st5) True (bs @ [(b, n, True)])"
    unfolding tags_ok_append using tg Wb by (simp add: pa_def)
  have ls: "lists_ok st5 fl"
  proof (rule lists_frame[OF L f5(4)])
    fix i p assume i: "i < 15" and p: "p \<in> set (fl i)"
    from repr_node[OF R i p] obtain a sz where blk: "(a, sz, False) \<in> set bs" "p = a + 8" by blast
    note f = repr_block[OF R blk(1), folded b_def]
    show "W (mem st5) p = W (mem st) p \<and> W (mem st5) (p + 8) = W (mem st) (p + 8)"
      using Wo[of p] Wo[of "p + 8"] f unfolding blk(2) by simp
  qed
  have "repr st' (bs @ [(b, n, True)]) fl"
    unfolding repr_def
    using rb(1,2) ch tg' ls S
    by (simp add: st'_def f5 nb lo_def[symmetric] lists_ok_def free_nodes_append)
  then show ?thesis using run by (auto simp: b_def st'_def f5)
qed

section \<open>Replacing a run of blocks\<close>

lemma interior_append: "interior (xs @ ys) x = (interior xs x \<or> interior ys x)"
  by (auto simp: interior_def)

lemma last_alloc_append: "last_alloc pa (xs @ ys) = last_alloc (last_alloc pa xs) ys"
  by (simp add: last_alloc_def)

lemma repr_rebuild:
  assumes R: "repr st (pre @ mid @ post) fl"
    and cp: "chain (unat (heap_lo st) + 8) pre s"
    and cm: "chain s mid e"
    and cm': "chain s mid' e"
    and nx: "\<And>a2 s2 l2 post'. post = (a2, s2, l2) # post' \<Longrightarrow>
               W (mem st') a2 = hdr s2 l2 (last_alloc (last_alloc True pre) mid') \<and>
               (l2 \<or> last_alloc (last_alloc True pre) mid')"
    and t1: "tags_ok (mem st') (last_alloc True pre) mid'"
    and fr: "\<And>x. 8 dvd x \<Longrightarrow> x + 8 \<le> 2 ^ 64 \<Longrightarrow> \<not> (s \<le> x \<and> x \<le> e) \<Longrightarrow>
               \<not> interior (pre @ post) x \<Longrightarrow> W (mem st') x = W (mem st) x"
    and fields: "heap_lo st' = heap_lo st" "heap_brk st' = heap_brk st"
    and lh: "lastHeader st' = of_nat (if pre @ mid' @ post = [] then unat (heap_lo st)
                                        else fst (last (pre @ mid' @ post)))"
    and L: "lists_ok st' fl'"
    and S: "\<forall>i<15. distinct (fl' i) \<and> set (fl' i) = set (free_nodes (pre @ mid' @ post) i)"
  shows "repr st' (pre @ mid' @ post) fl'"
proof -
  define lo where "lo = unat (heap_lo st)"
  define b where "b = unat (heap_brk st)"
  note rb = repr_bounds[OF R, folded lo_def b_def]
  from R have c: "chain (lo + 8) (pre @ mid @ post) b"
    and t: "tags_ok (mem st) True (pre @ mid @ post)"
    by (simp_all add: repr_def lo_def b_def)
  from c obtain s' e' where c1: "chain (lo + 8) pre s'" "chain s' mid e'" "chain e' post b"
    unfolding chain_append by blast
  have s': "s' = s" using chain_unique_end[OF c1(1) cp[folded lo_def]] .
  have e': "e' = e" using chain_unique_end[OF c1(2)[unfolded s'] cm] .
  note c1 = c1[unfolded s' e']
  have se: "s \<le> e" "lo + 8 \<le> s" "e \<le> b" using chain_le[OF cm] chain_le[OF c1(1)] chain_le[OF c1(3)] by simp_all
  have lo8: "8 dvd lo + 8" using rb(2) by (simp add: mod_eq_0_iff_dvd dvd_trans[of 8 16])
  have sm: "s mod 16 = 8"
    using chain_align[OF c1(1)] rb(2) by (simp add: mod_add_left_eq[symmetric])
  have em: "e mod 16 = 8" using chain_align[OF cm sm] .
  from t have t0: "tags_ok (mem st) True pre" 
    and t2: "tags_ok (mem st) (last_alloc (last_alloc True pre) mid) post"
    unfolding tags_ok_append by simp_all
  have tp: "tags_ok (mem st') True pre"
  proof -
    have "tags_ok (mem st') True pre = tags_ok (mem st) True pre"
    proof (rule tags_ok_frame[OF c1(1) lo8])
      show "s \<le> 2 ^ 64" using se rb(4) by simp
      fix x assume x: "8 dvd x" "x + 8 \<le> 2 ^ 64" "lo + 8 \<le> x" "x < s" "\<not> interior pre x"
      have "\<not> interior post x" using interior_bounds[OF c1(3), of x] x(4) se by auto
      then show "W (mem st') x = W (mem st) x"
        using x by (intro fr) (auto simp: interior_append)
    qed
    then show ?thesis using t0 by simp
  qed
  have tpost: "tags_ok (mem st') (last_alloc (last_alloc True pre) mid') post"
  proof (cases post)
    case Nil
    then show ?thesis by simp
  next
    case (Cons b2 post')
    obtain a2 s2 l2 where b2: "b2 = (a2, s2, l2)" by (cases b2)
    note po = Cons[unfolded b2]
    from c1(3) have c2: "a2 = e" "24 \<le> s2" "s2 mod 16 = 8" "chain (e + 8 + s2) post' b"
      unfolding po by simp_all
    from t2 have f2: "l2 \<or> W (mem st) (e + s2) AND 0xFFFFFFFFFFFFFFF8 = of_nat s2"
      and t3: "tags_ok (mem st) l2 post'"
      unfolding po c2(1) by simp_all
    have e8: "8 dvd e" using em by (rule mod16_dvd8)
    have s8: "8 dvd s2" using c2(3) by (rule mod16_dvd8)
    have le2: "e + 8 + s2 \<le> b" using chain_le[OF c2(4)] .
    have ni: "\<not> interior pre x" if "e \<le> x" for x
      using interior_bounds[OF c1(1), of x] that se by auto
    have nj: "\<not> interior post' x" if "x < e + 8 + s2" for x
      using interior_bounds[OF c2(4), of x] that by auto
    have ft: "W (mem st') (e + s2) = W (mem st) (e + s2)" if "\<not> l2"
      using e8 s8 le2 rb(4) c2(2) ni[of "e + s2"] nj[of "e + s2"] that
      by (intro fr) (auto simp: interior_append po c2(1) interior_Cons)
    have tr: "tags_ok (mem st') l2 post' = tags_ok (mem st) l2 post'"
    proof (rule tags_ok_frame[OF c2(4)])
      show "8 dvd e + 8 + s2" using e8 s8 by simp
      show "b \<le> 2 ^ 64" using rb(4) by simp
      fix x assume x: "8 dvd x" "x + 8 \<le> 2 ^ 64" "e + 8 + s2 \<le> x" "x < b" "\<not> interior post' x"
      show "W (mem st') x = W (mem st) x"
        using x ni[of x] c2(2) by (intro fr) (auto simp: interior_append po c2(1) interior_Cons)
    qed
    show ?thesis
      unfolding po c2(1) using nx[OF po] f2 ft t3 tr c2(1) by (cases l2) simp_all
  qed
  have tags: "tags_ok (mem st') True (pre @ mid' @ post)"
    unfolding tags_ok_append using tp t1 tpost by simp
  have ch: "chain (lo + 8) (pre @ mid' @ post) b"
    unfolding chain_append using c1 cm' by blast
  show ?thesis
    unfolding repr_def fields
    using rb(1,2) ch tags lh L S by (simp add: lo_def b_def)
qed

section \<open>Where the link words lie\<close>

lemma free_nodes_bounds:
  assumes "chain c ys d" "q \<in> set (free_nodes ys i)"
  shows "c + 8 \<le> q" "q + 16 \<le> d" "interior ys q" "interior ys (q + 8)"
proof -
  from assms(2) obtain a sz where b: "(a, sz, False) \<in> set ys" "q = a + 8"
    unfolding in_free_nodes by blast
  note m = chain_mem[OF assms(1) b(1)]
  show "c + 8 \<le> q" "q + 16 \<le> d" using m b(2) by simp_all
  have "a < q \<and> q < a + sz" "a < q + 8 \<and> q + 8 < a + sz" using m b(2) by simp_all
  then show "interior ys q" "interior ys (q + 8)"
    unfolding interior_def using b(1) by blast+
qed

lemma lists_modw:
  assumes "lists_ok st fl" "modw st y f st'"
    and "\<And>i p. i < 15 \<Longrightarrow> p \<in> set (fl i) \<Longrightarrow> node p \<and> y \<noteq> p \<and> y \<noteq> p + 8"
  shows "lists_ok st' fl"
proof (rule lists_frame[OF assms(1) modw_fields(4)[OF assms(2)]])
  fix i p assume i: "i < 15" and p: "p \<in> set (fl i)"
  from assms(3)[OF i p] have n: "node p" and y: "y \<noteq> p" "y \<noteq> p + 8" by simp_all
  show "W (mem st') p = W (mem st) p \<and> W (mem st') (p + 8) = W (mem st) (p + 8)"
    using modw_other[OF assms(2) node_facts(1,3)[OF n]] modw_other[OF assms(2) node_facts(2,4)[OF n]] y
    by simp
qed

text \<open>An address inside a block, other than its two link words, is no link word of any
  block of the chain.\<close>

lemma not_link:
  assumes c: "chain c0 bs e" and b: "(a, sz, al) \<in> set bs"
    and y: "a \<le> y" "y < a + 8 + sz" "y \<noteq> a + 8" "y \<noteq> a + 16"
    and b': "(a', sz', al') \<in> set bs"
  shows "y \<noteq> a' + 8 \<and> y \<noteq> a' + 16"
proof (cases "a = a'")
  case True
  then show ?thesis using y by simp
next
  case False
  from blocks_apart[OF c b b' False] chain_mem[OF c b'] y show ?thesis by auto
qed

lemma repr_lists_tagwrite:
  assumes R: "repr st bs fl" and L: "lists_ok st0 fl" and m: "modw st0 y f st'"
    and b: "(a, sz, al) \<in> set bs" and y: "a \<le> y" "y < a + 8 + sz" "y \<noteq> a + 8" "y \<noteq> a + 16"
  shows "lists_ok st' fl"
proof (rule lists_modw[OF L m])
  fix i p assume i: "i < 15" and p: "p \<in> set (fl i)"
  from repr_node[OF R i p] obtain a' sz' where b': "(a', sz', False) \<in> set bs" "p = a' + 8" by blast
  from R have c: "chain (unat (heap_lo st) + 8) bs (unat (heap_brk st))" by (simp add: repr_def)
  from not_link[OF c b y b'(1)] repr_node_is_node[OF R i p]
  show "node p \<and> y \<noteq> p \<and> y \<noteq> p + 8" unfolding b'(2) by simp
qed

lemma frame_W:
  "frame st st' S \<Longrightarrow> 8 dvd x \<Longrightarrow> x + 8 \<le> 2 ^ 64 \<Longrightarrow> x \<notin> S \<Longrightarrow> W (mem st') x = W (mem st) x"
  by (simp add: frame_def)

lemma frame_fields:
  assumes "frame st st' S"
  shows "heap_lo st' = heap_lo st" "heap_brk st' = heap_brk st" "heap_max st' = heap_max st"
  using assms by (simp_all add: frame_def)

lemma modw_frame: "modw st y f st' \<Longrightarrow> frame st st' {y}"
  by (simp add: modw_def frame_def)

section \<open>A block and its neighbours\<close>

lemma repr_mid:
  assumes R: "repr st (pre @ (a, sz, al) # post) fl"
  shows "chain (unat (heap_lo st) + 8) pre a" "chain (a + 8 + sz) post (unat (heap_brk st))"
    "W (mem st) a = hdr sz al (last_alloc True pre)"
    "al \<or> last_alloc True pre"
    "al \<or> W (mem st) (a + sz) AND 0xFFFFFFFFFFFFFFF8 = of_nat sz"
    "tags_ok (mem st) True pre" "tags_ok (mem st) al post"
proof -
  from R have c: "chain (unat (heap_lo st) + 8) (pre @ (a, sz, al) # post) (unat (heap_brk st))"
    and t: "tags_ok (mem st) True (pre @ (a, sz, al) # post)"
    by (simp_all add: repr_def)
  from c obtain s where s: "chain (unat (heap_lo st) + 8) pre s" "chain s ((a, sz, al) # post) (unat (heap_brk st))"
    unfolding chain_append by blast
  from s(2) have "a = s" by simp
  with s show "chain (unat (heap_lo st) + 8) pre a" "chain (a + 8 + sz) post (unat (heap_brk st))"
    by simp_all
  from tags_block[OF t]
  show "W (mem st) a = hdr sz al (last_alloc True pre)"
    "al \<or> last_alloc True pre"
    "al \<or> W (mem st) (a + sz) AND 0xFFFFFFFFFFFFFFF8 = of_nat sz"
    "tags_ok (mem st) True pre" "tags_ok (mem st) al post" .
qed

lemma last_header_eq:
  assumes R: "repr st (pre @ (a, sz, al) # post) fl"
  shows "(lastHeader st = of_nat a) = (post = [])"
proof (cases "post = []")
  case True
  then show ?thesis using R by (simp add: repr_def)
next
  case False
  define b where "b = last post"
  obtain a' s' l' where b: "last post = (a', s', l')" by (cases "last post")
  have m: "(a', s', l') \<in> set post" using False b by (metis last_in_set)
  from chain_mem[OF repr_mid(2)[OF R] m] have gt: "a < a'" by simp
  have "(a', s', l') \<in> set (pre @ (a, sz, al) # post)" using m by simp
  from repr_block(8)[OF R this] have lt: "a' < 2 ^ 64" by simp
  have "lastHeader st = of_nat a'" using R False b by (simp add: repr_def)
  moreover have "(of_nat a' :: 64 word) \<noteq> of_nat a"
    using of_nat_inj64[of a' a] lt gt by simp
  ultimately show ?thesis using False by simp
qed

lemma free_nodes_Cons:
  "free_nodes ((a, sz, al) # bs) i =
     (if \<not> al \<and> bin_of sz = i then [a + 8] else []) @ free_nodes bs i"
  by (simp add: free_nodes_def)

lemma free_nodes_Nil [simp]: "free_nodes [] i = []"
  by (simp add: free_nodes_def)

lemma word_sub_ge32:
  assumes "n \<le> sz" "sz < 2 ^ 64"
  shows "((of_nat sz :: 64 word) - of_nat n \<ge> 32) = (32 \<le> sz - n)"
proof -
  have "(of_nat sz :: 64 word) - of_nat n = of_nat (sz - n)" using assms(1) by simp
  moreover have "unat (of_nat (sz - n) :: 64 word) = sz - n"
    using assms(2) by (intro unat_of_nat64) simp
  ultimately show ?thesis by (simp add: word_le_nat_alt)
qed

section \<open>Placing a request in a block that is not split\<close>

lemma node_not_in_segment:
  assumes "chain c ys d" "q \<in> set (free_nodes ys i)"
  shows "\<not> (q + 16 > d)" "\<not> (q < c + 8)"
  using free_nodes_bounds(1,2)[OF assms] by simp_all

lemma interiorI:
  assumes "(a, sz, al) \<in> set bs" "a < x" "x < a + sz"
  shows "interior bs x"
  unfolding interior_def by (rule bexI[OF _ assms(1)]) (use assms(2,3) in simp)

lemma place_nosplit:
  assumes R: "repr st (pre @ (a, sz, False) # post) fl"
    and n: "n \<le> sz" "sz - n < 32"
  shows "\<exists>st'. place st (of_nat n) (int (bin_of sz)) (of_nat (a + 8)) (of_nat a) (of_nat sz)
                 = Inr (of_nat (a + 8), st') \<and>
           repr st' (pre @ (a, sz, True) # post) (fl(bin_of sz := remove1 (a + 8) (fl (bin_of sz)))) \<and>
           heap_lo st' = heap_lo st \<and> heap_brk st' = heap_brk st \<and> heap_max st' = heap_max st"
proof -
  define bs where "bs = pre @ (a, sz, False) # post"
  define lo where "lo = unat (heap_lo st)"
  define b where "b = unat (heap_brk st)"
  define idx where "idx = bin_of sz"
  define p where "p = a + 8"
  define pa0 where "pa0 = last_alloc True pre"
  note R' = R[folded bs_def]
  have mem: "(a, sz, False) \<in> set bs" by (simp add: bs_def)
  note blk = repr_block[OF R' mem, folded lo_def b_def]
  note mid = repr_mid[OF R, folded lo_def b_def pa0_def]
  note rb = repr_bounds[OF R, folded lo_def b_def]
  have c: "chain (lo + 8) bs b" using R' by (simp add: repr_def lo_def b_def)
  have L: "lists_ok st fl" and S: "\<forall>i<15. distinct (fl i) \<and> set (fl i) = set (free_nodes bs i)"
    using R' by (simp_all add: repr_def)
  have idx: "idx < 15" and pin: "p \<in> set (fl idx)"
    using repr_free_block[OF R' mem] by (simp_all add: idx_def p_def)
  have N: "nodes_ok fl" using repr_nodes_ok[OF R] .
  have a8: "8 dvd a" "a + 8 \<le> 2 ^ 64" using blk by simp_all
  \<comment> \<open>the header of the right neighbour\<close>
  define a2 where "a2 = a + 8 + sz"
  define st8 where "st8 = (if post = [] then st else setPrevAlloc st (of_nat a2))"
  define st9 where "st9 = setAlloc st8 (of_nat a)"
  have nosplit: "\<not> (of_nat sz :: 64 word) - of_nat n \<ge> 32"
    using word_sub_ge32[OF n(1), of ] blk(8) n(2) by simp
  have nh: "getNextHeader (of_nat a) (of_nat sz) = of_nat a2"
    unfolding a2_def using blk by (intro nav_next) simp_all
  have lhe: "(of_nat a \<noteq> lastHeader st) = (post \<noteq> [])"
    using last_header_eq[OF R] by auto
  have run1: "place st (of_nat n) (int idx) (of_nat p) (of_nat a) (of_nat sz) =
      (case removeFreeBlock st9 (of_nat p) (int idx) of Inl e \<Rightarrow> Inl e | Inr st10 \<Rightarrow> Inr (of_nat p, st10))"
    unfolding place_def using nosplit lhe by (simp add: nh st9_def st8_def)
  \<comment> \<open>the two tag writes\<close>
  have a2f: "8 dvd a2" "a2 + 8 \<le> 2 ^ 64" if "post \<noteq> []"
  proof -
    from that obtain b2 post' where po: "post = b2 # post'" by (cases post) auto
    obtain x2 s2 l2 where b2: "b2 = (x2, s2, l2)" by (cases b2)
    from mid(2) have "x2 = a2" unfolding po b2 a2_def by simp
    then have "(a2, s2, l2) \<in> set bs" by (simp add: bs_def po b2)
    from repr_block[OF R' this] show "8 dvd a2" "a2 + 8 \<le> 2 ^ 64" by simp_all
  qed
  have m8: "modw st a2 (\<lambda>w. if post = [] then w else w OR 2) st8"
  proof (cases "post = []")
    case True
    then show ?thesis by (simp add: st8_def modw_id)
  next
    case False
    then show ?thesis using modw_setPrevAlloc[OF a2f[OF False], of st] by (simp add: st8_def)
  qed
  have m9: "modw st8 a (\<lambda>w. w OR 1) st9" unfolding st9_def by (rule modw_setAlloc[OF a8])
  have L8: "lists_ok st8 fl"
  proof (cases "post = []")
    case True
    then show ?thesis using L by (simp add: st8_def)
  next
    case False
    then obtain b2 post' where po: "post = b2 # post'" by (cases post) auto
    obtain x2 s2 l2 where b2: "b2 = (x2, s2, l2)" by (cases b2)
    from mid(2) have x2: "x2 = a2" and s2: "24 \<le> s2" unfolding po b2 a2_def by simp_all
    have m2: "(a2, s2, l2) \<in> set bs" by (simp add: bs_def po b2 x2)
    show ?thesis
      by (rule repr_lists_tagwrite[OF R' L m8 m2]) (use s2 in simp_all)
  qed
  have L9: "lists_ok st9 fl"
    by (rule repr_lists_tagwrite[OF R' L8 m9 mem]) (use blk in simp_all)
  from remove_ok[OF L9 N idx pin] obtain st10 where
    run2: "removeFreeBlock st9 (of_nat p) (int idx) = Inr st10"
    and L10: "lists_ok st10 (fl(idx := remove1 p (fl idx)))"
    and F10: "frame st9 st10 (links (set (fl idx) - {p}))"
    and lh10: "lastHeader st10 = lastHeader st9" by blast
  have run: "place st (of_nat n) (int idx) (of_nat p) (of_nat a) (of_nat sz) = Inr (of_nat p, st10)"
    unfolding run1 run2 by simp
  \<comment> \<open>what the list operation may have changed\<close>
  have chg: "W (mem st10) x = W (mem st9) x"
    if x: "8 dvd x" "x + 8 \<le> 2 ^ 64" and nl: "\<And>a' s'. (a', s', False) \<in> set bs \<Longrightarrow> a' \<noteq> a \<Longrightarrow> x \<noteq> a' + 8 \<and> x \<noteq> a' + 16" for x
  proof (rule frame_W[OF F10 x])
    show "x \<notin> links (set (fl idx) - {p})"
    proof
      assume "x \<in> links (set (fl idx) - {p})"
      then obtain q where q: "q \<in> set (fl idx)" "q \<noteq> p" "x = q \<or> x = q + 8"
        unfolding in_links by auto
      from repr_node[OF R' idx q(1)] obtain a' s' where b': "(a', s', False) \<in> set bs" "q = a' + 8" by blast
      have "a' \<noteq> a" using q(2) b'(2) by (auto simp: p_def)
      from nl[OF b'(1) this] q(3) b'(2) show False by auto
    qed
  qed
  have fields: "heap_lo st10 = heap_lo st" "heap_brk st10 = heap_brk st" "heap_max st10 = heap_max st"
    "lastHeader st10 = lastHeader st"
    using frame_fields[OF F10] modw_fields[OF m9] modw_fields[OF m8] lh10 by simp_all
  \<comment> \<open>tags of other blocks are outside the link words of free blocks\<close>
  have other_blk: "x \<noteq> a' + 8 \<and> x \<noteq> a' + 16"
    if "(a', s', False) \<in> set bs" "a' \<noteq> a" "a \<le> x" "x < a + 8 + sz" for a' s' x
    using blocks_apart[OF c mem that(1)] that(2,3,4) chain_mem[OF c that(1)] by auto
  have Wa: "W (mem st10) a = hdr sz True pa0"
  proof -
    have "W (mem st10) a = W (mem st9) a"
      using a8 blk other_blk[of _ _ a] by (intro chg) auto
    also have "\<dots> = W (mem st8) a OR 1" using modw_val[OF m9 a8] .
    also have "W (mem st8) a = W (mem st) a"
      using modw_other[OF m8 a8] by (simp add: a2_def)
    finally show ?thesis by (simp add: mid(3) hdr_set_alloc)
  qed
  have repr': "repr st10 (pre @ [(a, sz, True)] @ post) (fl(idx := remove1 p (fl idx)))"
  proof (rule repr_rebuild[where mid="[(a, sz, False)]" and s=a and e=a2])
    show "repr st (pre @ [(a, sz, False)] @ post) fl" using R by simp
    show "chain (unat (heap_lo st) + 8) pre a" using mid(1) by (simp add: lo_def)
    show "chain a [(a, sz, False)] a2" "chain a [(a, sz, True)] a2"
      using blk by (simp_all add: a2_def)
    show "tags_ok (mem st10) (last_alloc True pre) [(a, sz, True)]"
      using Wa by (simp add: pa0_def)
    show "heap_lo st10 = heap_lo st" "heap_brk st10 = heap_brk st" by fact+
    show "lists_ok st10 (fl(idx := remove1 p (fl idx)))" by fact
    show "lastHeader st10 = of_nat (if pre @ [(a, sz, True)] @ post = [] then unat (heap_lo st)
            else fst (last (pre @ [(a, sz, True)] @ post)))"
      using R by (simp add: fields repr_def)
  next
    fix x2 s2 l2 post' assume po: "post = (x2, s2, l2) # post'"
    from mid(2) have x2: "x2 = a2" and s2: "24 \<le> s2" unfolding po a2_def by simp_all
    have m2: "(a2, s2, l2) \<in> set bs" by (simp add: bs_def po x2)
    note blk2 = repr_block[OF R' m2]
    have ne: "post \<noteq> []" using po by simp
    have old: "W (mem st) a2 = hdr s2 l2 False"
      using repr_mid(3)[of st "pre @ [(a, sz, False)]" a2 s2 l2 post' fl] R by (simp add: po x2)
    have "W (mem st10) a2 = W (mem st9) a2"
    proof (rule chg)
      show "8 dvd a2" "a2 + 8 \<le> 2 ^ 64" using blk2 by simp_all
      fix a' s' assume b': "(a', s', False) \<in> set bs" "a' \<noteq> a"
      show "a2 \<noteq> a' + 8 \<and> a2 \<noteq> a' + 16"
        using not_link[OF c m2 _ _ _ _ b'(1), of a2] s2 by simp
    qed
    also have "\<dots> = W (mem st8) a2" using modw_other[OF m9, of a2] blk2 by (simp add: a2_def)
    also have "\<dots> = W (mem st) a2 OR 2" using modw_val[OF m8 a2f[OF ne]] ne by simp
    finally have "W (mem st10) a2 = hdr s2 l2 True" by (simp add: old hdr_set_prev_alloc)
    then show "W (mem st10) x2 = hdr s2 l2 (last_alloc (last_alloc True pre) [(a, sz, True)]) \<and>
          (l2 \<or> last_alloc (last_alloc True pre) [(a, sz, True)])"
      by (simp add: x2 last_alloc_def)
  next
    fix x assume x: "8 dvd x" "x + 8 \<le> 2 ^ 64" "\<not> (a \<le> x \<and> x \<le> a2)" "\<not> interior (pre @ post) x"
    have "W (mem st10) x = W (mem st9) x"
    proof (rule chg[OF x(1,2)])
      fix a' s' assume b': "(a', s', False) \<in> set bs" "a' \<noteq> a"
      then have "(a', s', False) \<in> set (pre @ post)" by (auto simp: bs_def)
      moreover have "24 \<le> s'" using chain_mem[OF c b'(1)] by simp
      ultimately have "interior (pre @ post) (a' + 8)" "interior (pre @ post) (a' + 16)"
        by (auto intro: interiorI)
      then show "x \<noteq> a' + 8 \<and> x \<noteq> a' + 16" using x(4) by auto
    qed
    also have "\<dots> = W (mem st8) x" using modw_other[OF m9 x(1,2)] x(3) by (auto simp: a2_def)
    also have "\<dots> = W (mem st) x" using modw_other[OF m8 x(1,2)] x(3) by (auto simp: a2_def)
    finally show "W (mem st10) x = W (mem st) x" .
  next
    show "\<forall>i<15. distinct ((fl(idx := remove1 p (fl idx))) i) \<and>
            set ((fl(idx := remove1 p (fl idx))) i) = set (free_nodes (pre @ [(a, sz, True)] @ post) i)"
    proof (intro allI impI)
      fix i :: nat assume i: "i < 15"
      have d: "distinct (fl i)" and s: "set (fl i) = set (free_nodes bs i)" using S i by simp_all
      have np: "p \<notin> set (free_nodes pre i)" using node_not_in_segment(1)[OF mid(1), of p i] by (auto simp: p_def)
      have nq: "p \<notin> set (free_nodes post i)" using node_not_in_segment(2)[OF mid(2), of p i] by (auto simp: p_def)
      show "distinct ((fl(idx := remove1 p (fl idx))) i) \<and>
            set ((fl(idx := remove1 p (fl idx))) i) = set (free_nodes (pre @ [(a, sz, True)] @ post) i)"
      proof (cases "i = idx")
        case True
        then show ?thesis using d s np nq
          by (auto simp: bs_def free_nodes_append free_nodes_Cons idx_def p_def)
      next
        case False
        then show ?thesis using d s
          by (auto simp: bs_def free_nodes_append free_nodes_Cons idx_def)
      qed
    qed
  qed
  show ?thesis
    using run repr' fields by (auto simp: idx_def p_def)
qed

section \<open>Auxiliary facts for splitting\<close>

lemma lists_ok_lastHeader [simp]: "lists_ok (st\<lparr>lastHeader := h\<rparr>) fl = lists_ok st fl"
  by (simp add: lists_ok_def)

lemma nodes_ok_add:
  assumes N: "nodes_ok fl" and k: "k < 15" and p: "node p" and fresh: "\<forall>j<15. p \<notin> set (fl j)"
  shows "nodes_ok (fl(k := p # fl k))"
  unfolding nodes_ok_def
proof (intro allI impI conjI ballI)
  fix i :: nat assume i: "i < 15"
  show "distinct ((fl(k := p # fl k)) i)" using N i fresh by (simp add: nodes_ok_def)
  show "node q" if "q \<in> set ((fl(k := p # fl k)) i)" for q
    using that N i p by (auto simp: nodes_ok_def split: if_splits)
  fix j :: nat assume j: "j < 15" "i \<noteq> j"
  show "set ((fl(k := p # fl k)) i) \<inter> set ((fl(k := p # fl k)) j) = {}"
    using N i j fresh by (auto simp: nodes_ok_def)
qed

lemma mod16_sub:
  fixes sz n :: nat
  assumes "sz mod 16 = 8" "n mod 16 = 8" "n + 32 \<le> sz"
  shows "(sz - n - 8) mod 16 = 8" "24 \<le> sz - n - 8"
proof -
  obtain i where i: "sz = 16 * i + 8" using assms(1) by (metis mod_mult_div_eq add.commute)
  obtain j where j: "n = 16 * j + 8" using assms(2) by (metis mod_mult_div_eq add.commute)
  have ji: "j + 2 \<le> i" using assms(3) unfolding i j by simp
  define k where "k = i - j - 1"
  have "sz - n - 8 = 16 * k + 8" unfolding i j k_def using ji by simp
  then show "(sz - n - 8) mod 16 = 8" by simp
  show "24 \<le> sz - n - 8" using assms(3) by simp
qed

section \<open>Placing a request in a block that is split\<close>

lemma hdr_split: "((0 AND 7) OR (of_nat n :: 64 word)) OR 2 = hdr n False True"
  by (simp add: hdr_def)

lemma size_mask:
  assumes "8 dvd sz"
  shows "(of_nat sz :: 64 word) AND 0xFFFFFFFFFFFFFFF8 = of_nat sz"
  using hdr_size[OF of_nat_and7[OF assms], of False False] by (simp only: hdr_plain)

lemma place_split:
  assumes R: "repr st (pre @ (a, sz, False) # post) fl"
    and n: "24 \<le> n" "n mod 16 = 8" "n + 32 \<le> sz"
  shows "\<exists>st'. place st (of_nat n) (int (bin_of sz)) (of_nat (a + 8)) (of_nat a) (of_nat sz)
                 = Inr (of_nat (a + 8), st') \<and>
           repr st' (pre @ [(a, n, True), (a + 8 + n, sz - n - 8, False)] @ post)
             ((fl(bin_of (sz - n - 8) := (a + 8 + n + 8) # fl (bin_of (sz - n - 8))))
                (bin_of sz := remove1 (a + 8)
                   ((fl(bin_of (sz - n - 8) := (a + 8 + n + 8) # fl (bin_of (sz - n - 8)))) (bin_of sz)))) \<and>
           heap_lo st' = heap_lo st \<and> heap_brk st' = heap_brk st \<and> heap_max st' = heap_max st"
proof -
  define bs where "bs = pre @ (a, sz, False) # post"
  define lo where "lo = unat (heap_lo st)"
  define b where "b = unat (heap_brk st)"
  define idx where "idx = bin_of sz"
  define p where "p = a + 8"
  define pa0 where "pa0 = last_alloc True pre"
  define sp where "sp = sz - n - 8"
  define h2 where "h2 = a + 8 + n"
  define f where "f = a + sz"
  define a2 where "a2 = a + 8 + sz"
  define k where "k = bin_of sp"
  define q where "q = h2 + 8"
  note R' = R[folded bs_def]
  have mem: "(a, sz, False) \<in> set bs" by (simp add: bs_def)
  note blk = repr_block[OF R' mem, folded lo_def b_def]
  note mid = repr_mid[OF R, folded lo_def b_def pa0_def]
  note rb = repr_bounds[OF R, folded lo_def b_def]
  have c: "chain (lo + 8) bs b" using R' by (simp add: repr_def lo_def b_def)
  have L: "lists_ok st fl" and S: "\<forall>i<15. distinct (fl i) \<and> set (fl i) = set (free_nodes bs i)"
    using R' by (simp_all add: repr_def)
  have idx: "idx < 15" and pin: "p \<in> set (fl idx)"
    using repr_free_block[OF R' mem] by (simp_all add: idx_def p_def)
  have N: "nodes_ok fl" using repr_nodes_ok[OF R] .
  note spv = mod16_sub[OF blk(4) n(2,3), folded sp_def]
  have sp_eq: "h2 + sp = f" "h2 + 8 + sp = a2" using n(3) by (simp_all add: h2_def sp_def f_def a2_def)
  have a8: "8 dvd a" "a + 8 \<le> 2 ^ 64" using blk by simp_all
  have n8: "8 dvd n" using n(2) by (rule mod16_dvd8)
  have sp8: "8 dvd sp" using spv(1) by (rule mod16_dvd8)
  have h8: "8 dvd h2" "h2 + 8 \<le> 2 ^ 64" using a8 n8 blk(8) n(3) by (simp_all add: h2_def)
  have f8: "8 dvd f" "f + 8 \<le> 2 ^ 64" using a8 blk(7,8) by (simp_all add: f_def)
  have h2m: "h2 mod 16 = 8" unfolding h2_def using mod16_step[OF blk(5) n(2)] .
  have k: "k < 15" and kidx: "getFreeListIndex (of_nat sp) = int k"
    using bin_of_valid[of sp] spv(2) blk(8) n(3) by (simp_all add: k_def sp_def)
  have qn: "node q"
  proof -
    obtain j where "h2 = 16 * j + 8" using h2m by (metis mod_mult_div_eq add.commute)
    then have "q = 16 * (j + 1)" by (simp add: q_def)
    then have "16 dvd q" by (rule dvdI)
    then show ?thesis using blk(8) n(3) by (simp add: node_def q_def h2_def)
  qed
  \<comment> \<open>link words of free blocks\<close>
  have other_blk: "x \<noteq> a' + 8 \<and> x \<noteq> a' + 16"
    if "(a', s', False) \<in> set bs" "a' \<noteq> a" "a \<le> x" "x < a + 8 + sz" for a' s' x
    using blocks_apart[OF c mem that(1)] that(2,3,4) chain_mem[OF c that(1)] by auto
  have qfresh: "\<forall>j<15. q \<notin> set (fl j)"
  proof (intro allI impI notI)
    fix j :: nat assume j: "j < 15" and qj: "q \<in> set (fl j)"
    from repr_node[OF R' j qj] obtain a' s' where b': "(a', s', False) \<in> set bs" "q = a' + 8" by blast
    have "a' = h2" using b'(2) by (simp add: q_def)
    then have "a' \<noteq> a" using n(1) by (simp add: h2_def)
    from other_blk[OF b'(1) this, of q] b'(2) n(3) show False by (simp add: q_def h2_def)
  qed
  \<comment> \<open>the run of the code\<close>
  define st1 where "st1 = setBlockSize st (of_nat a) (of_nat n)"
  define st2 where "st2 = wr st1 (of_nat h2) 0"
  define st3 where "st3 = setBlockSize st2 (of_nat h2) (of_nat sp)"
  define st4 where "st4 = setPrevAlloc st3 (of_nat h2)"
  define st5 where "st5 = wr st4 (of_nat f) 0"
  define st6 where "st6 = setBlockSize st5 (of_nat f) (of_nat sp)"
  have m1: "modw st a (\<lambda>w. (w AND 7) OR of_nat n) st1" unfolding st1_def by (rule modw_setBlockSize[OF a8])
  have m2: "modw st1 h2 (\<lambda>_. 0) st2" unfolding st2_def by (rule modw_wr[OF h8])
  have m3: "modw st2 h2 (\<lambda>w. (w AND 7) OR of_nat sp) st3" unfolding st3_def by (rule modw_setBlockSize[OF h8])
  have m4: "modw st3 h2 (\<lambda>w. w OR 2) st4" unfolding st4_def by (rule modw_setPrevAlloc[OF h8])
  have m5: "modw st4 f (\<lambda>_. 0) st5" unfolding st5_def by (rule modw_wr[OF f8])
  have m6: "modw st5 f (\<lambda>w. (w AND 7) OR of_nat sp) st6" unfolding st6_def by (rule modw_setBlockSize[OF f8])
  have m14: "modw st1 h2 (\<lambda>_. hdr sp False True) st4"
    using modw_comp[OF modw_comp[OF m2 m3 h8] m4 h8] by (simp only: hdr_split)
  have m46: "modw st4 f (\<lambda>_. of_nat sp) st6"
    using modw_comp[OF m5 m6 f8] by simp
  have L1: "lists_ok st1 fl"
    by (rule repr_lists_tagwrite[OF R' L m1 mem]) (use blk in simp_all)
  have L4: "lists_ok st4 fl"
    by (rule repr_lists_tagwrite[OF R' L1 m14 mem]) (use n in \<open>simp_all add: h2_def\<close>)
  have L6: "lists_ok st6 fl"
    by (rule repr_lists_tagwrite[OF R' L4 m46 mem]) (use n blk in \<open>simp_all add: f_def\<close>)
  from add_ok[OF L6 N k qn qfresh] obtain st7 where
    run7: "addFreeBlock st6 (of_nat q) (int k) = Inr st7"
    and L7: "lists_ok st7 (fl(k := q # fl k))"
    and F7: "frame st6 st7 (links (insert q (set (fl k))))"
    and lh7: "lastHeader st7 = lastHeader st6" by blast
  define fl1 where "fl1 = fl(k := q # fl k)"
  have N1: "nodes_ok fl1" unfolding fl1_def by (rule nodes_ok_add[OF N k qn qfresh])
  define st8 where "st8 = (if post = [] then st7\<lparr>lastHeader := of_nat h2\<rparr> else st7)"
  define st9 where "st9 = setAlloc st8 (of_nat a)"
  have m9: "modw st8 a (\<lambda>w. w OR 1) st9" unfolding st9_def by (rule modw_setAlloc[OF a8])
  have L8: "lists_ok st8 fl1" using L7 by (simp add: st8_def fl1_def)
  have L9: "lists_ok st9 fl1"
  proof (rule lists_modw[OF L8 m9])
    fix i r assume i: "i < 15" and r: "r \<in> set (fl1 i)"
    have nr: "node r" using N1 i r by (simp add: nodes_ok_def)
    show "node r \<and> a \<noteq> r \<and> a \<noteq> r + 8"
    proof (cases "r = q")
      case True
      then show ?thesis using nr by (simp add: q_def h2_def)
    next
      case False
      then have "r \<in> set (fl i)" using r by (auto simp: fl1_def split: if_splits)
      from repr_node[OF R' i this] obtain a' s' where b': "(a', s', False) \<in> set bs" "r = a' + 8" by blast
      from not_link[OF c mem _ _ _ _ b'(1), of a] nr show ?thesis by (simp add: b'(2))
    qed
  qed
  have pin1: "p \<in> set (fl1 idx)" using pin by (auto simp: fl1_def)
  from remove_ok[OF L9 N1 idx pin1] obtain st10 where
    run10: "removeFreeBlock st9 (of_nat p) (int idx) = Inr st10"
    and L10: "lists_ok st10 (fl1(idx := remove1 p (fl1 idx)))"
    and F10: "frame st9 st10 (links (set (fl1 idx) - {p}))"
    and lh10: "lastHeader st10 = lastHeader st9" by blast
  have split: "(of_nat sz :: 64 word) - of_nat n \<ge> 32"
    using word_sub_ge32[of n sz] blk(8) n(3) by simp
  have nh: "getNextHeader (of_nat a) (of_nat n) = of_nat h2"
    unfolding h2_def using n8 blk(8) n(3) by (intro nav_next) simp_all
  have spw: "(of_nat sz :: 64 word) - of_nat n - 8 = of_nat sp"
    using n(3) by (simp add: sp_def)
  have nf: "getFooter (of_nat h2) (of_nat sp) = of_nat f"
    unfolding sp_eq(1)[symmetric] using sp8 blk(8) n(3) by (intro nav_footer) (simp_all add: sp_def)
  have pl: "getPayload (of_nat h2) = of_nat q" unfolding q_def by (rule nav_payload)
  have lh6: "lastHeader st6 = lastHeader st"
    using modw_fields(5)[OF m46] modw_fields(5)[OF m14] modw_fields(5)[OF m1] by simp
  have lhe: "(of_nat a = lastHeader st7) = (post = [])"
    using last_header_eq[OF R] lh7 lh6 by auto
  have run: "place st (of_nat n) (int idx) (of_nat p) (of_nat a) (of_nat sz) = Inr (of_nat p, st10)"
  proof -
    have "place st (of_nat n) (int idx) (of_nat p) (of_nat a) (of_nat sz) =
       (case (case addFreeBlock st6 (of_nat q) (int k) of Inl e \<Rightarrow> Inl e
              | Inr st7 \<Rightarrow> Inr (if of_nat a = lastHeader st7 then st7\<lparr>lastHeader := of_nat h2\<rparr> else st7))
        of Inl e \<Rightarrow> Inl e
         | Inr st8 \<Rightarrow> (case removeFreeBlock (setAlloc st8 (of_nat a)) (of_nat p) (int idx) of
              Inl e \<Rightarrow> Inl e | Inr st9 \<Rightarrow> Inr (of_nat p, st9)))"
      unfolding place_def Let_def spw nh nf pl kidx st6_def st5_def st4_def st3_def st2_def st1_def
      using split by simp
    then show ?thesis
      unfolding run7 using lhe run10 by (simp add: st8_def st9_def)
  qed
  \<comment> \<open>where the memory may have changed\<close>
  have fz: "heap_lo st10 = heap_lo st" "heap_brk st10 = heap_brk st" "heap_max st10 = heap_max st"
    using frame_fields[OF F10] modw_fields[OF m9] frame_fields[OF F7] modw_fields[OF m46]
      modw_fields[OF m14] modw_fields[OF m1]
    by (simp_all add: st8_def)
  have lhz: "lastHeader st10 = (if post = [] then of_nat h2 else lastHeader st)"
    using lh10 modw_fields(5)[OF m9] lh7 lh6 by (simp add: st8_def)
  have lists: "W (mem st10) x = W (mem st6) x"
    if x: "8 dvd x" "x + 8 \<le> 2 ^ 64" "x \<noteq> q" "x \<noteq> q + 8" "x \<noteq> a"
      and nl: "\<And>a' s'. (a', s', False) \<in> set bs \<Longrightarrow> x \<noteq> a' + 8 \<and> x \<noteq> a' + 16" for x
  proof -
    have old: "x \<noteq> r \<and> x \<noteq> r + 8" if "i < 15" "r \<in> set (fl i)" for i r
    proof -
      from repr_node[OF R' that] obtain a' s' where b': "(a', s', False) \<in> set bs" "r = a' + 8" by blast
      from nl[OF b'(1)] show ?thesis by (simp add: b'(2))
    qed
    have 1: "x \<notin> links (set (fl1 idx) - {p})"
      unfolding in_links using old[OF idx] x(3,4) by (auto simp: fl1_def split: if_splits)
    have 2: "x \<notin> links (insert q (set (fl k)))"
      unfolding in_links using old[OF k] x(3,4) by auto
    have "W (mem st10) x = W (mem st9) x" by (rule frame_W[OF F10 x(1,2) 1])
    also have "\<dots> = W (mem st8) x" by (rule modw_other[OF m9 x(1,2,5)])
    also have "\<dots> = W (mem st7) x" by (simp add: st8_def)
    also have "\<dots> = W (mem st6) x" by (rule frame_W[OF F7 x(1,2) 2])
    finally show ?thesis .
  qed
  have in_blk: "x \<noteq> a' + 8 \<and> x \<noteq> a' + 16"
    if "(a', s', False) \<in> set bs" "a \<le> x" "x < a + 8 + sz" "x \<noteq> a + 8" "x \<noteq> a + 16" for a' s' x
    using not_link[OF c mem that(2,3,4,5) that(1)] .
  have Wa: "W (mem st10) a = hdr n True pa0"
  proof -
    have 1: "a \<notin> links (set (fl1 idx) - {p})"
    proof
      assume "a \<in> links (set (fl1 idx) - {p})"
      then obtain r where r: "r \<in> set (fl1 idx)" "a = r \<or> a = r + 8" unfolding in_links by auto
      from N1 idx r(1) have "node r" by (simp add: nodes_ok_def)
      from L9 have True by simp
      show False
      proof (cases "r = q")
        case True
        then show ?thesis using r(2) by (simp add: q_def h2_def)
      next
        case False
        then have "r \<in> set (fl idx)" using r(1) by (auto simp: fl1_def split: if_splits)
        from repr_node[OF R' idx this] obtain a' s' where b': "(a', s', False) \<in> set bs" "r = a' + 8" by blast
        from in_blk[OF b'(1), of a] r(2) b'(2) show False by simp
      qed
    qed
    have 2: "a \<notin> links (insert q (set (fl k)))"
    proof
      assume "a \<in> links (insert q (set (fl k)))"
      then consider "a = q \<or> a = q + 8" | r where "r \<in> set (fl k)" "a = r \<or> a = r + 8"
        unfolding in_links by auto
      then show False
      proof cases
        case 1
        then show ?thesis by (simp add: q_def h2_def)
      next
        case 2
        from repr_node[OF R' k 2(1)] obtain a' s' where b': "(a', s', False) \<in> set bs" "r = a' + 8" by blast
        from in_blk[OF b'(1), of a] 2(2) b'(2) show False by simp
      qed
    qed
    have "W (mem st10) a = W (mem st9) a" by (rule frame_W[OF F10 a8 1])
    also have "\<dots> = W (mem st8) a OR 1" by (rule modw_val[OF m9 a8])
    also have "W (mem st8) a = W (mem st7) a" by (simp add: st8_def)
    also have "\<dots> = W (mem st6) a" by (rule frame_W[OF F7 a8 2])
    also have "\<dots> = W (mem st4) a" using modw_other[OF m46 a8] blk(3) by (simp add: f_def)
    also have "\<dots> = W (mem st1) a" using modw_other[OF m14 a8] by (simp add: h2_def)
    also have "\<dots> = (W (mem st) a AND 7) OR of_nat n" by (rule modw_val[OF m1 a8])
    finally show ?thesis
      by (simp add: mid(3) hdr_set_size[OF of_nat_and7[OF blk(7)]] hdr_set_alloc)
  qed
  have Wh: "W (mem st10) h2 = hdr sp False True"
  proof -
    have "W (mem st10) h2 = W (mem st6) h2"
      using h8 n in_blk[of _ _ h2] by (intro lists) (simp_all add: q_def h2_def)
    also have "\<dots> = W (mem st4) h2" using modw_other[OF m46 h8] spv(2) sp_eq(1) by simp
    also have "\<dots> = hdr sp False True" by (rule modw_val[OF m14 h8])
    finally show ?thesis .
  qed
  have Wf: "W (mem st10) f = of_nat sp"
  proof -
    have "W (mem st10) f = W (mem st6) f"
      using f8 n spv(2) sp_eq(1) in_blk[of _ _ f] blk(3) by (intro lists) (simp_all add: q_def f_def)
    also have "\<dots> = of_nat sp" by (rule modw_val[OF m46 f8])
    finally show ?thesis .
  qed
  have far: "W (mem st10) x = W (mem st) x"
    if x: "8 dvd x" "x + 8 \<le> 2 ^ 64" "\<not> (a \<le> x \<and> x < a2)"
      and nl: "\<And>a' s'. (a', s', False) \<in> set bs \<Longrightarrow> x \<noteq> a' + 8 \<and> x \<noteq> a' + 16" for x
  proof -
    have o: "x \<noteq> a" "x \<noteq> h2" "x \<noteq> f" "x \<noteq> q" "x \<noteq> q + 8"
      using x(3) n blk(3) by (auto simp: a2_def h2_def f_def q_def)
    have "W (mem st10) x = W (mem st6) x" using x o nl by (intro lists) simp_all
    also have "\<dots> = W (mem st4) x" by (rule modw_other[OF m46 x(1,2) o(3)])
    also have "\<dots> = W (mem st1) x" by (rule modw_other[OF m14 x(1,2) o(2)])
    also have "\<dots> = W (mem st) x" by (rule modw_other[OF m1 x(1,2) o(1)])
    finally show ?thesis .
  qed
  define fl2 where "fl2 = fl1(idx := remove1 p (fl1 idx))"
  have repr': "repr st10 (pre @ [(a, n, True), (h2, sp, False)] @ post) fl2"
  proof (rule repr_rebuild[where mid="[(a, sz, False)]" and s=a and e=a2])
    show "repr st (pre @ [(a, sz, False)] @ post) fl" using R by simp
    show "chain (unat (heap_lo st) + 8) pre a" using mid(1) by (simp add: lo_def)
    show "chain a [(a, sz, False)] a2" using blk by (simp add: a2_def)
    show "chain a [(a, n, True), (h2, sp, False)] a2"
      using n spv sp_eq by (simp add: h2_def)
    show "tags_ok (mem st10) (last_alloc True pre) [(a, n, True), (h2, sp, False)]"
      using Wa Wh Wf sp_eq(1) size_mask[OF sp8]
      by (simp add: pa0_def)
    show "heap_lo st10 = heap_lo st" "heap_brk st10 = heap_brk st" by fact+
    show "lists_ok st10 fl2" using L10 by (simp add: fl2_def)
    show "lastHeader st10 = of_nat (if pre @ [(a, n, True), (h2, sp, False)] @ post = [] then unat (heap_lo st)
            else fst (last (pre @ [(a, n, True), (h2, sp, False)] @ post)))"
      using R by (simp add: lhz repr_def)
  next
    fix x2 s2 l2 post' assume po: "post = (x2, s2, l2) # post'"
    from mid(2) have x2: "x2 = a2" and s2: "24 \<le> s2" unfolding po a2_def by simp_all
    have m2: "(a2, s2, l2) \<in> set bs" by (simp add: bs_def po x2)
    note blk2 = repr_block[OF R' m2]
    have old: "W (mem st) a2 = hdr s2 l2 False" and naf: "l2 \<or> False"
      using repr_mid(3,4)[of st "pre @ [(a, sz, False)]" a2 s2 l2 post' fl] R by (simp_all add: po x2)
    have "W (mem st10) a2 = W (mem st) a2"
    proof (rule far)
      show "8 dvd a2" "a2 + 8 \<le> 2 ^ 64" using blk2 by simp_all
      show "\<not> (a \<le> a2 \<and> a2 < a2)" by simp
      fix a' s' assume b': "(a', s', False) \<in> set bs"
      show "a2 \<noteq> a' + 8 \<and> a2 \<noteq> a' + 16"
        using not_link[OF c m2 _ _ _ _ b', of a2] s2 by simp
    qed
    then show "W (mem st10) x2 = hdr s2 l2 (last_alloc (last_alloc True pre) [(a, n, True), (h2, sp, False)]) \<and>
          (l2 \<or> last_alloc (last_alloc True pre) [(a, n, True), (h2, sp, False)])"
      using old naf by (simp add: x2 last_alloc_def)
  next
    fix x assume x: "8 dvd x" "x + 8 \<le> 2 ^ 64" "\<not> (a \<le> x \<and> x \<le> a2)" "\<not> interior (pre @ post) x"
    show "W (mem st10) x = W (mem st) x"
    proof (rule far[OF x(1,2)])
      show "\<not> (a \<le> x \<and> x < a2)" using x(3) by auto
      fix a' s' assume b': "(a', s', False) \<in> set bs"
      show "x \<noteq> a' + 8 \<and> x \<noteq> a' + 16"
      proof (cases "a' = a")
        case True
        then show ?thesis using x(3) blk(3) by (auto simp: a2_def)
      next
        case False
        then have "(a', s', False) \<in> set (pre @ post)" using b' by (auto simp: bs_def)
        moreover have "24 \<le> s'" using chain_mem[OF c b'] by simp
        ultimately have "interior (pre @ post) (a' + 8)" "interior (pre @ post) (a' + 16)"
          by (auto intro: interiorI)
        then show ?thesis using x(4) by auto
      qed
    qed
  next
    show "\<forall>i<15. distinct (fl2 i) \<and>
            set (fl2 i) = set (free_nodes (pre @ [(a, n, True), (h2, sp, False)] @ post) i)"
    proof (intro allI impI)
      fix i :: nat assume i: "i < 15"
      have d: "distinct (fl i)" and s: "set (fl i) = set (free_nodes bs i)" using S i by simp_all
      have np: "r \<notin> set (free_nodes pre i)" if "a + 8 \<le> r" for r
        using node_not_in_segment(1)[OF mid(1), of r i] that by auto
      have nq: "r \<notin> set (free_nodes post i)" if "r < a2" for r
        using node_not_in_segment(2)[OF mid(2), of r i] that by (auto simp: a2_def)
      have qp: "q \<noteq> p" by (simp add: q_def p_def h2_def)
      have 1: "p \<notin> set (free_nodes pre i)" "q \<notin> set (free_nodes pre i)"
        using np[of p] np[of q] by (simp_all add: p_def q_def h2_def)
      have 2: "p \<notin> set (free_nodes post i)" "q \<notin> set (free_nodes post i)"
        using nq[of p] nq[of q] blk(3) n(3) by (simp_all add: p_def q_def h2_def a2_def)
      have qf: "q \<notin> set (fl i)" using qfresh i by simp
      show "distinct (fl2 i) \<and>
            set (fl2 i) = set (free_nodes (pre @ [(a, n, True), (h2, sp, False)] @ post) i)"
        using d s 1 2 qp qf
        by (auto simp: fl2_def fl1_def bs_def free_nodes_append free_nodes_Cons idx_def k_def p_def q_def)
    qed
  qed
  show ?thesis
    using run repr' fz
    by (auto simp: idx_def p_def h2_def sp_def fl2_def fl1_def k_def q_def)
qed

section \<open>The search loop\<close>

lemma loop_end:
  "malloc_loop st N 14 0 True = Some (case extendHeap st N of (h, st1) \<Rightarrow> Inr (getPayload h, st1))"
proof -
  have "malloc_loop st N 14 0 True = malloc_loop st N 14 0 False"
    by (subst malloc_loop.simps) simp
  also have "\<dots> = Some (case extendHeap st N of (h, st1) \<Rightarrow> Inr (getPayload h, st1))"
    by (subst malloc_loop.simps) (simp split: prod.splits)
  finally show ?thesis .
qed

lemma loop_next_list:
  assumes "idx < 14"
  shows "malloc_loop st N (int idx) 0 True =
         malloc_loop st N (int (Suc idx)) (segFreeList st (Suc idx)) True"
proof -
  have e: "nat (int idx + 1) = Suc idx" "int idx + 1 = int (Suc idx)" by simp_all
  have "malloc_loop st N (int idx) 0 True =
         malloc_loop st N (int idx + 1) (segFreeList st (nat (int idx + 1))) True"
    using assms by (subst malloc_loop.simps) simp
  then show ?thesis unfolding e nat_int .
qed

lemma loop_node:
  assumes "p \<noteq> 0"
  shows "malloc_loop st N (int idx) p True =
     (if N \<le> getBlockSize st (p - 8) then Some (place st N (int idx) p (p - 8) (getBlockSize st (p - 8)))
      else if idx \<le> 3 then malloc_loop st N (int (Suc idx)) (segFreeList st (Suc idx)) True
      else malloc_loop st N (int idx) (getNextFreeBlock st p) True)"
proof -
  have e: "nat (int idx + 1) = Suc idx" "int idx + 1 = int (Suc idx)" by simp_all
  have "malloc_loop st N (int idx) p True =
     (if N \<le> getBlockSize st (p - 8) then Some (place st N (int idx) p (p - 8) (getBlockSize st (p - 8)))
      else if idx \<le> 3 then malloc_loop st N (int idx + 1) (segFreeList st (nat (int idx + 1))) True
      else malloc_loop st N (int idx) (getNextFreeBlock st p) True)"
    using assms by (subst malloc_loop.simps) (simp add: Let_def mul8_div8)
  then show ?thesis unfolding e nat_int .
qed

lemma word_le_of_nat:
  assumes "n < 2 ^ 64" "m < 2 ^ 64"
  shows "((of_nat n :: 64 word) \<le> of_nat m) = (n \<le> m)"
  using assms by (simp add: word_le_nat_alt unat_of_nat64)

section \<open>Entering free\<close>

text \<open>Entering \<open>free\<close> with the payload of an allocated block.\<close>

lemma in_heap_payload:
  assumes R: "repr st bs fl" and m: "(a, sz, al) \<in> set bs"
  shows "in_heap st (of_nat (a + 8))"
proof -
  note blk = repr_block[OF R m]
  note rb = repr_bounds[OF R]
  have ua: "unat (of_nat (a + 8) :: 64 word) = a + 8" using blk(8) by (intro unat_of_nat64) simp
  have "heap_brk st \<noteq> 0" using rb(3) by (metis unat_0 not_add_less2 le_0_eq add_is_0 zero_neq_numeral)
  then have ub: "unat (heap_brk st - 1) = unat (heap_brk st) - 1" by (rule unat_minus_one)
  show ?thesis
    unfolding in_heap_def mm_heap_hi_def mm_heap_lo_def word_le_nat_alt ua ub
    using blk(1,2,3) by simp
qed

lemma alloc_fresh:
  assumes R: "repr st bs fl" and m: "(a, sz, True) \<in> set bs" and j: "j < 15"
  shows "a + 8 \<notin> set (fl j)"
proof
  assume "a + 8 \<in> set (fl j)"
  from repr_node[OF R j this] obtain a' s' where b': "(a', s', False) \<in> set bs" "a + 8 = a' + 8" by blast
  from R have c: "chain (unat (heap_lo st) + 8) bs (unat (heap_brk st))" by (simp add: repr_def)
  from chain_addr_unique[OF c m, of s' False] b' show False by simp
qed

lemma block_node:
  assumes R: "repr st bs fl" and m: "(a, sz, al) \<in> set bs"
  shows "node (a + 8)"
  using repr_block[OF R m] by (simp add: node_def)

lemma ftr_compose:
  fixes w :: "64 word"
  assumes "8 dvd ns"
  shows "(((w AND 7) OR of_nat ns) AND 0xFFFFFFFFFFFFFFFE) AND 0xFFFFFFFFFFFFFFF8 = of_nat ns"
  by (simp only: ftr_set_free ftr_set_size[OF of_nat_and7[OF assms]])

lemma free_enter:
  assumes R: "repr st (pre @ (a, sz, True) # post) fl"
  shows "free st (of_nat (a + 8)) =
     (case
        (if (post \<noteq> [] \<and> isFree st (of_nat (a + 8 + sz))) \<and> \<not> last_alloc True pre
           then coalesce_both st (of_nat a) (of_nat (a + 8 + sz)) (of_nat (a - 8))
         else if post \<noteq> [] \<and> isFree st (of_nat (a + 8 + sz))
           then coalesce_next st (of_nat (a + 8)) (of_nat a) (of_nat (a + 8 + sz))
         else if \<not> last_alloc True pre
           then coalesce_prev st (of_nat a) (of_nat (a + sz)) (of_nat (a + 8 + sz)) (of_nat (a - 8))
         else no_coalesce st (of_nat (a + 8)) (of_nat a) (of_nat (a + sz)) (of_nat sz)
                (of_nat (a + 8 + sz)) (int (bin_of sz)))
      of Inl e \<Rightarrow> Inl e | Inr (st1, p1, index1) \<Rightarrow> addFreeBlock st1 p1 index1)"
proof -
  define bs where "bs = pre @ (a, sz, True) # post"
  note R' = R[folded bs_def]
  have mem: "(a, sz, True) \<in> set bs" by (simp add: bs_def)
  note blk = repr_block[OF R' mem]
  note mid = repr_mid[OF R]
  have ih: "in_heap st (of_nat (a + 8))" by (rule in_heap_payload[OF R' mem])
  have h: "(of_nat (a + 8) :: 64 word) - 8 = of_nat a" by simp
  have gs: "getBlockSize st (of_nat a) = of_nat sz" using decode(1)[OF mid(3) blk(7)] .
  have ipf: "isPrevFree st (of_nat a) = (\<not> last_alloc True pre)" using decode(3)[OF mid(3) blk(7)] .
  have ft: "getFooter (of_nat a) (of_nat sz) = of_nat (a + sz)"
    using blk by (intro nav_footer) simp_all
  have nh: "getNextHeader (of_nat a) (of_nat sz) = of_nat (a + 8 + sz)"
    using blk by (intro nav_next) simp_all
  have pf: "getPrevFooter (of_nat a) = of_nat (a - 8)"
    using blk(1) by (intro nav_prev_footer) simp
  have ix: "getFreeListIndex (of_nat sz) = int (bin_of sz)"
    using bin_of_valid(2)[of sz] blk by simp
  have lhe: "(of_nat a \<noteq> lastHeader st) = (post \<noteq> [])" using last_header_eq[OF R] by auto
  have pz: "(of_nat a - 8 * get8ByteAlignment 8 \<noteq> mm_heap_lo st \<and> \<not> last_alloc True pre) = (\<not> last_alloc True pre)"
  proof (cases "pre = []")
    case True
    then show ?thesis by simp
  next
    case False
    then obtain b0 pre' where pr: "pre = b0 # pre'" by (cases pre) auto
    obtain a0 s0 l0 where b0: "b0 = (a0, s0, l0)" by (cases b0)
    from mid(1) have a0: "a0 = unat (heap_lo st) + 8" "24 \<le> s0" "chain (a0 + 8 + s0) pre' a"
      unfolding pr b0 by simp_all
    have "unat (heap_lo st) + 8 + 8 + s0 \<le> a" using chain_le[OF a0(3)] a0(1) by simp
    then have "a - 8 \<noteq> unat (heap_lo st)" by simp
    moreover have "a - 8 < 2 ^ 64" using blk(8) by simp
    moreover have "unat (heap_lo st) < 2 ^ 64" using unsigned_less[of "heap_lo st", where 'a=nat] by simp
    ultimately have "(of_nat (a - 8) :: 64 word) \<noteq> of_nat (unat (heap_lo st))"
      using of_nat_inj64[of "a - 8" "unat (heap_lo st)"] by simp
    moreover have "(of_nat a :: 64 word) - 8 = of_nat (a - 8)" using blk(1) by simp
    ultimately show ?thesis by (simp add: mul8_div8 mm_heap_lo_def)
  qed
  show ?thesis
    unfolding free_def Let_def h gs ipf ft nh pf ix lhe pz
    using ih by simp
qed

section \<open>The common end of the four cases of free\<close>

lemma nodes_ok_sub:
  assumes N: "nodes_ok fl" and s: "\<forall>i<15. distinct (fl1 i) \<and> set (fl1 i) \<subseteq> set (fl i)"
  shows "nodes_ok fl1"
  unfolding nodes_ok_def
proof (intro allI impI conjI ballI)
  fix i :: nat assume i: "i < 15"
  show "distinct (fl1 i)" using s i by simp
  show "node q" if "q \<in> set (fl1 i)" for q
    using that N s i unfolding nodes_ok_def by blast
  fix j :: nat assume j: "j < 15" "i \<noteq> j"
  have "set (fl i) \<inter> set (fl j) = {}" using N i j by (simp add: nodes_ok_def)
  then show "set (fl1 i) \<inter> set (fl1 j) = {}" using s i j by blast
qed

lemma chain_first:
  assumes "chain s mid e" "mid \<noteq> []"
  obtains s1 l1 rest where "mid = (s, s1, l1) # rest" "s + 32 \<le> e"
proof -
  from assms(2) obtain b rest where m: "mid = b # rest" by (cases mid) auto
  obtain x s1 l1 where b: "b = (x, s1, l1)" by (cases b)
  from assms(1) have x: "x = s" "24 \<le> s1" "chain (s + 8 + s1) rest e" unfolding m b by simp_all
  from chain_le[OF x(3)] x(2) have "s + 32 \<le> e" by simp
  then show ?thesis using that m b x(1) by simp
qed

lemma chain_last:
  assumes "chain s mid e" "mid \<noteq> []"
  obtains al szl ll front where "mid = front @ [(al, szl, ll)]" "al + 8 + szl = e" "24 \<le> szl"
proof -
  from assms(2) obtain front b where m: "mid = front @ [b]" by (metis rev_exhaust)
  obtain al szl ll where b: "b = (al, szl, ll)" by (cases b)
  from assms(1) obtain c where "chain s front c" "chain c [(al, szl, ll)] e"
    unfolding m b chain_append by blast
  then have "al + 8 + szl = e" "24 \<le> szl" by simp_all
  then show ?thesis using that m b by simp
qed

text \<open>The common end of the four cases of \<open>free\<close>: the tags of the merged block have been
  written (\<open>st4\<close>), the absorbed neighbours have left their lists (\<open>st6\<close>), the header after the
  merged block or \<open>lastHeader\<close> has been adjusted (\<open>st7\<close>), and the merged block is inserted.\<close>

lemma merge_finish:
  assumes R: "repr st (pre @ mid @ post) fl"
    and cp: "chain (unat (heap_lo st) + 8) pre s"
    and cm: "chain s mid e"
    and ne: "mid \<noteq> []"
    and pa: "last_alloc True pre"
    and nl: "\<And>a2 s2 l2 post'. post = (a2, s2, l2) # post' \<Longrightarrow> l2"
    and ns: "ns = e - s - 8"
    and T1: "heap_lo st4 = heap_lo st" "heap_brk st4 = heap_brk st" "heap_max st4 = heap_max st"
    and T2: "W (mem st4) s = hdr ns False True"
    and T3: "W (mem st4) (e - 8) AND 0xFFFFFFFFFFFFFFF8 = of_nat ns"
    and T4: "\<And>x. 8 dvd x \<Longrightarrow> x + 8 \<le> 2 ^ 64 \<Longrightarrow> x \<noteq> s \<Longrightarrow> x \<noteq> e - 8 \<Longrightarrow>
                W (mem st4) x = W (mem st) x"
    and Rm: "lists_ok st6 fl1" "frame st4 st6 (links {q. \<exists>i<15. q \<in> set (fl i)})"
    and S1: "\<forall>i<15. distinct (fl1 i) \<and> set (fl1 i) = set (free_nodes (pre @ post) i)"
    and Nx: "heap_lo st7 = heap_lo st6" "heap_brk st7 = heap_brk st6" "heap_max st7 = heap_max st6"
      "segFreeList st7 = segFreeList st6"
      "lastHeader st7 = of_nat (if post = [] then s else fst (last post))"
    and Nw: "\<And>x. 8 dvd x \<Longrightarrow> x + 8 \<le> 2 ^ 64 \<Longrightarrow> x \<noteq> e \<Longrightarrow> W (mem st7) x = W (mem st6) x"
    and Ne: "post \<noteq> [] \<Longrightarrow> W (mem st7) e =
               (if last_alloc True mid then W (mem st6) e AND 0xFFFFFFFFFFFFFFFD else W (mem st6) e)"
  shows "\<exists>st'. addFreeBlock st7 (of_nat (s + 8)) (int (bin_of ns)) = Inr st' \<and>
           repr st' (pre @ (s, ns, False) # post) (fl1(bin_of ns := (s + 8) # fl1 (bin_of ns))) \<and>
           heap_lo st' = heap_lo st \<and> heap_brk st' = heap_brk st \<and> heap_max st' = heap_max st"
proof -
  define bs where "bs = pre @ mid @ post"
  define lo where "lo = unat (heap_lo st)"
  define b where "b = unat (heap_brk st)"
  define k where "k = bin_of ns"
  define p where "p = s + 8"
  note R' = R[folded bs_def]
  note rb = repr_bounds[OF R, folded lo_def b_def]
  from R have c: "chain (lo + 8) bs b" by (simp add: repr_def lo_def b_def bs_def)
  from c obtain s' e' where c0: "chain (lo + 8) pre s'" "chain s' mid e'" "chain e' post b"
    unfolding bs_def chain_append by blast
  have s': "s' = s" using chain_unique_end[OF c0(1) cp[folded lo_def]] .
  have e': "e' = e" using chain_unique_end[OF c0(2)[unfolded s'] cm] .
  note c1 = c0[unfolded s' e']
  have cpp: "chain (lo + 8) pre s" "chain e post b" using c1 by simp_all
  from chain_first[OF cm ne] obtain s1 l1 rest where fst: "mid = (s, s1, l1) # rest" and se: "s + 32 \<le> e"
    by blast
  obtain al szl ll front where
    lst: "mid = front @ [(al, szl, ll)]" and al: "al + 8 + szl = e" "24 \<le> szl"
    by (rule chain_last[OF cm ne])
  have mf: "(s, s1, l1) \<in> set bs" by (simp add: bs_def fst)
  have ml: "(al, szl, ll) \<in> set bs" by (simp add: bs_def lst)
  note blkf = repr_block[OF R' mf, folded lo_def b_def]
  note blkl = repr_block[OF R' ml, folded lo_def b_def]
  have eb: "e \<le> b" "b < 2 ^ 64" using chain_le[OF c1(3)] rb(4) by simp_all
  have e8: "8 dvd e" using blkl(6,7) al(1) by (metis dvd_add dvd_refl)
  have em: "e mod 16 = 8" using mod16_step[OF blkl(5,4)] al(1) by simp
  have nsm: "ns mod 16 = 8" "24 \<le> ns"
  proof -
    obtain i where i: "s = 16 * i + 8" using blkf(5) by (metis mod_mult_div_eq add.commute)
    obtain j where j: "e = 16 * j + 8" using em by (metis mod_mult_div_eq add.commute)
    have ij: "i + 2 \<le> j" using se unfolding i j by simp
    define d where "d = j - i - 1"
    have "ns = 16 * d + 8" unfolding ns i j d_def using ij by simp
    then show "ns mod 16 = 8" by simp
    show "24 \<le> ns" unfolding ns using se by simp
  qed
  have nsl: "ns < 2 ^ 64" unfolding ns using eb by simp
  have k: "k < 15" unfolding k_def using bin_of_valid(1)[OF nsm(2) nsl] .
  have np: "node p" unfolding p_def node_def using blkf(9) se eb by simp
  have N: "nodes_ok fl" using repr_nodes_ok[OF R] .
  have S: "\<forall>i<15. distinct (fl i) \<and> set (fl i) = set (free_nodes bs i)"
    using R' by (simp add: repr_def)
  have sub: "\<forall>i<15. distinct (fl1 i) \<and> set (fl1 i) \<subseteq> set (fl i)"
    using S S1 by (auto simp: bs_def free_nodes_append)
  have N1: "nodes_ok fl1" using nodes_ok_sub[OF N sub] .
  \<comment> \<open>where the nodes of the remaining free blocks lie\<close>
  have out: "(q + 16 \<le> s \<or> e + 8 \<le> q) \<and> interior (pre @ post) q \<and> interior (pre @ post) (q + 8)"
    if "i < 15" "q \<in> set (fl1 i)" for i q
  proof -
    from that S1 have "q \<in> set (free_nodes pre i) \<or> q \<in> set (free_nodes post i)"
      by (auto simp: free_nodes_append)
    then show ?thesis
      using free_nodes_bounds[OF cpp(1), of q i] free_nodes_bounds[OF cpp(2), of q i]
      by (auto simp: interior_append)
  qed
  have outk: "x \<noteq> q \<and> x \<noteq> q + 8"
    if "i < 15" "q \<in> set (fl1 i)" "(s \<le> x \<and> x \<le> e) \<or> \<not> interior (pre @ post) x" for i q x
  proof -
    from out[OF that(1,2)] have 1: "q + 16 \<le> s \<or> e + 8 \<le> q"
      and 2: "interior (pre @ post) q" "interior (pre @ post) (q + 8)" by simp_all
    from that(3) show ?thesis
    proof
      assume "s \<le> x \<and> x \<le> e"
      with 1 show ?thesis by linarith
    next
      assume "\<not> interior (pre @ post) x"
      with 2 show ?thesis by blast
    qed
  qed
  have fresh: "\<forall>j<15. p \<notin> set (fl1 j)"
  proof (intro allI impI)
    fix j :: nat assume j: "j < 15"
    show "p \<notin> set (fl1 j)"
    proof
      assume "p \<in> set (fl1 j)"
      from outk[OF j this, of p] se show False by (simp add: p_def)
    qed
  qed
  \<comment> \<open>tag addresses are no link words\<close>
  have tagf: "x \<noteq> q \<and> x \<noteq> q + 8"
    if "j < 15" "q \<in> set (fl j)" "x = s \<or> x = e - 8 \<or> x = e" for j q x
  proof -
    from repr_node[OF R' that(1,2)] obtain a' sz' where b': "(a', sz', False) \<in> set bs" "q = a' + 8" by blast
    have 1: "s \<noteq> a' + 8 \<and> s \<noteq> a' + 16" using not_link[OF c mf _ _ _ _ b'(1), of s] blkf(3) by simp
    have 2: "e - 8 \<noteq> a' + 8 \<and> e - 8 \<noteq> a' + 16"
      using not_link[OF c ml _ _ _ _ b'(1), of "e - 8"] al by simp
    have 3: "e \<noteq> a' + 8 \<and> e \<noteq> a' + 16"
    proof (cases "a' = al")
      case True
      with chain_addr_unique[OF c ml, of sz' False] b'(1) have "sz' = szl" by simp
      then show ?thesis using al True by simp
    next
      case False
      then have "al \<noteq> a'" by simp
      from blocks_apart[OF c ml b'(1) this] chain_mem[OF c b'(1)] al show ?thesis by auto
    qed
    from 1 2 3 that(3) show ?thesis unfolding b'(2) by auto
  qed
  have W64: "W (mem st6) x = W (mem st4) x"
    if "8 dvd x" "x + 8 \<le> 2 ^ 64" "\<And>j q. j < 15 \<Longrightarrow> q \<in> set (fl j) \<Longrightarrow> x \<noteq> q \<and> x \<noteq> q + 8" for x
  proof (rule frame_W[OF Rm(2) that(1,2)])
    show "x \<notin> links {q. \<exists>i<15. q \<in> set (fl i)}"
      unfolding in_links using that(3) by auto
  qed
  \<comment> \<open>the insertion\<close>
  have L7: "lists_ok st7 fl1"
  proof (rule lists_frame[OF Rm(1) Nx(4)])
    fix i q assume iq: "i < 15" "q \<in> set (fl1 i)"
    from out[OF iq] se have ne: "q \<noteq> e" "q + 8 \<noteq> e" by auto
    have nq: "node q" using N1 iq by (simp add: nodes_ok_def)
    show "W (mem st7) q = W (mem st6) q \<and> W (mem st7) (q + 8) = W (mem st6) (q + 8)"
      using Nw[OF node_facts(1,3)[OF nq] ne(1)] Nw[OF node_facts(2,4)[OF nq] ne(2)] by simp
  qed
  from add_ok[OF L7 N1 k np] fresh obtain st' where
    run: "addFreeBlock st7 (of_nat p) (int k) = Inr st'"
    and L': "lists_ok st' (fl1(k := p # fl1 k))"
    and F': "frame st7 st' (links (insert p (set (fl1 k))))"
    and lh': "lastHeader st' = lastHeader st7" by blast
  have W87: "W (mem st') x = W (mem st7) x"
    if "8 dvd x" "x + 8 \<le> 2 ^ 64" "x \<noteq> s + 8" "x \<noteq> s + 16"
      "\<And>q. q \<in> set (fl1 k) \<Longrightarrow> x \<noteq> q \<and> x \<noteq> q + 8" for x
  proof (rule frame_W[OF F' that(1,2)])
    show "x \<notin> links (insert p (set (fl1 k)))"
      unfolding in_links using that(3,4,5) by (auto simp: p_def)
  qed
  have W87in: "W (mem st') x = W (mem st7) x"
    if "8 dvd x" "x + 8 \<le> 2 ^ 64" "s \<le> x" "x \<le> e" "x \<noteq> s + 8" "x \<noteq> s + 16" for x
  proof (rule W87[OF that(1,2,5,6)])
    fix q assume "q \<in> set (fl1 k)"
    from outk[OF k this, of x] that(3,4) show "x \<noteq> q \<and> x \<noteq> q + 8" by simp
  qed
  have fields: "heap_lo st' = heap_lo st" "heap_brk st' = heap_brk st" "heap_max st' = heap_max st"
    using frame_fields[OF F'] Nx(1,2,3) frame_fields[OF Rm(2)] T1 by simp_all
  have s8: "8 dvd s" "s + 8 \<le> 2 ^ 64" using blkf by simp_all
  have f8: "8 dvd e - 8" "e - 8 + 8 \<le> 2 ^ 64" using e8 se eb by simp_all
  have e88: "e + 8 \<le> 2 ^ 64" if "post \<noteq> []"
  proof -
    from that obtain b2 post' where po: "post = b2 # post'" by (cases post) auto
    obtain x2 s2 l2 where b2: "b2 = (x2, s2, l2)" by (cases b2)
    from cpp(2) have "x2 = e" "24 \<le> s2" "chain (e + 8 + s2) post' b" unfolding po b2 by simp_all
    with chain_le[of "e + 8 + s2" post' b] eb show ?thesis by simp
  qed
  have Ws: "W (mem st') s = hdr ns False True"
  proof -
    have "W (mem st') s = W (mem st7) s"
      using se by (intro W87in s8) simp_all
    also have "\<dots> = W (mem st6) s" using se by (intro Nw s8) simp
    also have "\<dots> = W (mem st4) s" using tagf[of _ _ s] by (intro W64 s8) simp
    finally show ?thesis using T2 by simp
  qed
  have Wf: "W (mem st') (e - 8) = W (mem st4) (e - 8)"
  proof -
    have "W (mem st') (e - 8) = W (mem st7) (e - 8)"
      using se by (intro W87in f8) simp_all
    also have "\<dots> = W (mem st6) (e - 8)" using se by (intro Nw f8) simp
    also have "\<dots> = W (mem st4) (e - 8)" using tagf[of _ _ "e - 8"] by (intro W64 f8) simp
    finally show ?thesis .
  qed
  have "repr st' (pre @ [(s, ns, False)] @ post) (fl1(k := p # fl1 k))"
  proof (rule repr_rebuild[OF R cp cm])
    show "chain s [(s, ns, False)] e" using nsm se by (simp add: ns)
    show "tags_ok (mem st') (last_alloc True pre) [(s, ns, False)]"
      using Ws Wf T3 pa se by (simp add: ns)
    show "heap_lo st' = heap_lo st" "heap_brk st' = heap_brk st" by fact+
    show "lists_ok st' (fl1(k := p # fl1 k))" by fact
    show "lastHeader st' = of_nat (if pre @ [(s, ns, False)] @ post = [] then unat (heap_lo st)
            else fst (last (pre @ [(s, ns, False)] @ post)))"
      using lh' Nx(5) by simp
  next
    fix a2 s2 l2 post' assume po: "post = (a2, s2, l2) # post'"
    have pne: "post \<noteq> []" using po by simp
    from cpp(2) have a2: "a2 = e" and s2: "24 \<le> s2" unfolding po by simp_all
    have m2: "(e, s2, l2) \<in> set bs" by (simp add: bs_def po a2)
    note ee = e8 e88[OF pne]
    have old: "W (mem st) e = hdr s2 l2 (last_alloc True (pre @ mid))"
      using repr_mid(3)[of st "pre @ mid" e s2 l2 post' fl] R by (simp add: po a2)
    have la: "last_alloc True (pre @ mid) = last_alloc True mid"
      using ne by (simp add: last_alloc_def)
    have "W (mem st6) e = W (mem st4) e" using tagf[of _ _ e] by (intro W64 ee) simp
    also have "\<dots> = W (mem st) e" using se by (intro T4 ee) simp_all
    finally have 6: "W (mem st6) e = hdr s2 l2 (last_alloc True mid)" using old la by simp
    have "W (mem st') e = W (mem st7) e"
      using se by (intro W87in ee) simp_all
    also have "\<dots> = hdr s2 l2 False"
      using Ne[OF pne] 6 hdr_set_prev_free[OF of_nat_and7[OF repr_block(7)[OF R' m2]], of l2 True]
      by (cases "last_alloc True mid") simp_all
    finally show "W (mem st') a2 = hdr s2 l2 (last_alloc (last_alloc True pre) [(s, ns, False)]) \<and>
          (l2 \<or> last_alloc (last_alloc True pre) [(s, ns, False)])"
      using nl[OF po] by (simp add: a2 last_alloc_def)
  next
    fix x assume x: "8 dvd x" "x + 8 \<le> 2 ^ 64" "\<not> (s \<le> x \<and> x \<le> e)" "\<not> interior (pre @ post) x"
    have "W (mem st') x = W (mem st7) x"
    proof (rule W87[OF x(1,2)])
      show "x \<noteq> s + 8" "x \<noteq> s + 16" using x(3) se by auto
      fix q assume "q \<in> set (fl1 k)"
      from outk[OF k this, of x] x(4) show "x \<noteq> q \<and> x \<noteq> q + 8" by simp
    qed
    also have "\<dots> = W (mem st6) x" using x(3) se by (intro Nw x(1,2)) auto
    also have "\<dots> = W (mem st4) x"
    proof (rule W64[OF x(1,2)])
      fix j q assume jq: "j < 15" "q \<in> set (fl j)"
      with S have "q \<in> set (free_nodes pre j) \<or> q \<in> set (free_nodes mid j) \<or> q \<in> set (free_nodes post j)"
        by (auto simp: bs_def free_nodes_append)
      then show "x \<noteq> q \<and> x \<noteq> q + 8"
        using free_nodes_bounds[OF cpp(1), of q j] free_nodes_bounds[OF cpp(2), of q j]
          free_nodes_bounds(1,2)[OF cm, of q j] x(3,4)
        by (auto simp: interior_append)
    qed
    also have "\<dots> = W (mem st) x" using x(3) se by (intro T4 x(1,2)) auto
    finally show "W (mem st') x = W (mem st) x" .
  next
    show "\<forall>i<15. distinct ((fl1(k := p # fl1 k)) i) \<and>
            set ((fl1(k := p # fl1 k)) i) = set (free_nodes (pre @ [(s, ns, False)] @ post) i)"
      using S1 fresh by (auto simp: free_nodes_append free_nodes_Cons k_def p_def)
  qed
  then show ?thesis using run fields by (auto simp: k_def p_def)
qed

section \<open>free: no free neighbour\<close>

lemma modw_W:
  "modw st y f st' \<Longrightarrow> 8 dvd x \<Longrightarrow> x + 8 \<le> 2 ^ 64 \<Longrightarrow>
     W (mem st') x = (if x = y then f (W (mem st) y) else W (mem st) x)"
  by (simp add: modw_def)

lemma tag_lists:
  assumes R: "repr st bs fl" and seg: "segFreeList st4 = segFreeList st"
    and T4: "\<And>x. 8 dvd x \<Longrightarrow> x + 8 \<le> 2 ^ 64 \<Longrightarrow> x \<noteq> s \<Longrightarrow> x \<noteq> f \<Longrightarrow>
                W (mem st4) x = W (mem st) x"
    and mf: "(s, s1, l1) \<in> set bs" and ml: "(al, szl, ll) \<in> set bs" and f: "f = al + szl"
  shows "lists_ok st4 fl"
proof -
  from R have L: "lists_ok st fl" by (simp add: repr_def)
  from R have c: "chain (unat (heap_lo st) + 8) bs (unat (heap_brk st))" by (simp add: repr_def)
  show ?thesis
  proof (rule lists_frame[OF L seg])
    fix i q assume iq: "i < 15" "q \<in> set (fl i)"
    from repr_node[OF R iq] obtain a' sz' where b': "(a', sz', False) \<in> set bs" "q = a' + 8" by blast
    have nq: "node q" using repr_node_is_node[OF R iq] .
    have 1: "s \<noteq> a' + 8 \<and> s \<noteq> a' + 16"
      using not_link[OF c mf _ _ _ _ b'(1), of s] repr_block(3)[OF R mf] by simp
    have 2: "f \<noteq> a' + 8 \<and> f \<noteq> a' + 16"
      using not_link[OF c ml _ _ _ _ b'(1), of f] repr_block(3)[OF R ml] f by simp
    show "W (mem st4) q = W (mem st) q \<and> W (mem st4) (q + 8) = W (mem st) (q + 8)"
      using T4[OF node_facts(1,3)[OF nq]] T4[OF node_facts(2,4)[OF nq]] 1 2 b'(2) by simp
  qed
qed

lemma next_not_free:
  assumes R: "repr st (pre @ (a, sz, al) # post) fl"
    and nl: "\<And>a2 s2 l2 post'. post = (a2, s2, l2) # post' \<Longrightarrow> l2"
  shows "\<not> (post \<noteq> [] \<and> isFree st (of_nat (a + 8 + sz)))"
proof (cases post)
  case Nil
  then show ?thesis by simp
next
  case (Cons b2 post')
  obtain a2 s2 l2 where b2: "b2 = (a2, s2, l2)" by (cases b2)
  note po = Cons[unfolded b2]
  from repr_mid(2)[OF R] have a2: "a2 = a + 8 + sz" unfolding po by simp
  have R2: "repr st ((pre @ [(a, sz, al)]) @ (a2, s2, l2) # post') fl" using R po by simp
  have m2: "(a2, s2, l2) \<in> set (pre @ (a, sz, al) # post)" by (simp add: po)
  from decode(2)[OF repr_mid(3)[OF R2] repr_block(7)[OF R m2]] nl[OF po]
  show ?thesis by (simp add: a2)
qed

lemma free_none:
  assumes R: "repr st (pre @ (a, sz, True) # post) fl"
    and pa: "last_alloc True pre"
    and nl: "\<And>a2 s2 l2 post'. post = (a2, s2, l2) # post' \<Longrightarrow> l2"
  shows "\<exists>st'. free st (of_nat (a + 8)) = Inr st' \<and>
           repr st' (pre @ (a, sz, False) # post) (fl(bin_of sz := (a + 8) # fl (bin_of sz))) \<and>
           heap_lo st' = heap_lo st \<and> heap_brk st' = heap_brk st \<and> heap_max st' = heap_max st"
proof -
  define bs where "bs = pre @ (a, sz, True) # post"
  define e where "e = a + 8 + sz"
  define f where "f = a + sz"
  note R' = R[folded bs_def]
  have mem: "(a, sz, True) \<in> set bs" by (simp add: bs_def)
  note blk = repr_block[OF R' mem]
  note mid = repr_mid[OF R]
  have S: "\<forall>i<15. distinct (fl i) \<and> set (fl i) = set (free_nodes bs i)"
    using R' by (simp add: repr_def)
  have a8: "8 dvd a" "a + 8 \<le> 2 ^ 64" using blk by simp_all
  have f8: "8 dvd f" "f + 8 \<le> 2 ^ 64" using blk by (simp_all add: f_def)
  have nf: "\<not> (post \<noteq> [] \<and> isFree st (of_nat (a + 8 + sz)))" using next_not_free[OF R nl] .
  define st1 where "st1 = setBlockSize st (of_nat f) (of_nat sz)"
  define st2 where "st2 = setFree st1 (of_nat f)"
  define st3 where "st3 = setFree st2 (of_nat a)"
  define st7 where "st7 = (if post \<noteq> [] then setPrevFree st3 (of_nat e) else st3)"
  have m1: "modw st f (\<lambda>w. (w AND 7) OR of_nat sz) st1" unfolding st1_def by (rule modw_setBlockSize[OF f8])
  have m2: "modw st1 f (\<lambda>w. w AND 0xFFFFFFFFFFFFFFFE) st2" unfolding st2_def by (rule modw_setFree[OF f8])
  have m3: "modw st2 a (\<lambda>w. w AND 0xFFFFFFFFFFFFFFFE) st3" unfolding st3_def by (rule modw_setFree[OF a8])
  have lh3: "lastHeader st3 = lastHeader st"
    using modw_fields(5)[OF m1] modw_fields(5)[OF m2] modw_fields(5)[OF m3] by simp
  have lhe: "(of_nat a \<noteq> lastHeader st) = (post \<noteq> [])" using last_header_eq[OF R] by auto
  have run: "free st (of_nat (a + 8)) = addFreeBlock st7 (of_nat (a + 8)) (int (bin_of sz))"
  proof -
    have c1: "(post \<noteq> [] \<and> isFree st (of_nat (a + 8 + sz))) = False" using nf by simp
    have c2: "(\<not> last_alloc True pre) = False" using pa by simp
    have c3: "(of_nat a \<noteq> lastHeader st3) = (post \<noteq> [])" using lhe lh3 by simp
    have "no_coalesce st (of_nat (a + 8)) (of_nat a) (of_nat (a + sz)) (of_nat sz)
                (of_nat (a + 8 + sz)) (int (bin_of sz)) = Inr (st7, of_nat (a + 8), int (bin_of sz))"
      unfolding no_coalesce_def Let_def st7_def e_def
      unfolding st1_def[unfolded f_def, symmetric] st2_def[unfolded f_def, symmetric] st3_def[symmetric] c3
      by simp
    then show ?thesis unfolding free_enter[OF R] c1 c2 by simp
  qed
  have af: "a \<noteq> f" using blk(3) by (simp add: f_def)
  have T2: "W (mem st3) a = hdr sz False True"
    using mid(3) pa af hdr_set_free[OF of_nat_and7[OF blk(7)], of True True]
    by (simp add: modw_W[OF m3 a8] modw_W[OF m2 a8] modw_W[OF m1 a8])
  have T3: "W (mem st3) f AND 0xFFFFFFFFFFFFFFF8 = of_nat sz"
    using af ftr_compose[OF blk(7)]
    by (simp add: modw_W[OF m3 f8] modw_W[OF m2 f8] modw_W[OF m1 f8])
  have T4: "W (mem st3) x = W (mem st) x" if "8 dvd x" "x + 8 \<le> 2 ^ 64" "x \<noteq> a" "x \<noteq> f" for x
    using that by (simp add: modw_W[OF m3] modw_W[OF m2] modw_W[OF m1])
  have seg: "segFreeList st3 = segFreeList st"
    using modw_fields(4)[OF m1] modw_fields(4)[OF m2] modw_fields(4)[OF m3] by simp
  have L3: "lists_ok st3 fl"
    by (rule tag_lists[OF R' seg T4 mem mem]) (simp_all add: f_def)
  have e8: "8 dvd e" "e + 8 \<le> 2 ^ 64" if "post \<noteq> []"
  proof -
    from that obtain b2 post' where po: "post = b2 # post'" by (cases post) auto
    obtain x2 s2 l2 where b2: "b2 = (x2, s2, l2)" by (cases b2)
    from mid(2) have "x2 = e" unfolding po b2 e_def by simp
    then have "(e, s2, l2) \<in> set bs" by (simp add: bs_def po b2)
    from repr_block[OF R' this] show "8 dvd e" "e + 8 \<le> 2 ^ 64" by simp_all
  qed
  have m7: "modw st3 e (\<lambda>w. if post = [] then w else w AND 0xFFFFFFFFFFFFFFFD) st7"
  proof (cases "post = []")
    case True
    then show ?thesis by (simp add: st7_def modw_id)
  next
    case False
    then show ?thesis using modw_setPrevFree[OF e8[OF False], of st3] by (simp add: st7_def)
  qed
  have "\<exists>st'. addFreeBlock st7 (of_nat (a + 8)) (int (bin_of sz)) = Inr st' \<and>
           repr st' (pre @ (a, sz, False) # post) (fl(bin_of sz := (a + 8) # fl (bin_of sz))) \<and>
           heap_lo st' = heap_lo st \<and> heap_brk st' = heap_brk st \<and> heap_max st' = heap_max st"
  proof (rule merge_finish[where mid="[(a, sz, True)]" and e=e and ?st4.0=st3 and ?st6.0=st3])
    show "repr st (pre @ [(a, sz, True)] @ post) fl" using R by simp
    show "chain (unat (heap_lo st) + 8) pre a" by (rule mid(1))
    show "chain a [(a, sz, True)] e" using blk by (simp add: e_def)
    show "[(a, sz, True)] \<noteq> []" by simp
    show "last_alloc True pre" by (rule pa)
    show "\<And>a2 s2 l2 post'. post = (a2, s2, l2) # post' \<Longrightarrow> l2" by (rule nl)
    show "sz = e - a - 8" by (simp add: e_def)
    show "heap_lo st3 = heap_lo st" "heap_brk st3 = heap_brk st" "heap_max st3 = heap_max st"
      using modw_fields[OF m1] modw_fields[OF m2] modw_fields[OF m3] by simp_all
    show "W (mem st3) a = hdr sz False True" by (rule T2)
    show "W (mem st3) (e - 8) AND 0xFFFFFFFFFFFFFFF8 = of_nat sz" using T3 by (simp add: e_def f_def)
    show "\<And>x. 8 dvd x \<Longrightarrow> x + 8 \<le> 2 ^ 64 \<Longrightarrow> x \<noteq> a \<Longrightarrow> x \<noteq> e - 8 \<Longrightarrow> W (mem st3) x = W (mem st) x"
      using T4 by (simp add: e_def f_def)
    show "lists_ok st3 fl" by (rule L3)
    show "frame st3 st3 (links {q. \<exists>i<15. q \<in> set (fl i)})" by (rule frame_refl)
    show "\<forall>i<15. distinct (fl i) \<and> set (fl i) = set (free_nodes (pre @ post) i)"
      using S by (simp add: bs_def free_nodes_append free_nodes_Cons)
    show "heap_lo st7 = heap_lo st3" "heap_brk st7 = heap_brk st3" "heap_max st7 = heap_max st3"
      "segFreeList st7 = segFreeList st3"
      using modw_fields[OF m7] by simp_all
    show "lastHeader st7 = of_nat (if post = [] then a else fst (last post))"
      using modw_fields(5)[OF m7] lh3 R by (simp add: repr_def)
    show "\<And>x. 8 dvd x \<Longrightarrow> x + 8 \<le> 2 ^ 64 \<Longrightarrow> x \<noteq> e \<Longrightarrow> W (mem st7) x = W (mem st3) x"
      by (simp add: modw_W[OF m7])
    show "post \<noteq> [] \<Longrightarrow> W (mem st7) e =
        (if last_alloc True [(a, sz, True)] then W (mem st3) e AND 0xFFFFFFFFFFFFFFFD else W (mem st3) e)"
      using e8 by (simp add: modw_W[OF m7] last_alloc_def)
  qed
  then show ?thesis unfolding run .
qed

section \<open>free: the right neighbour is free\<close>

lemma footer_size:
  "getBlockSize st (of_nat f) = W (mem st) f AND 0xFFFFFFFFFFFFFFF8"
  by (simp add: getBlockSize_def rd_W)

lemma remove1_set:
  assumes "distinct xs"
  shows "distinct (remove1 p xs)" "set (remove1 p xs) = set xs - {p}"
  using assms by simp_all

lemma free_next:
  assumes R: "repr st (pre @ (a, sz, True) # (a2, s2, False) # post) fl"
    and pa: "last_alloc True pre"
  shows "\<exists>st'. free st (of_nat (a + 8)) = Inr st' \<and>
           repr st' (pre @ (a, sz + s2 + 8, False) # post)
             ((fl(bin_of s2 := remove1 (a2 + 8) (fl (bin_of s2))))
                (bin_of (sz + s2 + 8) :=
                   (a + 8) # (fl(bin_of s2 := remove1 (a2 + 8) (fl (bin_of s2)))) (bin_of (sz + s2 + 8)))) \<and>
           heap_lo st' = heap_lo st \<and> heap_brk st' = heap_brk st \<and> heap_max st' = heap_max st"
proof -
  define bs where "bs = pre @ (a, sz, True) # (a2, s2, False) # post"
  define e where "e = a2 + 8 + s2"
  define f where "f = a2 + s2"
  define ns where "ns = sz + s2 + 8"
  define i2 where "i2 = bin_of s2"
  define p2 where "p2 = a2 + 8"
  define fl1 where "fl1 = fl(i2 := remove1 p2 (fl i2))"
  note R' = R[folded bs_def]
  have R2: "repr st ((pre @ [(a, sz, True)]) @ (a2, s2, False) # post) fl" using R by simp
  have mem: "(a, sz, True) \<in> set bs" and mem2: "(a2, s2, False) \<in> set bs" by (simp_all add: bs_def)
  note blk = repr_block[OF R' mem]
  note blk2 = repr_block[OF R' mem2]
  note mid = repr_mid[OF R]
  note mid2 = repr_mid[OF R2]
  have a2: "a2 = a + 8 + sz" using mid(2) by simp
  have S: "\<forall>i<15. distinct (fl i) \<and> set (fl i) = set (free_nodes bs i)"
    using R' by (simp add: repr_def)
  have N: "nodes_ok fl" using repr_nodes_ok[OF R] .
  have i2: "i2 < 15" and pin: "p2 \<in> set (fl i2)"
    using repr_free_block[OF R' mem2] by (simp_all add: i2_def p2_def)
  have a8: "8 dvd a" "a + 8 \<le> 2 ^ 64" using blk by simp_all
  have f8: "8 dvd f" "f + 8 \<le> 2 ^ 64" using blk2 by (simp_all add: f_def)
  have ns8: "8 dvd ns" "24 \<le> ns" "ns < 2 ^ 64"
    using blk(7) blk2(7,8) blk(3) a2 by (simp_all add: ns_def)
  have nse: "ns = e - a - 8" by (simp add: ns_def e_def a2)
  \<comment> \<open>reading the tags\<close>
  have gsa: "getBlockSize st (of_nat a) = of_nat sz" using decode(1)[OF mid(3) blk(7)] .
  have gs2: "getBlockSize st (of_nat a2) = of_nat s2" using decode(1)[OF mid2(3) blk2(7)] .
  have if2: "isFree st (of_nat a2)" using decode(2)[OF mid2(3) blk2(7)] by simp
  have ft2: "getFooter (of_nat a2) (of_nat s2) = of_nat f"
    unfolding f_def using blk2 by (intro nav_footer) simp_all
  have gsf: "getBlockSize st (of_nat f) = of_nat s2"
    unfolding footer_size f_def using mid2(5) by simp
  have ix2: "getFreeListIndex (of_nat s2) = int i2"
    unfolding i2_def using bin_of_valid(2)[of s2] blk2 by simp
  have ixn: "getFreeListIndex (of_nat ns) = int (bin_of ns)"
    using bin_of_valid(2)[OF ns8(2,3)] .
  have sum: "(of_nat sz :: 64 word) + of_nat s2 + 8 = of_nat ns" by (simp add: ns_def)
  have pl2: "(of_nat a2 :: 64 word) + 8 * get8ByteAlignment 8 = of_nat p2"
    by (simp add: mul8_div8 p2_def)
  \<comment> \<open>the tag writes\<close>
  define st1 where "st1 = setBlockSize st (of_nat a) (of_nat ns)"
  define st2 where "st2 = setBlockSize st1 (of_nat f) (of_nat ns)"
  define st3 where "st3 = setFree st2 (of_nat f)"
  define st4 where "st4 = setFree st3 (of_nat a)"
  have m1: "modw st a (\<lambda>w. (w AND 7) OR of_nat ns) st1" unfolding st1_def by (rule modw_setBlockSize[OF a8])
  have m2: "modw st1 f (\<lambda>w. (w AND 7) OR of_nat ns) st2" unfolding st2_def by (rule modw_setBlockSize[OF f8])
  have m3: "modw st2 f (\<lambda>w. w AND 0xFFFFFFFFFFFFFFFE) st3" unfolding st3_def by (rule modw_setFree[OF f8])
  have m4: "modw st3 a (\<lambda>w. w AND 0xFFFFFFFFFFFFFFFE) st4" unfolding st4_def by (rule modw_setFree[OF a8])
  note mf = modw_fields[OF m1] modw_fields[OF m2] modw_fields[OF m3] modw_fields[OF m4]
  have af: "a \<noteq> f" using a2 by (simp add: f_def)
  have T2: "W (mem st4) a = hdr ns False True"
    using mid(3) pa af hdr_set_size[OF of_nat_and7[OF blk(7)], of True True ns]
      hdr_set_free[OF of_nat_and7[OF ns8(1)], of True True]
    by (simp add: modw_W[OF m4 a8] modw_W[OF m3 a8] modw_W[OF m2 a8] modw_W[OF m1 a8])
  have T3: "W (mem st4) f AND 0xFFFFFFFFFFFFFFF8 = of_nat ns"
    using af ftr_compose[OF ns8(1)]
    by (simp add: modw_W[OF m4 f8] modw_W[OF m3 f8] modw_W[OF m2 f8] modw_W[OF m1 f8])
  have T4: "W (mem st4) x = W (mem st) x" if "8 dvd x" "x + 8 \<le> 2 ^ 64" "x \<noteq> a" "x \<noteq> f" for x
    using that by (simp add: modw_W[OF m4] modw_W[OF m3] modw_W[OF m2] modw_W[OF m1])
  have seg: "segFreeList st4 = segFreeList st" using mf by simp
  have lh4: "lastHeader st4 = lastHeader st" using mf by simp
  have L4: "lists_ok st4 fl"
    by (rule tag_lists[OF R' seg T4 mem mem2]) (simp_all add: f_def)
  from remove_ok[OF L4 N i2 pin] obtain st5 where
    run2: "removeFreeBlock st4 (of_nat p2) (int i2) = Inr st5"
    and L5: "lists_ok st5 fl1"
    and F5: "frame st4 st5 (links (set (fl i2) - {p2}))"
    and lh5: "lastHeader st5 = lastHeader st4" unfolding fl1_def by blast
  define st7 where "st7 = (if post = [] then st5\<lparr>lastHeader := of_nat a\<rparr> else st5)"
  have lhe: "(of_nat a2 = lastHeader st5) = (post = [])"
    using last_header_eq[OF R2] lh5 lh4 by auto
  have run: "free st (of_nat (a + 8)) = addFreeBlock st7 (of_nat (a + 8)) (int (bin_of ns))"
  proof -
    have c1: "isFree st (of_nat (a + 8 + sz))" using if2 by (simp add: a2)
    have "coalesce_next st (of_nat (a + 8)) (of_nat a) (of_nat a2) =
            Inr (st7, of_nat (a + 8), int (bin_of ns))"
      unfolding coalesce_next_def Let_def gs2 ft2 gsf gsa ix2 sum ixn pl2
      unfolding st1_def[symmetric] st2_def[symmetric] st3_def[symmetric] st4_def[symmetric] run2
      by (simp add: lhe st7_def)
    then show ?thesis unfolding free_enter[OF R] using c1 pa by (simp add: a2)
  qed
  have "\<exists>st'. addFreeBlock st7 (of_nat (a + 8)) (int (bin_of ns)) = Inr st' \<and>
           repr st' (pre @ (a, ns, False) # post) (fl1(bin_of ns := (a + 8) # fl1 (bin_of ns))) \<and>
           heap_lo st' = heap_lo st \<and> heap_brk st' = heap_brk st \<and> heap_max st' = heap_max st"
  proof (rule merge_finish[where mid="[(a, sz, True), (a2, s2, False)]" and e=e and ?st4.0=st4 and ?st6.0=st5])
    show "repr st (pre @ [(a, sz, True), (a2, s2, False)] @ post) fl" using R by simp
    show "chain (unat (heap_lo st) + 8) pre a" by (rule mid(1))
    show "chain a [(a, sz, True), (a2, s2, False)] e" using blk blk2 by (simp add: e_def a2)
    show "[(a, sz, True), (a2, s2, False)] \<noteq> []" by simp
    show "last_alloc True pre" by (rule pa)
    show "l3" if "post = (a3, s3, l3) # post'" for a3 s3 l3 post'
      using repr_mid(4)[of st "pre @ [(a, sz, True), (a2, s2, False)]" a3 s3 l3 post' fl] R that
      by (simp add: last_alloc_def)
    show "ns = e - a - 8" by (rule nse)
    show "heap_lo st4 = heap_lo st" "heap_brk st4 = heap_brk st" "heap_max st4 = heap_max st"
      using mf by simp_all
    show "W (mem st4) a = hdr ns False True" by (rule T2)
    show "W (mem st4) (e - 8) AND 0xFFFFFFFFFFFFFFF8 = of_nat ns" using T3 by (simp add: e_def f_def)
    show "\<And>x. 8 dvd x \<Longrightarrow> x + 8 \<le> 2 ^ 64 \<Longrightarrow> x \<noteq> a \<Longrightarrow> x \<noteq> e - 8 \<Longrightarrow> W (mem st4) x = W (mem st) x"
      using T4 by (simp add: e_def f_def)
    show "lists_ok st5 fl1" by (rule L5)
    show "frame st4 st5 (links {q. \<exists>i<15. q \<in> set (fl i)})"
      by (rule frame_mono[OF F5]) (use i2 in \<open>auto simp: in_links\<close>)
    show "\<forall>i<15. distinct (fl1 i) \<and> set (fl1 i) = set (free_nodes (pre @ post) i)"
    proof (intro allI impI)
      fix i :: nat assume i: "i < 15"
      have d: "distinct (fl i)" and s: "set (fl i) = set (free_nodes bs i)" using S i by simp_all
      have np: "p2 \<notin> set (free_nodes pre i)"
        using node_not_in_segment(1)[OF mid(1), of p2 i] a2 by (auto simp: p2_def)
      have nq: "p2 \<notin> set (free_nodes post i)"
        using node_not_in_segment(2)[OF mid2(2), of p2 i] by (auto simp: p2_def)
      show "distinct (fl1 i) \<and> set (fl1 i) = set (free_nodes (pre @ post) i)"
      proof (cases "i = i2")
        case True
        then show ?thesis using d s np nq
          by (auto simp: fl1_def bs_def free_nodes_append free_nodes_Cons i2_def p2_def)
      next
        case False
        then show ?thesis using d s
          by (auto simp: fl1_def bs_def free_nodes_append free_nodes_Cons i2_def)
      qed
    qed
    show "heap_lo st7 = heap_lo st5" "heap_brk st7 = heap_brk st5" "heap_max st7 = heap_max st5"
      "segFreeList st7 = segFreeList st5"
      by (simp_all add: st7_def)
    show "lastHeader st7 = of_nat (if post = [] then a else fst (last post))"
      using lh5 lh4 R by (simp add: st7_def repr_def)
    show "\<And>x. 8 dvd x \<Longrightarrow> x + 8 \<le> 2 ^ 64 \<Longrightarrow> x \<noteq> e \<Longrightarrow> W (mem st7) x = W (mem st5) x"
      by (simp add: st7_def)
    show "post \<noteq> [] \<Longrightarrow> W (mem st7) e =
        (if last_alloc True [(a, sz, True), (a2, s2, False)] then W (mem st5) e AND 0xFFFFFFFFFFFFFFFD
         else W (mem st5) e)"
      by (simp add: st7_def last_alloc_def)
  qed
  then show ?thesis unfolding run ns_def fl1_def i2_def p2_def .
qed

section \<open>free: the left neighbour is free\<close>

lemma free_prev:
  assumes R: "repr st (pre @ (ap, sp, False) # (a, sz, True) # post) fl"
    and nl: "\<And>a2 s2 l2 post'. post = (a2, s2, l2) # post' \<Longrightarrow> l2"
  shows "\<exists>st'. free st (of_nat (a + 8)) = Inr st' \<and>
           repr st' (pre @ (ap, sp + sz + 8, False) # post)
             ((fl(bin_of sp := remove1 (ap + 8) (fl (bin_of sp))))
                (bin_of (sp + sz + 8) :=
                   (ap + 8) # (fl(bin_of sp := remove1 (ap + 8) (fl (bin_of sp)))) (bin_of (sp + sz + 8)))) \<and>
           heap_lo st' = heap_lo st \<and> heap_brk st' = heap_brk st \<and> heap_max st' = heap_max st"
proof -
  define bs where "bs = pre @ (ap, sp, False) # (a, sz, True) # post"
  define e where "e = a + 8 + sz"
  define f where "f = a + sz"
  define ns where "ns = sp + sz + 8"
  define i1 where "i1 = bin_of sp"
  define p1 where "p1 = ap + 8"
  define fl1 where "fl1 = fl(i1 := remove1 p1 (fl i1))"
  note R' = R[folded bs_def]
  have R2: "repr st ((pre @ [(ap, sp, False)]) @ (a, sz, True) # post) fl" using R by simp
  have mem: "(a, sz, True) \<in> set bs" and mem1: "(ap, sp, False) \<in> set bs" by (simp_all add: bs_def)
  note blk = repr_block[OF R' mem]
  note blk1 = repr_block[OF R' mem1]
  note mid1 = repr_mid[OF R]
  note mid = repr_mid[OF R2]
  have a: "a = ap + 8 + sp" using mid1(2) by simp
  have pa: "last_alloc True pre" using mid1(4) by simp
  have S: "\<forall>i<15. distinct (fl i) \<and> set (fl i) = set (free_nodes bs i)"
    using R' by (simp add: repr_def)
  have N: "nodes_ok fl" using repr_nodes_ok[OF R] .
  have i1: "i1 < 15" and pin: "p1 \<in> set (fl i1)"
    using repr_free_block[OF R' mem1] by (simp_all add: i1_def p1_def)
  have s8: "8 dvd ap" "ap + 8 \<le> 2 ^ 64" using blk1 by simp_all
  have f8: "8 dvd f" "f + 8 \<le> 2 ^ 64" using blk by (simp_all add: f_def)
  have ns8: "8 dvd ns" "24 \<le> ns" "ns < 2 ^ 64"
    using blk(7,8) blk1(7) blk(3) a by (simp_all add: ns_def)
  have nse: "ns = e - ap - 8" by (simp add: ns_def e_def a)
  \<comment> \<open>reading the tags\<close>
  have pf: "a - 8 = ap + sp" by (simp add: a)
  have gsa: "getBlockSize st (of_nat a) = of_nat sz" using decode(1)[OF mid(3) blk(7)] .
  have gs1: "getBlockSize st (of_nat ap) = of_nat sp" using decode(1)[OF mid1(3) blk1(7)] .
  have gsf: "getBlockSize st (of_nat (a - 8)) = of_nat sp"
    unfolding footer_size pf using mid1(5) by simp
  have ph: "getPrevHeader (of_nat a) (of_nat sp) = of_nat ap"
    using nav_prev[of sp a] blk1(7,8) a by simp
  have ix1: "getFreeListIndex (of_nat sp) = int i1"
    unfolding i1_def using bin_of_valid(2)[of sp] blk1 by simp
  have ixn: "getFreeListIndex (of_nat ns) = int (bin_of ns)"
    using bin_of_valid(2)[OF ns8(2,3)] .
  have sum: "(of_nat sp :: 64 word) + of_nat sz + 8 = of_nat ns" by (simp add: ns_def)
  have pl1: "(of_nat ap :: 64 word) + 8 * get8ByteAlignment 8 = of_nat p1"
    by (simp add: mul8_div8 p1_def)
  have nf: "\<not> (post \<noteq> [] \<and> isFree st (of_nat (a + 8 + sz)))" using next_not_free[OF R2 nl] .
  \<comment> \<open>the tag writes\<close>
  define st1 where "st1 = setBlockSize st (of_nat f) (of_nat ns)"
  define st2 where "st2 = setBlockSize st1 (of_nat ap) (of_nat ns)"
  define st3 where "st3 = setFree st2 (of_nat ap)"
  define st4 where "st4 = setFree st3 (of_nat f)"
  have m1: "modw st f (\<lambda>w. (w AND 7) OR of_nat ns) st1" unfolding st1_def by (rule modw_setBlockSize[OF f8])
  have m2: "modw st1 ap (\<lambda>w. (w AND 7) OR of_nat ns) st2" unfolding st2_def by (rule modw_setBlockSize[OF s8])
  have m3: "modw st2 ap (\<lambda>w. w AND 0xFFFFFFFFFFFFFFFE) st3" unfolding st3_def by (rule modw_setFree[OF s8])
  have m4: "modw st3 f (\<lambda>w. w AND 0xFFFFFFFFFFFFFFFE) st4" unfolding st4_def by (rule modw_setFree[OF f8])
  note mf = modw_fields[OF m1] modw_fields[OF m2] modw_fields[OF m3] modw_fields[OF m4]
  have af: "ap \<noteq> f" using a by (simp add: f_def)
  have T2: "W (mem st4) ap = hdr ns False True"
    using mid1(3) pa af hdr_set_size[OF of_nat_and7[OF blk1(7)], of False True ns]
      hdr_set_free[OF of_nat_and7[OF ns8(1)], of False True]
    by (simp add: modw_W[OF m4 s8] modw_W[OF m3 s8] modw_W[OF m2 s8] modw_W[OF m1 s8])
  have T3: "W (mem st4) f AND 0xFFFFFFFFFFFFFFF8 = of_nat ns"
    using af ftr_compose[OF ns8(1)]
    by (simp add: modw_W[OF m4 f8] modw_W[OF m3 f8] modw_W[OF m2 f8] modw_W[OF m1 f8])
  have T4: "W (mem st4) x = W (mem st) x" if "8 dvd x" "x + 8 \<le> 2 ^ 64" "x \<noteq> ap" "x \<noteq> f" for x
    using that by (simp add: modw_W[OF m4] modw_W[OF m3] modw_W[OF m2] modw_W[OF m1])
  have seg: "segFreeList st4 = segFreeList st" using mf by simp
  have lh4: "lastHeader st4 = lastHeader st" using mf by simp
  have L4: "lists_ok st4 fl"
    by (rule tag_lists[OF R' seg T4 mem1 mem]) (simp_all add: f_def)
  from remove_ok[OF L4 N i1 pin] obtain st5 where
    run2: "removeFreeBlock st4 (of_nat p1) (int i1) = Inr st5"
    and L5: "lists_ok st5 fl1"
    and F5: "frame st4 st5 (links (set (fl i1) - {p1}))"
    and lh5: "lastHeader st5 = lastHeader st4" unfolding fl1_def by blast
  define st7 where "st7 = (if post \<noteq> [] then setPrevFree st5 (of_nat e)
                            else st5\<lparr>lastHeader := of_nat ap\<rparr>)"
  have lhe: "(of_nat a \<noteq> lastHeader st5) = (post \<noteq> [])"
    using last_header_eq[OF R2] lh5 lh4 by auto
  have run: "free st (of_nat (a + 8)) = addFreeBlock st7 (of_nat (ap + 8)) (int (bin_of ns))"
  proof -
    have c1: "(post \<noteq> [] \<and> isFree st (of_nat (a + 8 + sz))) = False" using nf by simp
    have c2: "(\<not> last_alloc True (pre @ [(ap, sp, False)])) = True" by simp
    have "coalesce_prev st (of_nat a) (of_nat (a + sz)) (of_nat (a + 8 + sz)) (of_nat (a - 8)) =
            Inr (st7, of_nat (ap + 8), int (bin_of ns))"
      unfolding coalesce_prev_def Let_def gsf ph gs1 gsa ix1 sum ixn pl1 nav_payload
      unfolding st1_def[unfolded f_def, symmetric] st2_def[symmetric] st3_def[symmetric]
        st4_def[unfolded f_def, symmetric] run2
      by (simp add: lhe st7_def e_def)
    then show ?thesis unfolding free_enter[OF R2] c1 c2 by simp
  qed
  have e8: "8 dvd e" "e + 8 \<le> 2 ^ 64" if "post \<noteq> []"
  proof -
    from that obtain b2 post' where po: "post = b2 # post'" by (cases post) auto
    obtain x2 s2 l2 where b2: "b2 = (x2, s2, l2)" by (cases b2)
    from mid(2) have "x2 = e" unfolding po b2 e_def by simp
    then have "(e, s2, l2) \<in> set bs" by (simp add: bs_def po b2)
    from repr_block[OF R' this] show "8 dvd e" "e + 8 \<le> 2 ^ 64" by simp_all
  qed
  have m7: "modw st5 e (\<lambda>w. w AND 0xFFFFFFFFFFFFFFFD) st7" if "post \<noteq> []"
    using modw_setPrevFree[OF e8[OF that], of st5] that by (simp add: st7_def)
  have "\<exists>st'. addFreeBlock st7 (of_nat (ap + 8)) (int (bin_of ns)) = Inr st' \<and>
           repr st' (pre @ (ap, ns, False) # post) (fl1(bin_of ns := (ap + 8) # fl1 (bin_of ns))) \<and>
           heap_lo st' = heap_lo st \<and> heap_brk st' = heap_brk st \<and> heap_max st' = heap_max st"
  proof (rule merge_finish[where mid="[(ap, sp, False), (a, sz, True)]" and e=e and ?st4.0=st4 and ?st6.0=st5])
    show "repr st (pre @ [(ap, sp, False), (a, sz, True)] @ post) fl" using R by simp
    show "chain (unat (heap_lo st) + 8) pre ap" by (rule mid1(1))
    show "chain ap [(ap, sp, False), (a, sz, True)] e" using blk blk1 by (simp add: e_def a)
    show "[(ap, sp, False), (a, sz, True)] \<noteq> []" by simp
    show "last_alloc True pre" by (rule pa)
    show "\<And>a2 s2 l2 post'. post = (a2, s2, l2) # post' \<Longrightarrow> l2" by (rule nl)
    show "ns = e - ap - 8" by (rule nse)
    show "heap_lo st4 = heap_lo st" "heap_brk st4 = heap_brk st" "heap_max st4 = heap_max st"
      using mf by simp_all
    show "W (mem st4) ap = hdr ns False True" by (rule T2)
    show "W (mem st4) (e - 8) AND 0xFFFFFFFFFFFFFFF8 = of_nat ns" using T3 by (simp add: e_def f_def)
    show "\<And>x. 8 dvd x \<Longrightarrow> x + 8 \<le> 2 ^ 64 \<Longrightarrow> x \<noteq> ap \<Longrightarrow> x \<noteq> e - 8 \<Longrightarrow> W (mem st4) x = W (mem st) x"
      using T4 by (simp add: e_def f_def)
    show "lists_ok st5 fl1" by (rule L5)
    show "frame st4 st5 (links {q. \<exists>i<15. q \<in> set (fl i)})"
      by (rule frame_mono[OF F5]) (use i1 in \<open>auto simp: in_links\<close>)
    show "\<forall>i<15. distinct (fl1 i) \<and> set (fl1 i) = set (free_nodes (pre @ post) i)"
    proof (intro allI impI)
      fix i :: nat assume i: "i < 15"
      have d: "distinct (fl i)" and s: "set (fl i) = set (free_nodes bs i)" using S i by simp_all
      have np: "p1 \<notin> set (free_nodes pre i)"
        using node_not_in_segment(1)[OF mid1(1), of p1 i] by (auto simp: p1_def)
      have nq: "p1 \<notin> set (free_nodes post i)"
        using node_not_in_segment(2)[OF mid(2), of p1 i] a by (auto simp: p1_def)
      show "distinct (fl1 i) \<and> set (fl1 i) = set (free_nodes (pre @ post) i)"
      proof (cases "i = i1")
        case True
        then show ?thesis using d s np nq
          by (auto simp: fl1_def bs_def free_nodes_append free_nodes_Cons i1_def p1_def)
      next
        case False
        then show ?thesis using d s
          by (auto simp: fl1_def bs_def free_nodes_append free_nodes_Cons i1_def)
      qed
    qed
    show "heap_lo st7 = heap_lo st5" "heap_brk st7 = heap_brk st5" "heap_max st7 = heap_max st5"
      "segFreeList st7 = segFreeList st5"
      using modw_fields[OF m7] by (cases "post = []"; simp add: st7_def)+
    show "lastHeader st7 = of_nat (if post = [] then ap else fst (last post))"
    proof (cases "post = []")
      case True
      then show ?thesis by (simp add: st7_def)
    next
      case False
      then show ?thesis using modw_fields(5)[OF m7[OF False]] lh5 lh4 R by (simp add: repr_def)
    qed
    show "W (mem st7) x = W (mem st5) x" if "8 dvd x" "x + 8 \<le> 2 ^ 64" "x \<noteq> e" for x
    proof (cases "post = []")
      case True
      then show ?thesis by (simp add: st7_def)
    next
      case False
      then show ?thesis using that by (simp add: modw_W[OF m7[OF False]])
    qed
    show "post \<noteq> [] \<Longrightarrow> W (mem st7) e =
        (if last_alloc True [(ap, sp, False), (a, sz, True)] then W (mem st5) e AND 0xFFFFFFFFFFFFFFFD
         else W (mem st5) e)"
      using e8 by (simp add: modw_W[OF m7] last_alloc_def)
  qed
  then show ?thesis unfolding run ns_def fl1_def i1_def p1_def .
qed

section \<open>free: both neighbours are free\<close>

lemma links_mono: "S \<subseteq> T \<Longrightarrow> links S \<subseteq> links T"
  by (auto simp: links_def)

lemma free_both:
  assumes R: "repr st (pre @ (ap, sp, False) # (a, sz, True) # (a2, s2, False) # post) fl"
  shows "\<exists>st'. free st (of_nat (a + 8)) = Inr st' \<and>
           repr st' (pre @ (ap, sp + sz + s2 + 16, False) # post)
             ((fl(bin_of sp := remove1 (ap + 8) (fl (bin_of sp)),
                  bin_of s2 := remove1 (a2 + 8) ((fl(bin_of sp := remove1 (ap + 8) (fl (bin_of sp)))) (bin_of s2))))
                (bin_of (sp + sz + s2 + 16) :=
                   (ap + 8) # (fl(bin_of sp := remove1 (ap + 8) (fl (bin_of sp)),
                      bin_of s2 := remove1 (a2 + 8) ((fl(bin_of sp := remove1 (ap + 8) (fl (bin_of sp)))) (bin_of s2))))
                     (bin_of (sp + sz + s2 + 16)))) \<and>
           heap_lo st' = heap_lo st \<and> heap_brk st' = heap_brk st \<and> heap_max st' = heap_max st"
proof -
  define bs where "bs = pre @ (ap, sp, False) # (a, sz, True) # (a2, s2, False) # post"
  define e where "e = a2 + 8 + s2"
  define f where "f = a2 + s2"
  define ns where "ns = sp + sz + s2 + 16"
  define i1 where "i1 = bin_of sp"
  define p1 where "p1 = ap + 8"
  define i2 where "i2 = bin_of s2"
  define p2 where "p2 = a2 + 8"
  define fl1 where "fl1 = fl(i1 := remove1 p1 (fl i1))"
  define fl2 where "fl2 = fl1(i2 := remove1 p2 (fl1 i2))"
  note R' = R[folded bs_def]
  have R2: "repr st ((pre @ [(ap, sp, False)]) @ (a, sz, True) # (a2, s2, False) # post) fl"
    using R by simp
  have R3: "repr st ((pre @ [(ap, sp, False), (a, sz, True)]) @ (a2, s2, False) # post) fl"
    using R by simp
  have mem: "(a, sz, True) \<in> set bs" and mem1: "(ap, sp, False) \<in> set bs"
    and mem2: "(a2, s2, False) \<in> set bs" by (simp_all add: bs_def)
  note blk = repr_block[OF R' mem]
  note blk1 = repr_block[OF R' mem1]
  note blk2 = repr_block[OF R' mem2]
  note mid1 = repr_mid[OF R]
  note mid = repr_mid[OF R2]
  note mid2 = repr_mid[OF R3]
  have a: "a = ap + 8 + sp" using mid1(2) by simp
  have a2: "a2 = a + 8 + sz" using mid(2) by simp
  have pa: "last_alloc True pre" using mid1(4) by simp
  have S: "\<forall>i<15. distinct (fl i) \<and> set (fl i) = set (free_nodes bs i)"
    using R' by (simp add: repr_def)
  have N: "nodes_ok fl" using repr_nodes_ok[OF R] .
  have i1: "i1 < 15" and pin1: "p1 \<in> set (fl i1)"
    using repr_free_block[OF R' mem1] by (simp_all add: i1_def p1_def)
  have i2: "i2 < 15" and pin2: "p2 \<in> set (fl i2)"
    using repr_free_block[OF R' mem2] by (simp_all add: i2_def p2_def)
  have p12: "p1 \<noteq> p2" using a a2 by (simp add: p1_def p2_def)
  have s8: "8 dvd ap" "ap + 8 \<le> 2 ^ 64" using blk1 by simp_all
  have f8: "8 dvd f" "f + 8 \<le> 2 ^ 64" using blk2 by (simp_all add: f_def)
  have ns8: "8 dvd ns" "24 \<le> ns" "ns < 2 ^ 64"
    using blk(7) blk1(7) blk2(7,8) blk(3) a a2 by (simp_all add: ns_def)
  have nse: "ns = e - ap - 8" by (simp add: ns_def e_def a a2)
  \<comment> \<open>reading the tags\<close>
  have pf: "a - 8 = ap + sp" by (simp add: a)
  have gsa: "getBlockSize st (of_nat a) = of_nat sz" using decode(1)[OF mid(3) blk(7)] .
  have gs1: "getBlockSize st (of_nat ap) = of_nat sp" using decode(1)[OF mid1(3) blk1(7)] .
  have gs2: "getBlockSize st (of_nat a2) = of_nat s2" using decode(1)[OF mid2(3) blk2(7)] .
  have if2: "isFree st (of_nat a2)" using decode(2)[OF mid2(3) blk2(7)] by simp
  have gsf: "getBlockSize st (of_nat (a - 8)) = of_nat sp"
    unfolding footer_size pf using mid1(5) by simp
  have ph: "getPrevHeader (of_nat a) (of_nat sp) = of_nat ap"
    using nav_prev[of sp a] blk1(7,8) a by simp
  have ft2: "getFooter (of_nat a2) (of_nat s2) = of_nat f"
    unfolding f_def using blk2 by (intro nav_footer) simp_all
  have ix1: "getFreeListIndex (of_nat sp) = int i1"
    unfolding i1_def using bin_of_valid(2)[of sp] blk1 by simp
  have ix2: "getFreeListIndex (of_nat s2) = int i2"
    unfolding i2_def using bin_of_valid(2)[of s2] blk2 by simp
  have ixn: "getFreeListIndex (of_nat ns) = int (bin_of ns)"
    using bin_of_valid(2)[OF ns8(2,3)] .
  have sum: "(of_nat sp :: 64 word) + of_nat sz + of_nat s2 + 2 * 8 = of_nat ns" by (simp add: ns_def)
  have pl1: "(of_nat ap :: 64 word) + 8 * get8ByteAlignment 8 = of_nat p1"
    by (simp add: mul8_div8 p1_def)
  have pl2: "(of_nat a2 :: 64 word) + 8 * get8ByteAlignment 8 = of_nat p2"
    by (simp add: mul8_div8 p2_def)
  \<comment> \<open>the tag writes\<close>
  define st1 where "st1 = setBlockSize st (of_nat ap) (of_nat ns)"
  define st2 where "st2 = setBlockSize st1 (of_nat f) (of_nat ns)"
  define st3 where "st3 = setFree st2 (of_nat ap)"
  define st4 where "st4 = setFree st3 (of_nat f)"
  have m1: "modw st ap (\<lambda>w. (w AND 7) OR of_nat ns) st1" unfolding st1_def by (rule modw_setBlockSize[OF s8])
  have m2: "modw st1 f (\<lambda>w. (w AND 7) OR of_nat ns) st2" unfolding st2_def by (rule modw_setBlockSize[OF f8])
  have m3: "modw st2 ap (\<lambda>w. w AND 0xFFFFFFFFFFFFFFFE) st3" unfolding st3_def by (rule modw_setFree[OF s8])
  have m4: "modw st3 f (\<lambda>w. w AND 0xFFFFFFFFFFFFFFFE) st4" unfolding st4_def by (rule modw_setFree[OF f8])
  note mf = modw_fields[OF m1] modw_fields[OF m2] modw_fields[OF m3] modw_fields[OF m4]
  have af: "ap \<noteq> f" using a a2 by (simp add: f_def)
  have T2: "W (mem st4) ap = hdr ns False True"
    using mid1(3) pa af hdr_set_size[OF of_nat_and7[OF blk1(7)], of False True ns]
      hdr_set_free[OF of_nat_and7[OF ns8(1)], of False True]
    by (simp add: modw_W[OF m4 s8] modw_W[OF m3 s8] modw_W[OF m2 s8] modw_W[OF m1 s8])
  have T3: "W (mem st4) f AND 0xFFFFFFFFFFFFFFF8 = of_nat ns"
    using af ftr_compose[OF ns8(1)]
    by (simp add: modw_W[OF m4 f8] modw_W[OF m3 f8] modw_W[OF m2 f8] modw_W[OF m1 f8])
  have T4: "W (mem st4) x = W (mem st) x" if "8 dvd x" "x + 8 \<le> 2 ^ 64" "x \<noteq> ap" "x \<noteq> f" for x
    using that by (simp add: modw_W[OF m4] modw_W[OF m3] modw_W[OF m2] modw_W[OF m1])
  have seg: "segFreeList st4 = segFreeList st" using mf by simp
  have lh4: "lastHeader st4 = lastHeader st" using mf by simp
  have L4: "lists_ok st4 fl"
    by (rule tag_lists[OF R' seg T4 mem1 mem2]) (simp_all add: f_def)
  from remove_ok[OF L4 N i1 pin1] obtain st5 where
    run5: "removeFreeBlock st4 (of_nat p1) (int i1) = Inr st5"
    and L5: "lists_ok st5 fl1"
    and F5: "frame st4 st5 (links (set (fl i1) - {p1}))"
    and lh5: "lastHeader st5 = lastHeader st4" unfolding fl1_def by blast
  have sub1: "\<forall>i<15. distinct (fl1 i) \<and> set (fl1 i) \<subseteq> set (fl i)"
    using S by (auto simp: fl1_def)
  have N1: "nodes_ok fl1" using nodes_ok_sub[OF N sub1] .
  have pin2': "p2 \<in> set (fl1 i2)" using pin2 p12 by (auto simp: fl1_def)
  from remove_ok[OF L5 N1 i2 pin2'] obtain st6 where
    run6: "removeFreeBlock st5 (of_nat p2) (int i2) = Inr st6"
    and L6: "lists_ok st6 fl2"
    and F6: "frame st5 st6 (links (set (fl1 i2) - {p2}))"
    and lh6: "lastHeader st6 = lastHeader st5" unfolding fl2_def by blast
  define st7 where "st7 = (if post = [] then st6\<lparr>lastHeader := of_nat ap\<rparr> else st6)"
  have lhe: "(of_nat a2 = lastHeader st6) = (post = [])"
    using last_header_eq[OF R3] lh6 lh5 lh4 by auto
  have run: "free st (of_nat (a + 8)) = addFreeBlock st7 (of_nat (ap + 8)) (int (bin_of ns))"
  proof -
    have c1: "isFree st (of_nat (a + 8 + sz))" using if2 by (simp add: a2)
    have "coalesce_both st (of_nat a) (of_nat a2) (of_nat (a - 8)) =
            Inr (st7, of_nat (ap + 8), int (bin_of ns))"
      unfolding coalesce_both_def Let_def gsf ph gs2 ft2 gs1 gsa ix1 ix2 sum ixn pl1 pl2 nav_payload
      unfolding st1_def[symmetric] st2_def[symmetric] st3_def[symmetric] st4_def[symmetric] run5
      by (simp add: run6 lhe st7_def)
    then show ?thesis unfolding free_enter[OF R2] using c1 by (simp add: a2)
  qed
  have "\<exists>st'. addFreeBlock st7 (of_nat (ap + 8)) (int (bin_of ns)) = Inr st' \<and>
           repr st' (pre @ (ap, ns, False) # post) (fl2(bin_of ns := (ap + 8) # fl2 (bin_of ns))) \<and>
           heap_lo st' = heap_lo st \<and> heap_brk st' = heap_brk st \<and> heap_max st' = heap_max st"
  proof (rule merge_finish[where mid="[(ap, sp, False), (a, sz, True), (a2, s2, False)]"
        and e=e and ?st4.0=st4 and ?st6.0=st6])
    show "repr st (pre @ [(ap, sp, False), (a, sz, True), (a2, s2, False)] @ post) fl" using R by simp
    show "chain (unat (heap_lo st) + 8) pre ap" by (rule mid1(1))
    show "chain ap [(ap, sp, False), (a, sz, True), (a2, s2, False)] e"
      using blk blk1 blk2 by (simp add: e_def a a2)
    show "[(ap, sp, False), (a, sz, True), (a2, s2, False)] \<noteq> []" by simp
    show "last_alloc True pre" by (rule pa)
    show "l3" if "post = (a3, s3, l3) # post'" for a3 s3 l3 post'
      using repr_mid(4)[of st "pre @ [(ap, sp, False), (a, sz, True), (a2, s2, False)]" a3 s3 l3 post' fl] R that
      by (simp add: last_alloc_def)
    show "ns = e - ap - 8" by (rule nse)
    show "heap_lo st4 = heap_lo st" "heap_brk st4 = heap_brk st" "heap_max st4 = heap_max st"
      using mf by simp_all
    show "W (mem st4) ap = hdr ns False True" by (rule T2)
    show "W (mem st4) (e - 8) AND 0xFFFFFFFFFFFFFFF8 = of_nat ns" using T3 by (simp add: e_def f_def)
    show "\<And>x. 8 dvd x \<Longrightarrow> x + 8 \<le> 2 ^ 64 \<Longrightarrow> x \<noteq> ap \<Longrightarrow> x \<noteq> e - 8 \<Longrightarrow> W (mem st4) x = W (mem st) x"
      using T4 by (simp add: e_def f_def)
    show "lists_ok st6 fl2" by (rule L6)
    show "frame st4 st6 (links {q. \<exists>i<15. q \<in> set (fl i)})"
    proof (rule frame_mono[OF frame_trans[OF F5 F6]])
      have "set (fl1 i2) \<subseteq> set (fl i2)" using sub1 i2 by simp
      then have "set (fl1 i2) - {p2} \<subseteq> {q. \<exists>i<15. q \<in> set (fl i)}" using i2 by blast
      moreover have "set (fl i1) - {p1} \<subseteq> {q. \<exists>i<15. q \<in> set (fl i)}" using i1 by blast
      ultimately show "links (set (fl i1) - {p1}) \<union> links (set (fl1 i2) - {p2})
            \<subseteq> links {q. \<exists>i<15. q \<in> set (fl i)}"
        using links_mono by blast
    qed
    show "\<forall>i<15. distinct (fl2 i) \<and> set (fl2 i) = set (free_nodes (pre @ post) i)"
    proof (intro allI impI)
      fix i :: nat assume i: "i < 15"
      have d: "distinct (fl i)" and s: "set (fl i) = set (free_nodes bs i)" using S i by simp_all
      have np: "p1 \<notin> set (free_nodes pre i)" "p2 \<notin> set (free_nodes pre i)"
        using node_not_in_segment(1)[OF mid1(1), of p1 i] node_not_in_segment(1)[OF mid1(1), of p2 i] a a2
        by (auto simp: p1_def p2_def)
      have nq: "p1 \<notin> set (free_nodes post i)" "p2 \<notin> set (free_nodes post i)"
        using node_not_in_segment(2)[OF mid2(2), of p1 i] node_not_in_segment(2)[OF mid2(2), of p2 i] a a2
        by (auto simp: p1_def p2_def)
      have d1: "distinct (fl1 i)" and s1: "set (fl1 i) = set (fl i) - (if i = i1 then {p1} else {})"
        using d by (auto simp: fl1_def)
      have d2: "distinct (fl2 i)" and s2: "set (fl2 i) = set (fl1 i) - (if i = i2 then {p2} else {})"
        using d1 by (auto simp: fl2_def)
      have fn: "set (free_nodes bs i) = set (free_nodes pre i) \<union> (if i = i1 then {p1} else {})
                  \<union> (if i = i2 then {p2} else {}) \<union> set (free_nodes post i)"
        by (auto simp: bs_def free_nodes_append free_nodes_Cons i1_def i2_def p1_def p2_def)
      show "distinct (fl2 i) \<and> set (fl2 i) = set (free_nodes (pre @ post) i)"
        unfolding s2 s1 s fn using d2 np nq p12 by (auto simp: free_nodes_append)
    qed
    show "heap_lo st7 = heap_lo st6" "heap_brk st7 = heap_brk st6" "heap_max st7 = heap_max st6"
      "segFreeList st7 = segFreeList st6"
      by (simp_all add: st7_def)
    show "lastHeader st7 = of_nat (if post = [] then ap else fst (last post))"
      using lh6 lh5 lh4 R by (simp add: st7_def repr_def)
    show "\<And>x. 8 dvd x \<Longrightarrow> x + 8 \<le> 2 ^ 64 \<Longrightarrow> x \<noteq> e \<Longrightarrow> W (mem st7) x = W (mem st6) x"
      by (simp add: st7_def)
    show "post \<noteq> [] \<Longrightarrow> W (mem st7) e =
        (if last_alloc True [(ap, sp, False), (a, sz, True), (a2, s2, False)]
         then W (mem st6) e AND 0xFFFFFFFFFFFFFFFD else W (mem st6) e)"
      by (simp add: st7_def last_alloc_def)
  qed
  then show ?thesis unfolding run ns_def fl2_def fl1_def i1_def p1_def i2_def p2_def .
qed

section \<open>Size classes are monotone\<close>

lemma bin_of_nat:
  assumes "24 \<le> sz" "sz < 2 ^ 64"
  shows "bin_of sz = bin_nat ((sz - 8) div 16)"
proof -
  define w :: "64 word" where "w = of_nat sz"
  define k where "k = (w - 8) div 16"
  define m where "m = (sz - 8) div 16"
  have uw: "unat w = sz" unfolding w_def using assms(2) by (rule unat_of_nat64)
  have "unat (w - 8) = unat w - 8" using assms uw by (simp add: unat_sub word_le_nat_alt)
  then have uk: "unat k = m" by (simp add: k_def m_def unat_div uw)
  have m1: "1 \<le> m" unfolding m_def using assms(1) by simp
  have k1: "1 \<le> k" using m1 uk by (simp add: word_le_nat_alt)
  have le: "(k \<le> 4) = (m \<le> 4)" "(k \<le> 6) = (m \<le> 6)" "(k \<le> 8) = (m \<le> 8)" "(k \<le> 16) = (m \<le> 16)"
    "(k \<le> 32) = (m \<le> 32)" "(k \<le> 64) = (m \<le> 64)" "(k \<le> 128) = (m \<le> 128)"
    "(k \<le> 256) = (m \<le> 256)" "(k \<le> 512) = (m \<le> 512)" "(k \<le> 1024) = (m \<le> 1024)"
    "(k \<le> 2048) = (m \<le> 2048)"
    using uk by (simp_all add: word_le_nat_alt)
  have sm: "sint (ucast (k - 1) :: 32 word) = int m - 1" if "m \<le> 4"
  proof -
    have "k \<le> 4" using that le(1) by simp
    from small_index[OF k1 this] uk show ?thesis by (simp add: uint_nat)
  qed
  have "getFreeListIndex w = int (bin_nat m)"
    unfolding getFreeListIndex_def k_def[symmetric] Let_def le bin_nat_def
    using sm m1 by simp
  then show ?thesis unfolding bin_of_def w_def[symmetric] m_def by simp
qed

lemma bin_nat_mono: "m \<le> m' \<Longrightarrow> bin_nat m \<le> bin_nat m'"
  unfolding bin_nat_def by (auto split: if_splits)

lemma bin_mono:
  assumes "24 \<le> n" "n \<le> sz" "sz < 2 ^ 64"
  shows "bin_of n \<le> bin_of sz"
proof -
  have "(n - 8) div 16 \<le> (sz - 8) div 16" using assms(2) by (intro div_le_mono diff_le_mono)
  from bin_nat_mono[OF this] show ?thesis
    using bin_of_nat[of n] bin_of_nat[of sz] assms by simp
qed

lemma bin_small:
  assumes "24 \<le> sz" "sz < 2 ^ 64" "sz mod 16 = 8" "bin_of sz \<le> 3"
  shows "sz = 24 + 16 * bin_of sz"
proof -
  define m where "m = (sz - 8) div 16"
  obtain i where i: "sz = 16 * i + 8" using assms(3) by (metis mod_mult_div_eq add.commute)
  have mi: "m = i" unfolding m_def i by simp
  have b: "bin_of sz = bin_nat m" unfolding m_def by (rule bin_of_nat[OF assms(1,2)])
  have m1: "1 \<le> m" unfolding m_def using assms(1) by simp
  have "m \<le> 4" using assms(4) unfolding b bin_nat_def by (simp split: if_splits)
  then have "bin_of sz = m - 1" unfolding b bin_nat_def by simp
  then show ?thesis using m1 mi i by simp
qed

section \<open>The search finds a block that fits whenever there is one\<close>

lemma fit_skip:
  assumes R: "repr st bs fl" and post: "search_fit st bs n idx qs r"
    and blk: "(a, sz, False) \<in> set bs" "q = a + 8" and small: "\<not> n \<le> sz"
  shows "search_fit st bs n idx (q # qs) r"
proof -
  from R have c: "chain (unat (heap_lo st) + 8) bs (unat (heap_brk st))" by (simp add: repr_def)
  have "a' + 8 \<noteq> q" if "(a', sz', False) \<in> set bs" "n \<le> sz'" for a' sz'
  proof
    assume "a' + 8 = q"
    then have "a' = a" using blk(2) by simp
    with chain_addr_unique[OF c blk(1), of sz' False] that small show False by simp
  qed
  then show ?thesis using post unfolding search_fit_def by auto
qed

lemma fit_next:
  assumes R: "repr st bs fl" and post: "search_fit st bs n (Suc idx) (fl (Suc idx)) r"
    and cur: "\<forall>a sz. (a, sz, False) \<in> set bs \<and> n \<le> sz \<and> bin_of sz = idx \<longrightarrow> a + 8 \<notin> set ps"
  shows "search_fit st bs n idx ps r"
proof -
  have "bin_of sz < idx \<or> (bin_of sz = idx \<and> a + 8 \<notin> set ps)"
    if h: "(a, sz, False) \<in> set bs" "n \<le> sz"
      "bin_of sz < Suc idx \<or> (bin_of sz = Suc idx \<and> a + 8 \<notin> set (fl (Suc idx)))" for a sz
  proof -
    from repr_free_block(2)[OF R h(1)] h(3) have "bin_of sz < Suc idx" by auto
    then show ?thesis using cur h(1,2) by (cases "bin_of sz = idx") auto
  qed
  then show ?thesis using post unfolding search_fit_def by blast
qed

lemma search_complete:
  assumes R: "repr st bs fl" and n: "n < 2 ^ 64"
  shows "idx < 15 \<Longrightarrow> fl idx = xs @ ps \<Longrightarrow>
         \<exists>r. malloc_loop st (of_nat n) (int idx) (of_nat (head_or ps 0)) True = Some r \<and>
             search_fit st bs n idx ps r"
proof (induction "14 - idx" arbitrary: idx xs ps)
  case 0
  then have idx: "idx = 14" by simp
  from 0(3) show ?case
  proof (induction ps arbitrary: xs)
    case Nil
    have "bin_of sz < 14 \<or> bin_of sz = 14" if "(a, sz, False) \<in> set bs" for a sz
      using repr_free_block(1)[OF R that] by linarith
    then show ?case using loop_end[of st "of_nat n"] unfolding idx search_fit_def by auto
  next
    case (Cons q qs)
    have qin: "q \<in> set (fl idx)" using Cons.prems by simp
    have i15: "idx < 15" by (simp add: idx)
    from repr_node[OF R i15 qin] obtain a sz where blk: "(a, sz, False) \<in> set bs" "q = a + 8" "bin_of sz = idx" by blast
    note f = repr_block[OF R blk(1)]
    have qn: "node q" by (rule repr_node_is_node[OF R i15 qin])
    have q0: "(of_nat q :: 64 word) \<noteq> 0" by (rule of_nat_node_neq0[OF qn])
    obtain pre post where sp: "bs = pre @ (a, sz, False) # post" using blk(1) by (meson split_list)
    have hd: "W (mem st) a = hdr sz False (last_alloc True pre)" using repr_mid(3)[OF R[unfolded sp]] .
    have gs: "getBlockSize st (of_nat q - 8) = of_nat sz"
      using decode(1)[OF hd f(7)] by (simp add: blk(2))
    have "dlseg (mem st) 0 (fl idx) 0" using R i15 by (simp add: repr_def lists_ok_def)
    then have dl: "dlseg (mem st) 0 (xs @ q # qs) 0" unfolding Cons.prems .
    then have nx: "getNextFreeBlock st (of_nat q) = of_nat (head_or qs 0)"
      unfolding dlseg_append by (simp add: getNextFreeBlock_def rd_W)
    have le: "((of_nat n :: 64 word) \<le> of_nat sz) = (n \<le> sz)"
      using word_le_of_nat[OF n, of sz] f(8) by simp
    show ?case
    proof (cases "n \<le> sz")
      case True
      have "malloc_loop st (of_nat n) (int idx) (of_nat q) True =
            Some (place st (of_nat n) (int idx) (of_nat (a + 8)) (of_nat a) (of_nat sz))"
        using loop_node[OF q0, of st "of_nat n" idx] True le gs by (simp add: blk(2))
      then show ?thesis using True blk by (auto simp: search_fit_def)
    next
      case False
      have "malloc_loop st (of_nat n) (int idx) (of_nat q) True =
            malloc_loop st (of_nat n) (int idx) (of_nat (head_or qs 0)) True"
        using loop_node[OF q0, of st "of_nat n" idx] False le gs nx by (simp add: idx)
      moreover have "fl idx = (xs @ [q]) @ qs" using Cons.prems by simp
      ultimately obtain r where r: "malloc_loop st (of_nat n) (int idx) (of_nat q) True = Some r"
        "search_fit st bs n idx qs r" using Cons.IH[of "xs @ [q]"] by auto
      from fit_skip[OF R r(2) blk(1,2) False] r(1) show ?thesis by auto
    qed
  qed
next
  case (Suc k)
  then have idx: "idx < 14" by simp
  have i15: "idx < 15" using idx by simp
  have nextl: "\<exists>r. malloc_loop st (of_nat n) (int (Suc idx)) (segFreeList st (Suc idx)) True = Some r \<and>
             search_fit st bs n (Suc idx) (fl (Suc idx)) r"
  proof -
    have "segFreeList st (Suc idx) = of_nat (head_or (fl (Suc idx)) 0)"
      using R idx by (simp add: repr_def lists_ok_def)
    moreover have "k = 14 - Suc idx" using Suc(2) by simp
    ultimately show ?thesis using Suc(1)[of "Suc idx" "[]" "fl (Suc idx)"] idx by simp
  qed
  from Suc(4) show ?case
  proof (induction ps arbitrary: xs)
    case Nil
    from nextl obtain r where r: "malloc_loop st (of_nat n) (int (Suc idx)) (segFreeList st (Suc idx)) True = Some r"
      "search_fit st bs n (Suc idx) (fl (Suc idx)) r" by blast
    have "search_fit st bs n idx [] r" by (rule fit_next[OF R r(2)]) simp
    then show ?case using loop_next_list[OF idx, of st "of_nat n"] r(1) by simp
  next
    case (Cons q qs)
    have qin: "q \<in> set (fl idx)" using Cons.prems by simp
    from repr_node[OF R i15 qin] obtain a sz where blk: "(a, sz, False) \<in> set bs" "q = a + 8" "bin_of sz = idx" by blast
    note f = repr_block[OF R blk(1)]
    have qn: "node q" by (rule repr_node_is_node[OF R i15 qin])
    have q0: "(of_nat q :: 64 word) \<noteq> 0" by (rule of_nat_node_neq0[OF qn])
    obtain pre post where sp: "bs = pre @ (a, sz, False) # post" using blk(1) by (meson split_list)
    have hd: "W (mem st) a = hdr sz False (last_alloc True pre)" using repr_mid(3)[OF R[unfolded sp]] .
    have gs: "getBlockSize st (of_nat q - 8) = of_nat sz"
      using decode(1)[OF hd f(7)] by (simp add: blk(2))
    have "dlseg (mem st) 0 (fl idx) 0" using R i15 by (simp add: repr_def lists_ok_def)
    then have dl: "dlseg (mem st) 0 (xs @ q # qs) 0" unfolding Cons.prems .
    then have nx: "getNextFreeBlock st (of_nat q) = of_nat (head_or qs 0)"
      unfolding dlseg_append by (simp add: getNextFreeBlock_def rd_W)
    have le: "((of_nat n :: 64 word) \<le> of_nat sz) = (n \<le> sz)"
      using word_le_of_nat[OF n, of sz] f(8) by simp
    show ?case
    proof (cases "n \<le> sz")
      case True
      have "malloc_loop st (of_nat n) (int idx) (of_nat q) True =
            Some (place st (of_nat n) (int idx) (of_nat (a + 8)) (of_nat a) (of_nat sz))"
        using loop_node[OF q0, of st "of_nat n" idx] True le gs by (simp add: blk(2))
      then show ?thesis using True blk by (auto simp: search_fit_def)
    next
      case False
      show ?thesis
      proof (cases "idx \<le> 3")
        case True
        have "malloc_loop st (of_nat n) (int idx) (of_nat q) True =
              malloc_loop st (of_nat n) (int (Suc idx)) (segFreeList st (Suc idx)) True"
          using loop_node[OF q0, of st "of_nat n" idx] False le gs True by simp
        moreover from nextl obtain r where r: "malloc_loop st (of_nat n) (int (Suc idx)) (segFreeList st (Suc idx)) True = Some r"
          "search_fit st bs n (Suc idx) (fl (Suc idx)) r" by blast
        moreover have "search_fit st bs n idx (q # qs) r"
        proof (rule fit_next[OF R r(2)], intro allI impI)
          fix a' sz' assume h: "(a', sz', False) \<in> set bs \<and> n \<le> sz' \<and> bin_of sz' = idx"
          note f' = repr_block[OF R conjunct1[OF h]]
          have "sz' = 24 + 16 * bin_of sz'" using bin_small[of sz'] f' h True by simp
          moreover have "sz = 24 + 16 * bin_of sz" using bin_small[of sz] f blk(3) True by simp
          ultimately have "sz' = sz" using h blk(3) by simp
          with h False show "a' + 8 \<notin> set (q # qs)" by simp
        qed
        ultimately show ?thesis by simp
      next
        case F3: False
        have "malloc_loop st (of_nat n) (int idx) (of_nat q) True =
              malloc_loop st (of_nat n) (int idx) (of_nat (head_or qs 0)) True"
          using loop_node[OF q0, of st "of_nat n" idx] False le gs nx F3 by simp
        moreover have "fl idx = (xs @ [q]) @ qs" using Cons.prems by simp
        ultimately obtain r where r: "malloc_loop st (of_nat n) (int idx) (of_nat q) True = Some r"
          "search_fit st bs n idx qs r" using Cons.IH[of "xs @ [q]"] by auto
        from fit_skip[OF R r(2) blk(1,2) False] r(1) show ?thesis by auto
      qed
    qed
  qed
qed

section \<open>malloc and free on a well-formed heap\<close>

lemma norm_size:
  assumes "s \<le> 0xFFFFFFFFFFFFFFE8"
  shows "24 \<le> unat (newAlign s)" "unat (newAlign s) mod 16 = 8" "unat (newAlign s) + 8 < 2 ^ 64"
    "unat s \<le> unat (newAlign s)"
proof -
  have le: "unat s \<le> 18446744073709551592" using assms by (simp add: word_le_nat_alt)
  have s8: "s \<le> 0xFFFFFFFFFFFFFFF8" using assms by (simp add: word_le_nat_alt)
  note u = unat_newAlign[OF s8]
  define q where "q = (unat s - 9) div 16"
  have "q \<le> (18446744073709551592 - 9) div 16"
    unfolding q_def using le by (intro div_le_mono diff_le_mono)
  then have q: "16 * q + 24 + 8 < 18446744073709551616" by simp
  have n: "unat (newAlign s) = (if unat s \<le> 24 then 24 else 16 * q + 24)"
    using u by (simp add: q_def)
  show "24 \<le> unat (newAlign s)" unfolding n by simp
  show "unat (newAlign s) mod 16 = 8" unfolding n by simp
  show "unat (newAlign s) + 8 < 2 ^ 64" unfolding n using q by simp
  show "unat s \<le> unat (newAlign s)"
    using newAlign_nat_props(2)[of "unat s"] unfolding n q_def by simp
qed

lemma getPayload_plus: "getPayload h = h + 8"
  by (simp add: getPayload_def mul8_div8)

lemma malloc_spec:
  assumes R: "repr st bs fl" and s: "s \<noteq> 0" "s \<le> 0xFFFFFFFFFFFFFFE8"
  shows "\<exists>p st'. malloc st s = Some (Inr (p, st')) \<and>
           malloc_post st bs fl (unat (newAlign s)) p st' \<and>
           heap_lo st' = heap_lo st \<and> heap_max st' = heap_max st"
proof -
  define n where "n = unat (newAlign s)"
  note ns = norm_size[OF s(2), folded n_def]
  have nn: "of_nat n = newAlign s" by (simp add: n_def)
  have nl: "n < 2 ^ 64" using ns(3) by simp
  define idx where "idx = bin_of n"
  have idx: "idx < 15" and gi: "getFreeListIndex (of_nat n) = int idx"
    using bin_of_valid[OF ns(1) nl] by (simp_all add: idx_def)
  have hd: "segFreeList st idx = of_nat (head_or (fl idx) 0)"
    using R idx by (simp add: repr_def lists_ok_def)
  have run: "malloc st s = malloc_loop st (of_nat n) (int idx) (of_nat (head_or (fl idx) 0)) True"
    unfolding malloc_def Let_def nn[symmetric] gi using s(1) idx by (simp add: hd)
  from search_complete[OF R nl idx, of "[]" "fl idx"] obtain r where
    r: "malloc_loop st (of_nat n) (int idx) (of_nat (head_or (fl idx) 0)) True = Some r"
    and post: "search_fit st bs n idx (fl idx) r" by auto
  from post show ?thesis unfolding search_fit_def
  proof (elim disjE conjE exE)
    assume ext: "r = (case extendHeap st (of_nat n) of (h, st1) \<Rightarrow> Inr (getPayload h, st1))"
      and none: "\<forall>a sz. (a, sz, False) \<in> set bs \<and> n \<le> sz \<longrightarrow>
                   bin_of sz < idx \<or> bin_of sz = idx \<and> a + 8 \<notin> set (fl idx)"
    have nofit: "\<not> fits bs n"
    proof
      assume "fits bs n"
      then obtain a sz where b: "(a, sz, False) \<in> set bs" "n \<le> sz" unfolding fits_def by auto
      note f = repr_block[OF R b(1)]
      have "idx \<le> bin_of sz" unfolding idx_def using bin_mono[OF ns(1) b(2)] f(8) by simp
      moreover have "a + 8 \<in> set (fl (bin_of sz))" using repr_free_block(2)[OF R b(1)] .
      moreover from none b have "bin_of sz < idx \<or> bin_of sz = idx \<and> a + 8 \<notin> set (fl idx)"
        by blast
      ultimately show False by auto
    qed
    show ?thesis
    proof (cases "unat (heap_brk st) + (8 + n) \<le> unat (heap_max st)")
      case True
      from extend_ok[OF R ns(1,2,3) True] obtain st' where
        e: "extendHeap st (of_nat n) = (heap_brk st, st')"
        and R': "repr st' (bs @ [(unat (heap_brk st), n, True)]) fl"
        and fields: "heap_lo st' = heap_lo st" "heap_max st' = heap_max st" by blast
      have "malloc st s = Some (Inr (heap_brk st + 8, st'))"
        unfolding run r ext e by (simp add: getPayload_plus)
      then show ?thesis using R' fields nofit True
        by (simp add: malloc_post_def n_def[symmetric])
    next
      case False
      have "malloc st s = Some (Inr (8, st))"
        unfolding run r ext extend_fail[OF ns(3) False] by (simp add: getPayload_plus)
      then show ?thesis using nofit False
        by (simp add: malloc_post_def n_def[symmetric])
    qed
  next
    fix a sz
    assume b: "(a, sz, False) \<in> set bs" "n \<le> sz"
      and pl: "r = place st (of_nat n) (int (bin_of sz)) (of_nat (a + 8)) (of_nat a) (of_nat sz)"
    have fit: "fits bs n" unfolding fits_def using b by auto
    obtain pre post where sp: "bs = pre @ (a, sz, False) # post" using b(1) by (meson split_list)
    note Rs = R[unfolded sp]
    show ?thesis
    proof (cases "32 \<le> sz - n")
      case True
      then have "n + 32 \<le> sz" using b(2) by simp
      from place_split[OF Rs ns(1,2) this] obtain st' where
        p: "place st (of_nat n) (int (bin_of sz)) (of_nat (a + 8)) (of_nat a) (of_nat sz) = Inr (of_nat (a + 8), st')"
        and R': "repr st' (pre @ [(a, n, True), (a + 8 + n, sz - n - 8, False)] @ post) (split_lists fl a sz n)"
        and fields: "heap_lo st' = heap_lo st" "heap_brk st' = heap_brk st" "heap_max st' = heap_max st"
        unfolding split_lists_def by blast
      have m: "malloc st s = Some (Inr (of_nat (a + 8), st'))" unfolding run r pl p ..
      have "malloc_post st bs fl n (of_nat (a + 8)) st'"
        unfolding malloc_post_def using fit sp b(2) True R' fields(2) by auto
      then show ?thesis using m fields by (auto simp: n_def)
    next
      case False
      then have "sz - n < 32" by simp
      from place_nosplit[OF Rs b(2) this] obtain st' where
        p: "place st (of_nat n) (int (bin_of sz)) (of_nat (a + 8)) (of_nat a) (of_nat sz) = Inr (of_nat (a + 8), st')"
        and R': "repr st' (pre @ (a, sz, True) # post) (fl(bin_of sz := remove1 (a + 8) (fl (bin_of sz))))"
        and fields: "heap_lo st' = heap_lo st" "heap_brk st' = heap_brk st" "heap_max st' = heap_max st"
        by blast
      have m: "malloc st s = Some (Inr (of_nat (a + 8), st'))" unfolding run r pl p ..
      have "malloc_post st bs fl n (of_nat (a + 8)) st'"
        unfolding malloc_post_def using fit sp b(2) False R' fields(2) by auto
      then show ?thesis using m fields by (auto simp: n_def)
    qed
  qed
qed

lemma free_spec:
  assumes R: "repr st bs fl" and m: "(a, sz, True) \<in> set bs"
  shows "\<exists>st' bs' fl' a' sz'. free st (of_nat (a + 8)) = Inr st' \<and> repr st' bs' fl' \<and>
           (a', sz', False) \<in> set bs' \<and> a' \<le> a \<and> a + sz \<le> a' + sz' \<and>
           heap_lo st' = heap_lo st \<and> heap_brk st' = heap_brk st \<and> heap_max st' = heap_max st"
proof -
  obtain pre post where sp: "bs = pre @ (a, sz, True) # post" using m by (meson split_list)
  note Rs = R[unfolded sp]
  consider (none) "last_alloc True pre" "\<And>a2 s2 l2 post'. post = (a2, s2, l2) # post' \<Longrightarrow> l2"
    | (nxt) a2 s2 post' where "last_alloc True pre" "post = (a2, s2, False) # post'"
    | (prv) pre' ap sp where "pre = pre' @ [(ap, sp, False)]"
        "\<And>a2 s2 l2 post'. post = (a2, s2, l2) # post' \<Longrightarrow> l2"
    | (both) pre' ap sp a2 s2 post' where "pre = pre' @ [(ap, sp, False)]" "post = (a2, s2, False) # post'"
  proof -
    have pc: "last_alloc True pre \<or> (\<exists>pre' ap sp. pre = pre' @ [(ap, sp, False)])"
    proof (cases pre rule: rev_cases)
      case Nil
      then show ?thesis by simp
    next
      case (snoc pre' b)
      obtain ap sp lp where "b = (ap, sp, lp)" by (cases b)
      with snoc show ?thesis by (cases lp) simp_all
    qed
    have qc: "(\<forall>a2 s2 l2 post'. post = (a2, s2, l2) # post' \<longrightarrow> l2) \<or>
              (\<exists>a2 s2 post'. post = (a2, s2, False) # post')"
    proof (cases post)
      case Nil
      then show ?thesis by simp
    next
      case (Cons b post')
      obtain a2 s2 l2 where "b = (a2, s2, l2)" by (cases b)
      with Cons show ?thesis by (cases l2) simp_all
    qed
    from pc qc show ?thesis using none nxt prv both by blast
  qed
  then show ?thesis
  proof cases
    case none
    have "\<exists>st'. free st (of_nat (a + 8)) = Inr st' \<and>
           repr st' (pre @ (a, sz, False) # post) (fl(bin_of sz := (a + 8) # fl (bin_of sz))) \<and>
           heap_lo st' = heap_lo st \<and> heap_brk st' = heap_brk st \<and> heap_max st' = heap_max st"
      by (rule free_none[OF Rs none(1)]) (rule none(2))
    moreover have "(a, sz, False) \<in> set (pre @ (a, sz, False) # post)" "a \<le> a" "a + sz \<le> a + sz"
      by simp_all
    ultimately show ?thesis by blast
  next
    case nxt
    have "(a, sz + s2 + 8, False) \<in> set (pre @ (a, sz + s2 + 8, False) # post')" "a \<le> a"
      "a + sz \<le> a + (sz + s2 + 8)" by simp_all
    with free_next[OF Rs[unfolded nxt(2)] nxt(1)] show ?thesis by blast
  next
    case prv
    have Rp: "repr st (pre' @ (ap, sp, False) # (a, sz, True) # post) fl" using Rs prv(1) by simp
    have "\<exists>st'. free st (of_nat (a + 8)) = Inr st' \<and>
           repr st' (pre' @ (ap, sp + sz + 8, False) # post)
             ((fl(bin_of sp := remove1 (ap + 8) (fl (bin_of sp))))
                (bin_of (sp + sz + 8) :=
                   (ap + 8) # (fl(bin_of sp := remove1 (ap + 8) (fl (bin_of sp)))) (bin_of (sp + sz + 8)))) \<and>
           heap_lo st' = heap_lo st \<and> heap_brk st' = heap_brk st \<and> heap_max st' = heap_max st"
      by (rule free_prev[OF Rp]) (rule prv(2))
    moreover have "a = ap + 8 + sp" using repr_mid(2)[OF Rp] by simp
    then have "(ap, sp + sz + 8, False) \<in> set (pre' @ (ap, sp + sz + 8, False) # post)" "ap \<le> a"
      "a + sz \<le> ap + (sp + sz + 8)" by simp_all
    ultimately show ?thesis by blast
  next
    case both
    have Rb: "repr st (pre' @ (ap, sp, False) # (a, sz, True) # (a2, s2, False) # post') fl"
      using Rs both by simp
    have "a = ap + 8 + sp" using repr_mid(2)[OF Rb] by simp
    then have "(ap, sp + sz + s2 + 16, False) \<in> set (pre' @ (ap, sp + sz + s2 + 16, False) # post')"
      "ap \<le> a" "a + sz \<le> ap + (sp + sz + s2 + 16)" by simp_all
    with free_both[OF Rb] show ?thesis by blast
  qed
qed

section \<open>Initialisation\<close>

lemma init_ok:
  assumes fresh: "heap_brk st = heap_lo st"
    and lo: "0 < unat (heap_lo st)" "unat (heap_lo st) mod 16 = 0"
    and cap: "unat (heap_lo st) + 8 \<le> unat (heap_max st)"
  shows "\<exists>st'. mm_init st = (True, st') \<and> repr st' [] (\<lambda>_. []) \<and>
           heap_lo st' = heap_lo st \<and> heap_max st' = heap_max st \<and> heap_brk st' = heap_lo st + 8"
proof -
  define st3 where "st3 = setAlloc (wr (st\<lparr>heap_brk := heap_lo st + 8\<rparr>) (heap_lo st) 0) (heap_lo st)"
  define st' where "st' = st3\<lparr>lastHeader := mm_heap_lo st3,
      segFreeList := (\<lambda>i. if i < 15 then 0 else segFreeList st3 i)\<rparr>"
  have run: "mm_init st = (True, st')"
    unfolding mm_init_def mm_sbrk_def st'_def st3_def using cap fresh
    by (simp add: mm_heap_lo_def Let_def)
  have mx: "unat (heap_max st) < 2 ^ 64" using unsigned_less[of "heap_max st", where 'a=nat] by simp
  have u: "unat (heap_lo st + 8) = unat (heap_lo st) + 8"
    using cap mx by (simp add: unat_word_ariths)
  have f: "heap_lo st' = heap_lo st" "heap_max st' = heap_max st" "heap_brk st' = heap_lo st + 8"
    "lastHeader st' = heap_lo st" "\<And>i. i < 15 \<Longrightarrow> segFreeList st' i = 0"
    by (simp_all add: st'_def st3_def setAlloc_def wr_def mm_heap_lo_def)
  have "repr st' [] (\<lambda>_. [])"
    unfolding repr_def using lo f u by (simp add: lists_ok_def head_or_def)
  then show ?thesis using run f by blast
qed

section \<open>Writing into a payload\<close>

lemma word_range:
  fixes x p n :: "64 word"
  assumes "unat p + unat n \<le> 2 ^ 64"
  shows "(x - p < n) = (unat p \<le> unat x \<and> unat x < unat p + unat n)"
proof (cases "unat p \<le> unat x")
  case True
  then have "unat (x - p) = unat x - unat p" by (simp add: unat_sub word_le_nat_alt)
  then show ?thesis using True by (simp add: word_less_nat_alt less_diff_conv2 add.commute)
next
  case False
  have xl: "unat x < 2 ^ 64" using unsigned_less[of x, where 'a=nat] by simp
  have "unat (x - p) = 2 ^ 64 + unat x - unat p"
    using False by (simp add: unat_sub_if_size word_size)
  then have "unat n \<le> unat (x - p)" using assms False by simp
  then show ?thesis using False by (simp add: word_less_nat_alt)
qed

lemma W_bytes_same:
  assumes same: "\<And>x. \<not> (lo \<le> unat x \<and> unat x < hi) \<Longrightarrow> m' x = m x"
    and y: "y + 8 \<le> 2 ^ 64" "y + 8 \<le> lo \<or> hi \<le> y"
  shows "W m' y = W m y"
  unfolding W_def
proof (rule load64_cong)
  fix i :: "64 word" assume i: "i < 8"
  then have ui: "unat i < 8" by (simp add: word_less_nat_alt)
  have uy: "unat (of_nat y :: 64 word) = y" using y(1) by (intro unat_of_nat64) simp
  have "unat (of_nat y + i) = y + unat i"
    using uy ui y(1) by (simp add: unat_word_ariths)
  then have "\<not> (lo \<le> unat (of_nat y + i) \<and> unat (of_nat y + i) < hi)"
    using y(2) ui by auto
  from same[OF this] show "m' (of_nat y + i) = m (of_nat y + i)" .
qed

text \<open>Writing bytes inside the payload of an allocated block keeps the heap well formed.\<close>

lemma payload_write:
  assumes R: "repr st bs fl" and m: "(a, sz, True) \<in> set bs"
    and same: "\<And>x. \<not> (a + 8 \<le> unat x \<and> unat x < a + 8 + sz) \<Longrightarrow> m' x = mem st x"
  shows "repr (st\<lparr>mem := m'\<rparr>) bs fl"
proof -
  obtain pre post where sp: "bs = pre @ (a, sz, True) # post" using m by (meson split_list)
  note Rs = R[unfolded sp]
  note blk = repr_block[OF R m]
  note mid = repr_mid[OF Rs]
  define e where "e = a + 8 + sz"
  from R have c: "chain (unat (heap_lo st) + 8) bs (unat (heap_brk st))"
    and L: "lists_ok st fl"
    and S: "\<forall>i<15. distinct (fl i) \<and> set (fl i) = set (free_nodes bs i)"
    by (simp_all add: repr_def)
  have Ws: "W m' y = W (mem st) y" if "y + 8 \<le> 2 ^ 64" "y + 8 \<le> a + 8 \<or> e \<le> y" for y
    using W_bytes_same[of "a + 8" e m' "mem st" y] same that by (simp add: e_def)
  have "repr (st\<lparr>mem := m'\<rparr>) (pre @ [(a, sz, True)] @ post) fl"
  proof (rule repr_rebuild[where mid="[(a, sz, True)]" and s=a and e=e])
    show "repr st (pre @ [(a, sz, True)] @ post) fl" using Rs by simp
    show "chain (unat (heap_lo st) + 8) pre a" by (rule mid(1))
    show "chain a [(a, sz, True)] e" "chain a [(a, sz, True)] e" using blk by (simp_all add: e_def)
    show "tags_ok (mem (st\<lparr>mem := m'\<rparr>)) (last_alloc True pre) [(a, sz, True)]"
      using Ws[of a] blk mid(3) by simp
    show "heap_lo (st\<lparr>mem := m'\<rparr>) = heap_lo st" "heap_brk (st\<lparr>mem := m'\<rparr>) = heap_brk st" by simp_all
    show "lastHeader (st\<lparr>mem := m'\<rparr>) = of_nat (if pre @ [(a, sz, True)] @ post = [] then unat (heap_lo st)
            else fst (last (pre @ [(a, sz, True)] @ post)))"
      using Rs by (simp add: repr_def)
    show "\<forall>i<15. distinct (fl i) \<and> set (fl i) = set (free_nodes (pre @ [(a, sz, True)] @ post) i)"
      using S by (simp add: sp)
    show "lists_ok (st\<lparr>mem := m'\<rparr>) fl"
    proof (rule lists_frame[OF L])
      show "segFreeList (st\<lparr>mem := m'\<rparr>) = segFreeList st" by simp
      fix i q assume iq: "i < 15" "q \<in> set (fl i)"
      from repr_node[OF R iq] obtain a' sz' where b': "(a', sz', False) \<in> set bs" "q = a' + 8" by blast
      have ne: "a \<noteq> a'" using chain_addr_unique[OF c m, of sz' False] b'(1) by auto
      note f' = repr_block[OF R b'(1)]
      from blocks_apart[OF c m b'(1) ne] have "q + 16 \<le> a \<or> e \<le> q"
        using f'(3) by (auto simp: b'(2) e_def)
      then have ap: "q + 8 \<le> a + 8 \<or> e \<le> q" "q + 8 + 8 \<le> a + 8 \<or> e \<le> q + 8" by auto
      have bd: "q + 8 \<le> 2 ^ 64" "q + 8 + 8 \<le> 2 ^ 64" using f'(3,8) by (simp_all add: b'(2))
      have "W m' q = W (mem st) q" "W m' (q + 8) = W (mem st) (q + 8)"
        using Ws[OF bd(1) ap(1)] Ws[OF bd(2) ap(2)] by simp_all
      then show "W (mem (st\<lparr>mem := m'\<rparr>)) q = W (mem st) q \<and>
                 W (mem (st\<lparr>mem := m'\<rparr>)) (q + 8) = W (mem st) (q + 8)"
        by simp
    qed
  next
    fix a2 s2 l2 post' assume po: "post = (a2, s2, l2) # post'"
    from mid(2) have a2: "a2 = e" unfolding po e_def by simp
    have m2: "(e, s2, l2) \<in> set bs" by (simp add: sp po a2)
    note blk2 = repr_block[OF R m2]
    have old: "W (mem st) e = hdr s2 l2 True"
      using repr_mid(3)[of st "pre @ [(a, sz, True)]" e s2 l2 post' fl] Rs by (simp add: po a2)
    show "W (mem (st\<lparr>mem := m'\<rparr>)) a2 = hdr s2 l2 (last_alloc (last_alloc True pre) [(a, sz, True)]) \<and>
          (l2 \<or> last_alloc (last_alloc True pre) [(a, sz, True)])"
      using Ws[of e] old blk2 by (simp add: a2 last_alloc_def)
  next
    fix x assume x: "8 dvd x" "x + 8 \<le> 2 ^ 64" "\<not> (a \<le> x \<and> x \<le> e)" "\<not> interior (pre @ post) x"
    show "W (mem (st\<lparr>mem := m'\<rparr>)) x = W (mem st) x"
      using Ws[of x] x(2,3) blk(6) x(1)
      by (cases "x < a") (auto elim!: dvdE)
  qed
  then show ?thesis by (simp add: sp)
qed

lemma in_region_payload:
  assumes R: "repr st bs fl" and m: "(a, sz, al) \<in> set bs" and k: "unat k \<le> sz"
  shows "in_region st (of_nat (a + 8)) k"
proof -
  note blk = repr_block[OF R m]
  have "unat (of_nat (a + 8) :: 64 word) = a + 8" using blk(8) by (intro unat_of_nat64) simp
  then show ?thesis unfolding in_region_def using blk(1,2) k by simp
qed

lemma memset_payload:
  assumes R: "repr st bs fl" and m: "(a, sz, True) \<in> set bs" and k: "unat k \<le> sz"
  shows "\<exists>st'. mm_memset st (of_nat (a + 8)) c k = Inr (of_nat (a + 8), st') \<and> repr st' bs fl \<and>
           (\<forall>i. i < k \<longrightarrow> mem st' (of_nat (a + 8) + i) = c) \<and>
           heap_lo st' = heap_lo st \<and> heap_brk st' = heap_brk st \<and> heap_max st' = heap_max st"
proof -
  note blk = repr_block[OF R m]
  define p :: "64 word" where "p = of_nat (a + 8)"
  have up: "unat p = a + 8" unfolding p_def using blk(8) by (intro unat_of_nat64) simp
  define m' where "m' = (\<lambda>x. if x - p < k then c else mem st x)"
  have run: "mm_memset st p c k = Inr (p, st\<lparr>mem := m'\<rparr>)"
    unfolding mm_memset_def m'_def using in_region_payload[OF R m k] by (simp add: p_def)
  have rng: "(x - p < k) = (a + 8 \<le> unat x \<and> unat x < a + 8 + unat k)" for x :: "64 word"
    using word_range[of p k x] up blk(8) k by simp
  have "repr (st\<lparr>mem := m'\<rparr>) bs fl"
  proof (rule payload_write[OF R m])
    fix x :: "64 word" assume "\<not> (a + 8 \<le> unat x \<and> unat x < a + 8 + sz)"
    then have "\<not> x - p < k" unfolding rng using k by auto
    then show "m' x = mem st x" by (simp add: m'_def)
  qed
  moreover have "\<forall>i. i < k \<longrightarrow> mem (st\<lparr>mem := m'\<rparr>) (p + i) = c" by (simp add: m'_def)
  ultimately show ?thesis using run unfolding p_def by auto
qed

lemma memcpy_payload:
  assumes R: "repr st bs fl" and m: "(a, sz, True) \<in> set bs" and k: "unat k \<le> sz"
    and src: "in_region st src k"
  shows "\<exists>st'. mm_memcpy st (of_nat (a + 8)) src k = Inr (of_nat (a + 8), st') \<and> repr st' bs fl \<and>
           (\<forall>i. i < k \<longrightarrow> mem st' (of_nat (a + 8) + i) = mem st (src + i)) \<and>
           heap_lo st' = heap_lo st \<and> heap_brk st' = heap_brk st \<and> heap_max st' = heap_max st"
proof -
  note blk = repr_block[OF R m]
  define p :: "64 word" where "p = of_nat (a + 8)"
  have up: "unat p = a + 8" unfolding p_def using blk(8) by (intro unat_of_nat64) simp
  define m' where "m' = (\<lambda>x. if x - p < k then mem st (src + (x - p)) else mem st x)"
  have run: "mm_memcpy st p src k = Inr (p, st\<lparr>mem := m'\<rparr>)"
    unfolding mm_memcpy_def m'_def using in_region_payload[OF R m k] src by (simp add: p_def)
  have rng: "(x - p < k) = (a + 8 \<le> unat x \<and> unat x < a + 8 + unat k)" for x :: "64 word"
    using word_range[of p k x] up blk(8) k by simp
  have "repr (st\<lparr>mem := m'\<rparr>) bs fl"
  proof (rule payload_write[OF R m])
    fix x :: "64 word" assume "\<not> (a + 8 \<le> unat x \<and> unat x < a + 8 + sz)"
    then have "\<not> x - p < k" unfolding rng using k by auto
    then show "m' x = mem st x" by (simp add: m'_def)
  qed
  moreover have "\<forall>i. i < k \<longrightarrow> mem (st\<lparr>mem := m'\<rparr>) (p + i) = mem st (src + i)" by (simp add: m'_def)
  ultimately show ?thesis using run unfolding p_def by auto
qed

section \<open>calloc and realloc on a well-formed heap\<close>

lemma malloc_post_fail:
  assumes "malloc_post st bs fl n p st'" "\<not> can_alloc st bs n"
  shows "p = 8" "st' = st"
  using assms unfolding malloc_post_def can_alloc_def by (simp_all split: if_splits)

lemma malloc_post_block:
  assumes R: "repr st bs fl" and P: "malloc_post st bs fl n p st'" and C: "can_alloc st bs n"
  shows "\<exists>bs' fl' a sz. repr st' bs' fl' \<and> (a, sz, True) \<in> set bs' \<and> n \<le> sz \<and> p = of_nat (a + 8) \<and>
           (\<forall>a0 s0. (a0, s0, True) \<in> set bs \<longrightarrow> (a0, s0, True) \<in> set bs' \<and> a0 \<noteq> a)"
proof (cases "fits bs n")
  case True
  from P True obtain pre a sz post where
    sp: "bs = pre @ (a, sz, False) # post" and n: "n \<le> sz" and p: "p = of_nat (a + 8)"
    and r: "if 32 \<le> sz - n
            then repr st' (pre @ (a, n, True) # (a + 8 + n, sz - n - 8, False) # post) (split_lists fl a sz n)
            else repr st' (pre @ (a, sz, True) # post) (fl(bin_of sz := remove1 (a + 8) (fl (bin_of sz))))"
    unfolding malloc_post_def by auto
  from R have c: "chain (unat (heap_lo st) + 8) bs (unat (heap_brk st))" by (simp add: repr_def)
  have mv: "(a, sz, False) \<in> set bs" by (simp add: sp)
  have old: "a0 \<noteq> a" if "(a0, s0, True) \<in> set bs" for a0 s0
    using chain_addr_unique[OF c mv, of s0 True] that by auto
  show ?thesis
  proof (cases "32 \<le> sz - n")
    case T: True
    have "(a, n, True) \<in> set (pre @ (a, n, True) # (a + 8 + n, sz - n - 8, False) # post)" by simp
    moreover have "\<forall>a0 s0. (a0, s0, True) \<in> set bs \<longrightarrow>
        (a0, s0, True) \<in> set (pre @ (a, n, True) # (a + 8 + n, sz - n - 8, False) # post) \<and> a0 \<noteq> a"
      using old by (auto simp: sp)
    moreover have "repr st' (pre @ (a, n, True) # (a + 8 + n, sz - n - 8, False) # post) (split_lists fl a sz n)"
      using r T by simp
    moreover have "n \<le> n" by simp
    ultimately show ?thesis using p by blast
  next
    case F: False
    have "(a, sz, True) \<in> set (pre @ (a, sz, True) # post)" by simp
    moreover have "\<forall>a0 s0. (a0, s0, True) \<in> set bs \<longrightarrow>
        (a0, s0, True) \<in> set (pre @ (a, sz, True) # post) \<and> a0 \<noteq> a"
      using old by (auto simp: sp)
    moreover have "repr st' (pre @ (a, sz, True) # post) (fl(bin_of sz := remove1 (a + 8) (fl (bin_of sz))))"
      using r F by simp
    ultimately show ?thesis using p n by blast
  qed
next
  case False
  with C have cap: "unat (heap_brk st) + (8 + n) \<le> unat (heap_max st)" by (simp add: can_alloc_def)
  define b where "b = unat (heap_brk st)"
  from P False cap have p: "p = heap_brk st + 8" and r: "repr st' (bs @ [(b, n, True)]) fl"
    unfolding malloc_post_def b_def by simp_all
  from R have c: "chain (unat (heap_lo st) + 8) bs (unat (heap_brk st))" by (simp add: repr_def)
  have old: "a0 \<noteq> b" if "(a0, s0, True) \<in> set bs" for a0 s0
    using chain_mem[OF c that] by (simp add: b_def)
  have "p = of_nat (b + 8)" using p by (simp add: b_def)
  moreover have "\<forall>a0 s0. (a0, s0, True) \<in> set bs \<longrightarrow> (a0, s0, True) \<in> set (bs @ [(b, n, True)]) \<and> a0 \<noteq> b"
    using old by auto
  moreover have "(b, n, True) \<in> set (bs @ [(b, n, True)])" "n \<le> n" by simp_all
  ultimately show ?thesis using r by blast
qed

lemma not_in_region_8:
  assumes R: "repr st bs fl" and k: "k \<noteq> 0"
  shows "\<not> in_region st 8 k"
proof -
  note rb = repr_bounds[OF R]
  have "16 \<le> unat (heap_lo st)" using rb(1,2) by presburger
  then show ?thesis using k by (simp add: in_region_def)
qed

lemma payload_nonzero:
  assumes R: "repr st bs fl" and m: "(a, sz, al) \<in> set bs"
  shows "(of_nat (a + 8) :: 64 word) \<noteq> 0"
  using of_nat_node_neq0[OF block_node[OF R m]] .

lemma calloc_spec:
  assumes R: "repr st bs fl" and s: "sz * nmemb \<noteq> 0" "sz * nmemb \<le> 0xFFFFFFFFFFFFFFE8"
  shows "if can_alloc st bs (unat (newAlign (sz * nmemb)))
         then \<exists>p st1 st' bs' fl' a b.
                malloc st (sz * nmemb) = Some (Inr (p, st1)) \<and>
                calloc st nmemb sz = Some (Inr (p, st')) \<and> repr st' bs' fl' \<and>
                (a, b, True) \<in> set bs' \<and> p = of_nat (a + 8) \<and> unat (sz * nmemb) \<le> b \<and>
                (\<forall>i. i < sz * nmemb \<longrightarrow> mem st' (p + i) = 0) \<and>
                heap_lo st' = heap_lo st \<and> heap_max st' = heap_max st
         else calloc st nmemb sz = Some (Inl InvalidAccess)"
proof -
  define k where "k = sz * nmemb"
  define n where "n = unat (newAlign k)"
  note ns = norm_size[OF s(2), folded k_def n_def]
  from malloc_spec[OF R s, folded k_def n_def] obtain p st1 where
    m: "malloc st k = Some (Inr (p, st1))" and P: "malloc_post st bs fl n p st1"
    and f1: "heap_lo st1 = heap_lo st" "heap_max st1 = heap_max st" by blast
  show ?thesis
  proof (cases "can_alloc st bs n")
    case True
    from malloc_post_block[OF R P True] obtain bs' fl' a b where
      R1: "repr st1 bs' fl'" and mb: "(a, b, True) \<in> set bs'" and nb: "n \<le> b" and p: "p = of_nat (a + 8)"
      by blast
    have kb: "unat k \<le> b" using ns(4) nb by simp
    from memset_payload[OF R1 mb kb, of 0] obtain st' where
      ms: "mm_memset st1 (of_nat (a + 8)) 0 k = Inr (of_nat (a + 8), st')" and R': "repr st' bs' fl'"
      and z: "\<forall>i. i < k \<longrightarrow> mem st' (of_nat (a + 8) + i) = 0"
      and f2: "heap_lo st' = heap_lo st1" "heap_max st' = heap_max st1" by blast
    have p0: "p \<noteq> 0" unfolding p by (rule payload_nonzero[OF R1 mb])
    have "calloc st nmemb sz = Some (Inr (p, st'))"
      unfolding calloc_def Let_def k_def[symmetric] m using p0 ms by (simp add: p)
    then show ?thesis using True m R' mb p kb z f1 f2 unfolding k_def[symmetric] n_def[symmetric]
      by (simp del: of_nat_add) blast
  next
    case False
    from malloc_post_fail[OF P False] have p: "p = 8" and st1: "st1 = st" by simp_all
    have "mm_memset st 8 0 k = Inl InvalidAccess"
      unfolding mm_memset_def using not_in_region_8[OF R, of k] s(1) by (simp add: k_def)
    then have "calloc st nmemb sz = Some (Inl InvalidAccess)"
      unfolding calloc_def Let_def k_def[symmetric] m by (simp add: p st1)
    then show ?thesis using False unfolding k_def[symmetric] n_def[symmetric] by simp
  qed
qed

lemma realloc_spec:
  assumes R: "repr st bs fl" and old: "(a, so, True) \<in> set bs"
    and s: "s \<noteq> 0" "s \<le> 0xFFFFFFFFFFFFFFE8"
  shows "if can_alloc st bs (unat (newAlign s))
         then \<exists>p st1 k st2 st' bs' fl'.
                malloc st s = Some (Inr (p, st1)) \<and> p \<noteq> 0 \<and> p \<noteq> of_nat (a + 8) \<and>
                unat k = min (unat s) so \<and>
                mm_memcpy st1 p (of_nat (a + 8)) k = Inr (p, st2) \<and>
                (\<forall>i. i < k \<longrightarrow> mem st2 (p + i) = mem st1 (of_nat (a + 8) + i)) \<and>
                free st2 (of_nat (a + 8)) = Inr st' \<and>
                realloc st (of_nat (a + 8)) s = Some (Inr (p, st')) \<and> repr st' bs' fl' \<and>
                heap_lo st' = heap_lo st \<and> heap_max st' = heap_max st
         else realloc st (of_nat (a + 8)) s = Some (Inl InvalidAccess)"
proof -
  define n where "n = unat (newAlign s)"
  define q :: "64 word" where "q = of_nat (a + 8)"
  note ns = norm_size[OF s(2), folded n_def]
  note blk = repr_block[OF R old]
  have q0: "q \<noteq> 0" unfolding q_def by (rule payload_nonzero[OF R old])
  have hq: "q - 8 * get8ByteAlignment 8 = of_nat a" by (simp add: q_def mul8_div8)
  from malloc_spec[OF R s, folded n_def] obtain p st1 where
    m: "malloc st s = Some (Inr (p, st1))" and P: "malloc_post st bs fl n p st1"
    and f1: "heap_lo st1 = heap_lo st" "heap_max st1 = heap_max st" by blast
  have sol: "so < 2 ^ 64" using blk(8) by simp
  have uso: "unat (of_nat so :: 64 word) = so" using sol by (rule unat_of_nat64)
  define k :: "64 word" where "k = (if s > of_nat so then of_nat so else s)"
  have uk: "unat k = min (unat s) so"
    unfolding k_def using uso by (auto simp: word_less_nat_alt)
  have k0: "k \<noteq> 0" using s(1) blk(3) uk by (metis min_def unat_eq_zero not_numeral_le_zero)
  show ?thesis
  proof (cases "can_alloc st bs n")
    case True
    from malloc_post_block[OF R P True] obtain bs1 fl1 a1 b1 where
      R1: "repr st1 bs1 fl1" and mb: "(a1, b1, True) \<in> set bs1" and nb: "n \<le> b1" and p: "p = of_nat (a1 + 8)"
      and keep: "\<forall>a0 s0. (a0, s0, True) \<in> set bs \<longrightarrow> (a0, s0, True) \<in> set bs1 \<and> a0 \<noteq> a1"
      by blast
    from keep old have old1: "(a, so, True) \<in> set bs1" and ne: "a \<noteq> a1" by auto
    obtain pre post where sp: "bs1 = pre @ (a, so, True) # post" using old1 by (meson split_list)
    have gs: "getBlockSize st1 (of_nat a) = of_nat so"
      using decode(1)[OF repr_mid(3)[OF R1[unfolded sp]] repr_block(7)[OF R1 old1]] .
    have kb: "unat k \<le> b1" using ns(4) nb uk by simp
    have src: "in_region st1 q k" unfolding q_def by (rule in_region_payload[OF R1 old1]) (simp add: uk)
    from memcpy_payload[OF R1 mb kb src] obtain st2 where
      mc: "mm_memcpy st1 p q k = Inr (p, st2)" and R2: "repr st2 bs1 fl1"
      and cp: "\<forall>i. i < k \<longrightarrow> mem st2 (p + i) = mem st1 (q + i)"
      and f2: "heap_lo st2 = heap_lo st1" "heap_max st2 = heap_max st1" unfolding p by blast
    from free_spec[OF R2 old1] obtain st' bs' fl' where
      fr: "free st2 q = Inr st'" and R': "repr st' bs' fl'"
      and f3: "heap_lo st' = heap_lo st2" "heap_max st' = heap_max st2" unfolding q_def by blast
    have p0: "p \<noteq> 0" unfolding p by (rule payload_nonzero[OF R1 mb])
    have pq: "p \<noteq> q"
      unfolding p q_def using of_nat_inj64[of "a1 + 8" "a + 8"] ne repr_block(8)[OF R1 mb] blk(8) by simp
    have mc': "(if s > of_nat so then mm_memcpy st1 p q (of_nat so) else mm_memcpy st1 p q s) = Inr (p, st2)"
      using mc by (simp add: k_def split: if_splits)
    have "realloc st q s =
        (case (if s > of_nat so then mm_memcpy st1 p q (of_nat so) else mm_memcpy st1 p q s) of
           Inl e \<Rightarrow> Some (Inl e)
         | Inr (newptr', st2) \<Rightarrow>
             (case free st2 q of Inl e \<Rightarrow> Some (Inl e) | Inr st3 \<Rightarrow> Some (Inr (newptr', st3))))"
      unfolding realloc_def Let_def hq m using q0 s(1) p0 by (simp add: gs)
    then have "realloc st q s = Some (Inr (p, st'))" unfolding mc' by (simp add: fr)
    then show ?thesis using True m p0 pq uk mc cp fr R' f1 f2 f3
      unfolding n_def[symmetric] q_def[symmetric]
      by simp blast
  next
    case False
    from malloc_post_fail[OF P False] have p: "p = 8" and st1: "st1 = st" by simp_all
    obtain pre post where sp: "bs = pre @ (a, so, True) # post" using old by (meson split_list)
    have gs: "getBlockSize st (of_nat a) = of_nat so"
      using decode(1)[OF repr_mid(3)[OF R[unfolded sp]] blk(7)] .
    have "mm_memcpy st 8 q k = Inl InvalidAccess"
      unfolding mm_memcpy_def using not_in_region_8[OF R k0] by simp
    then have mc': "(if s > of_nat so then mm_memcpy st 8 q (of_nat so) else mm_memcpy st 8 q s) = Inl InvalidAccess"
      by (simp add: k_def split: if_splits)
    have "realloc st q s =
        (case (if s > of_nat so then mm_memcpy st 8 q (of_nat so) else mm_memcpy st 8 q s) of
           Inl e \<Rightarrow> Some (Inl e)
         | Inr (newptr', st2) \<Rightarrow>
             (case free st2 q of Inl e \<Rightarrow> Some (Inl e) | Inr st3 \<Rightarrow> Some (Inr (newptr', st3))))"
      unfolding realloc_def Let_def hq m p st1 using q0 s(1) by (simp add: gs)
    then have "realloc st q s = Some (Inl InvalidAccess)" unfolding mc' by simp
    then show ?thesis using False unfolding n_def[symmetric] q_def[symmetric] by simp
  qed
qed

section \<open>Runs on example heaps\<close>

lemma tags_naf: "tags_ok m pa bs \<Longrightarrow> naf bs"
proof (induction bs arbitrary: pa rule: naf.induct)
  case (1 a sz al a' sz' al' bs)
  then show ?case by auto
qed simp_all

lemma repr_naf: "repr st bs fl \<Longrightarrow> naf bs"
  using tags_naf[of "mem st" True bs] by (simp add: repr_def)

lemma repr_brk:
  assumes "repr st (bs @ [(a, sz, al)]) fl"
  shows "unat (heap_brk st) = a + 8 + sz" "heap_brk st = of_nat (a + 8 + sz)"
proof -
  from repr_mid(2)[of st bs a sz al "[]" fl] assms show 1: "unat (heap_brk st) = a + 8 + sz" by simp
  show "heap_brk st = of_nat (a + 8 + sz)" unfolding 1[symmetric] by simp
qed

text \<open>One step of a run in which the heap has to grow.\<close>

lemma malloc_extend:
  assumes R: "repr st bs fl" and s: "s \<noteq> 0" "s \<le> 0xFFFFFFFFFFFFFFE8"
    and n: "unat (newAlign s) = n"
    and nofit: "\<not> fits bs n"
    and cap: "unat (heap_brk st) + (8 + n) \<le> unat (heap_max st)"
  shows "malloc st s = Some (Inr (heap_brk st + 8, malloc_st st s))"
    "repr (malloc_st st s) (bs @ [(unat (heap_brk st), n, True)]) fl"
    "heap_lo (malloc_st st s) = heap_lo st" "heap_max (malloc_st st s) = heap_max st"
    "unat (heap_brk (malloc_st st s)) = unat (heap_brk st) + 8 + n"
proof -
  from malloc_spec[OF R s] obtain p st' where
    m: "malloc st s = Some (Inr (p, st'))" and P: "malloc_post st bs fl n p st'"
    and f: "heap_lo st' = heap_lo st" "heap_max st' = heap_max st" unfolding n by blast
  have st': "malloc_st st s = st'" by (simp add: malloc_st_def m)
  from P nofit cap have p: "p = heap_brk st + 8" and R': "repr st' (bs @ [(unat (heap_brk st), n, True)]) fl"
    unfolding malloc_post_def by simp_all
  show "malloc st s = Some (Inr (heap_brk st + 8, malloc_st st s))" unfolding st' m p ..
  show "repr (malloc_st st s) (bs @ [(unat (heap_brk st), n, True)]) fl" unfolding st' by (rule R')
  show "heap_lo (malloc_st st s) = heap_lo st" "heap_max (malloc_st st s) = heap_max st"
    unfolding st' by (rule f)+
  show "unat (heap_brk (malloc_st st s)) = unat (heap_brk st) + 8 + n"
    unfolding st' using repr_brk(1)[OF R'] .
qed

lemma malloc_fail:
  assumes R: "repr st bs fl" and s: "s \<noteq> 0" "s \<le> 0xFFFFFFFFFFFFFFE8"
    and n: "unat (newAlign s) = n"
    and no: "\<not> can_alloc st bs n"
  shows "malloc st s = Some (Inr (8, st))"
proof -
  from malloc_spec[OF R s] obtain p st' where
    m: "malloc st s = Some (Inr (p, st'))" and P: "malloc_post st bs fl n p st'" unfolding n by blast
  from malloc_post_fail[OF P no] m show ?thesis by simp
qed

lemma free_st_eq: "free st p = Inr st' \<Longrightarrow> free_st st p = st'"
  by (simp add: free_st_def)

lemma newAlign_examples:
  "newAlign 40 = 40" "newAlign 100 = 104" "newAlign 24 = 24" "newAlign 64 = 72"
  by (simp_all add: newAlign_def align_def)

lemma bin_examples: "bin_of 40 = 1" "bin_of 104 = 4" "bin_of 24 = 0" "bin_of 72 = 3" "bin_of 88 = 4"
  by (simp_all add: bin_of_nat bin_nat_def)

lemma heap0_ok:
  "mm_init (empty_region 0x1000 0x1000) = (True, heap0)" "repr heap0 [] (\<lambda>_. [])"
  "heap_lo heap0 = 0x1000" "heap_brk heap0 = 0x1008" "heap_max heap0 = 0x2000"
proof -
  have "\<exists>st'. mm_init (empty_region 0x1000 0x1000) = (True, st') \<and> repr st' [] (\<lambda>_. []) \<and>
           heap_lo st' = heap_lo (empty_region 0x1000 0x1000) \<and>
           heap_max st' = heap_max (empty_region 0x1000 0x1000) \<and>
           heap_brk st' = heap_lo (empty_region 0x1000 0x1000) + 8"
    by (rule init_ok) (simp_all add: empty_region_def)
  then obtain st' where i: "mm_init (empty_region 0x1000 0x1000) = (True, st')" and r: "repr st' [] (\<lambda>_. [])"
    and f: "heap_lo st' = 0x1000" "heap_max st' = 0x2000" "heap_brk st' = 0x1008"
    by (auto simp: empty_region_def)
  have h: "heap0 = st'" by (simp add: heap0_def init_st_def i)
  show "mm_init (empty_region 0x1000 0x1000) = (True, heap0)" "repr heap0 [] (\<lambda>_. [])"
    "heap_lo heap0 = 0x1000" "heap_brk heap0 = 0x1008" "heap_max heap0 = 0x2000"
    unfolding h using i r f by simp_all
qed

section \<open>Three requests on a fresh heap\<close>

lemma fresh_region:
  assumes lo: "0 < unat lo" "unat lo mod 16 = 0" and cap: "8 \<le> unat cap" "unat lo + unat cap < 2 ^ 64"
  shows "mm_init (empty_region lo cap) = (True, init_st (empty_region lo cap))"
    "repr (init_st (empty_region lo cap)) [] (\<lambda>_. [])"
    "heap_lo (init_st (empty_region lo cap)) = lo"
    "unat (heap_brk (init_st (empty_region lo cap))) = unat lo + 8"
    "unat (heap_max (init_st (empty_region lo cap))) = unat lo + unat cap"
proof -
  have um: "unat (lo + cap) = unat lo + unat cap" using cap(2) by (simp add: unat_word_ariths)
  have "\<exists>st'. mm_init (empty_region lo cap) = (True, st') \<and> repr st' [] (\<lambda>_. []) \<and>
           heap_lo st' = heap_lo (empty_region lo cap) \<and>
           heap_max st' = heap_max (empty_region lo cap) \<and>
           heap_brk st' = heap_lo (empty_region lo cap) + 8"
    by (rule init_ok) (use lo cap um in \<open>simp_all add: empty_region_def\<close>)
  then obtain st' where i: "mm_init (empty_region lo cap) = (True, st')" and r: "repr st' [] (\<lambda>_. [])"
    and f: "heap_lo st' = lo" "heap_max st' = lo + cap" "heap_brk st' = lo + 8"
    by (auto simp: empty_region_def)
  have h: "init_st (empty_region lo cap) = st'" by (simp add: init_st_def i)
  have ub: "unat (lo + 8) = unat lo + 8" using cap by (simp add: unat_word_ariths)
  show "mm_init (empty_region lo cap) = (True, init_st (empty_region lo cap))"
    "repr (init_st (empty_region lo cap)) [] (\<lambda>_. [])"
    "heap_lo (init_st (empty_region lo cap)) = lo"
    "unat (heap_brk (init_st (empty_region lo cap))) = unat lo + 8"
    "unat (heap_max (init_st (empty_region lo cap))) = unat lo + unat cap"
    unfolding h using i r f um ub by simp_all
qed

lemma brk_word: "unat (heap_brk st) = unat lo + k \<Longrightarrow> heap_brk st = lo + of_nat k"
  by (metis of_nat_add of_nat_unat64)

text \<open>Three requests of 40 bytes on a fresh heap give three blocks in a row.\<close>

lemma three_allocs:
  assumes lo: "0 < unat lo" "unat lo mod 16 = 0" and cap: "152 \<le> unat cap" "unat lo + unat cap < 2 ^ 64"
  defines "st0 \<equiv> init_st (empty_region lo cap)"
  defines "st1 \<equiv> malloc_st st0 40"
  defines "st2 \<equiv> malloc_st st1 40"
  defines "st3 \<equiv> malloc_st st2 40"
  shows "mm_init (empty_region lo cap) = (True, st0)"
    "malloc st0 40 = Some (Inr (lo + 16, st1))"
    "malloc st1 40 = Some (Inr (lo + 64, st2))"
    "malloc st2 40 = Some (Inr (lo + 112, st3))"
    "repr st1 [(unat lo + 8, 40, True)] (\<lambda>_. [])"
    "repr st2 [(unat lo + 8, 40, True), (unat lo + 56, 40, True)] (\<lambda>_. [])"
    "repr st3 [(unat lo + 8, 40, True), (unat lo + 56, 40, True), (unat lo + 104, 40, True)] (\<lambda>_. [])"
    "heap_lo st3 = lo" "unat (heap_brk st3) = unat lo + 152" "unat (heap_max st3) = unat lo + unat cap"
proof -
  have c8: "8 \<le> unat cap" using cap(1) by simp
  note f0 = fresh_region[OF lo c8 cap(2), folded st0_def]
  have n40: "unat (newAlign 40) = 40" by (simp add: newAlign_examples)
  have s40: "(40 :: size_t) \<noteq> 0" "(40 :: size_t) \<le> 0xFFFFFFFFFFFFFFE8" by simp_all
  have nf0: "\<not> fits [] 40" by (simp add: fits_def)
  have c0: "unat (heap_brk st0) + (8 + 40) \<le> unat (heap_max st0)" using f0(4,5) cap(1) by simp
  note e1 = malloc_extend[OF f0(2) s40 n40 nf0 c0, folded st1_def]
  have b0: "heap_brk st0 = lo + 8" using brk_word[OF f0(4)] by simp
  have R1: "repr st1 [(unat lo + 8, 40, True)] (\<lambda>_. [])" using e1(2) f0(4) by simp
  have u1: "unat (heap_brk st1) = unat lo + 56" "unat (heap_max st1) = unat lo + unat cap"
    using e1(4,5) f0(4,5) by simp_all
  have nf1: "\<not> fits [(unat lo + 8, 40, True)] 40" by (simp add: fits_def)
  have c1: "unat (heap_brk st1) + (8 + 40) \<le> unat (heap_max st1)" using u1 cap(1) by simp
  note e2 = malloc_extend[OF R1 s40 n40 nf1 c1, folded st2_def]
  have b1: "heap_brk st1 = lo + 56" using brk_word[OF u1(1)] by simp
  have R2: "repr st2 [(unat lo + 8, 40, True), (unat lo + 56, 40, True)] (\<lambda>_. [])"
    using e2(2) u1(1) by simp
  have u2: "unat (heap_brk st2) = unat lo + 104" "unat (heap_max st2) = unat lo + unat cap"
    using e2(4,5) u1 by simp_all
  have nf2: "\<not> fits [(unat lo + 8, 40, True), (unat lo + 56, 40, True)] 40" by (simp add: fits_def)
  have c2: "unat (heap_brk st2) + (8 + 40) \<le> unat (heap_max st2)" using u2 cap(1) by simp
  note e3 = malloc_extend[OF R2 s40 n40 nf2 c2, folded st3_def]
  have b2: "heap_brk st2 = lo + 104" using brk_word[OF u2(1)] by simp
  show "mm_init (empty_region lo cap) = (True, st0)" by (rule f0(1))
  show "malloc st0 40 = Some (Inr (lo + 16, st1))" using e1(1) by (simp add: b0)
  show "malloc st1 40 = Some (Inr (lo + 64, st2))" using e2(1) by (simp add: b1)
  show "malloc st2 40 = Some (Inr (lo + 112, st3))" using e3(1) by (simp add: b2)
  show "repr st1 [(unat lo + 8, 40, True)] (\<lambda>_. [])" by (rule R1)
  show "repr st2 [(unat lo + 8, 40, True), (unat lo + 56, 40, True)] (\<lambda>_. [])" by (rule R2)
  show "repr st3 [(unat lo + 8, 40, True), (unat lo + 56, 40, True), (unat lo + 104, 40, True)] (\<lambda>_. [])"
    using e3(2) u2(1) by simp
  show "heap_lo st3 = lo" using e3(3) e2(3) e1(3) f0(3) by simp
  show "unat (heap_brk st3) = unat lo + 152" using e3(5) u2(1) by simp
  show "unat (heap_max st3) = unat lo + unat cap" using e3(4) u2(2) by simp
qed

section \<open>Forward coalescing\<close>

text \<open>What the tags of a well-formed heap say when read with the accessors of the code.\<close>

lemma read_block:
  assumes R: "repr st (pre @ (a, sz, al) # post) fl"
  shows "getBlockSize st (of_nat a) = of_nat sz" "isFree st (of_nat a) = (\<not> al)"
    "isPrevFree st (of_nat a) = (\<not> last_alloc True pre)"
    "getFooter (of_nat a) (of_nat sz) = of_nat (a + sz)"
    "getNextHeader (of_nat a) (of_nat sz) = of_nat (a + 8 + sz)"
    "\<not> al \<Longrightarrow> getBlockSize st (of_nat (a + sz)) = of_nat sz"
proof -
  have m: "(a, sz, al) \<in> set (pre @ (a, sz, al) # post)" by simp
  note blk = repr_block[OF R m]
  note mid = repr_mid[OF R]
  show "getBlockSize st (of_nat a) = of_nat sz" "isFree st (of_nat a) = (\<not> al)"
    "isPrevFree st (of_nat a) = (\<not> last_alloc True pre)"
    using decode[OF mid(3) blk(7)] by simp_all
  show "getFooter (of_nat a) (of_nat sz) = of_nat (a + sz)" using blk by (intro nav_footer) simp_all
  show "getNextHeader (of_nat a) (of_nat sz) = of_nat (a + 8 + sz)" using blk by (intro nav_next) simp_all
  show "getBlockSize st (of_nat (a + sz)) = of_nat sz" if "\<not> al"
    unfolding footer_size using mid(5) that by simp
qed

lemma read_head:
  assumes R: "repr st bs fl" and i: "i < 15"
  shows "segFreeList st i = of_nat (head_or (fl i) 0)"
  using R i by (simp add: repr_def lists_ok_def)

text \<open>
  Claim C5. On a freshly initialised heap (any region whose low address is a positive
  multiple of 16 and which can grow by at least 152 bytes), after
  \<^verbatim>\<open>a = malloc(40); b = malloc(40); c = malloc(40); free(a); free(b)\<close> the blocks of \<open>a\<close> and
  \<open>b\<close> are one free block of payload size \<open>40 + 40 + 8 = 88\<close>: its header at \<open>a - 8\<close> and
  its footer hold the size 88, it is free, it is the head of the list of its size class (list
  4), and the list for size 40 is empty again. Its right neighbour is the block of \<open>c\<close>,
  whose header has the previous-allocated bit equal to 0.
\<close>

theorem forward_coalescing:
  assumes "0 < unat lo" and "unat lo mod 16 = 0" and "152 \<le> unat cap" and "unat lo + unat cap < 2 ^ 64"
  shows "\<exists>st0 a st1 b st2 c st3 st4 st5.
           mm_init (empty_region lo cap) = (True, st0) \<and>
           malloc st0 40 = Some (Inr (a, st1)) \<and> malloc st1 40 = Some (Inr (b, st2)) \<and>
           malloc st2 40 = Some (Inr (c, st3)) \<and>
           free st3 a = Inr st4 \<and> free st4 b = Inr st5 \<and>
           isFree st5 (a - 8) \<and> getBlockSize st5 (a - 8) = 88 \<and>
           getBlockSize st5 (getFooter (a - 8) 88) = 88 \<and>
           getNextHeader (a - 8) 88 = c - 8 \<and>
           \<not> isFree st5 (c - 8) \<and> isPrevFree st5 (c - 8) \<and>
           getFreeListIndex 88 = 4 \<and> segFreeList st5 4 = a \<and> segFreeList st5 1 = 0 \<and>
           repr st5 [(unat lo + 8, 88, False), (unat lo + 104, 40, True)] ((\<lambda>_. [])(4 := [unat lo + 16]))"
proof -
  define L where "L = unat lo"
  define st3 where "st3 = malloc_st (malloc_st (malloc_st (init_st (empty_region lo cap)) 40) 40) 40"
  note t = three_allocs[OF assms, folded st3_def L_def]
  have w: "(of_nat (L + k) :: 64 word) = lo + of_nat k" for k by (simp add: L_def)
  \<comment> \<open>\<open>free(a)\<close>: both neighbours are in use\<close>
  have "\<exists>st4. free st3 (of_nat (L + 8 + 8)) = Inr st4 \<and>
          repr st4 ([] @ (L + 8, 40, False) # [(L + 56, 40, True), (L + 104, 40, True)])
            ((\<lambda>_. [])(bin_of 40 := (L + 8 + 8) # (\<lambda>_. []) (bin_of 40))) \<and>
          heap_lo st4 = heap_lo st3 \<and> heap_brk st4 = heap_brk st3 \<and> heap_max st4 = heap_max st3"
    by (rule free_none) (use t(7) in simp_all)
  then obtain st4 where f4': "free st3 (of_nat (L + 8 + 8)) = Inr st4"
    and R4': "repr st4 ([] @ (L + 8, 40, False) # [(L + 56, 40, True), (L + 104, 40, True)])
            ((\<lambda>_. [])(bin_of 40 := (L + 8 + 8) # (\<lambda>_. []) (bin_of 40)))" by blast
  have pa: "(of_nat (L + 8 + 8) :: 64 word) = lo + 16" by (simp add: L_def)
  have f4: "free st3 (lo + 16) = Inr st4" using f4' unfolding pa .
  have R4: "repr st4 [(L + 8, 40, False), (L + 56, 40, True), (L + 104, 40, True)] ((\<lambda>_. [])(1 := [L + 16]))"
  proof -
    have e: "L + 8 + 8 = L + 16" "(1::nat) = Suc 0" by simp_all
    have "(\<lambda>_. [])(bin_of 40 := (L + 8 + 8) # (\<lambda>_. []) (bin_of 40)) = ((\<lambda>_. [])(1 := [L + 16]) :: nat \<Rightarrow> nat list)"
      unfolding bin_examples e by simp
    with R4' show ?thesis by simp
  qed
  \<comment> \<open>\<open>free(b)\<close>: the left neighbour is free\<close>
  have "\<exists>st5. free st4 (of_nat (L + 56 + 8)) = Inr st5 \<and>
          repr st5 ([] @ (L + 8, 40 + 40 + 8, False) # [(L + 104, 40, True)])
            ((((\<lambda>_. [])(1 := [L + 16]))(bin_of 40 := remove1 (L + 8 + 8) (((\<lambda>_. [])(1 := [L + 16])) (bin_of 40))))
               (bin_of (40 + 40 + 8) :=
                  (L + 8 + 8) # (((\<lambda>_. [])(1 := [L + 16]))(bin_of 40 := remove1 (L + 8 + 8) (((\<lambda>_. [])(1 := [L + 16])) (bin_of 40))))
                     (bin_of (40 + 40 + 8)))) \<and>
          heap_lo st5 = heap_lo st4 \<and> heap_brk st5 = heap_brk st4 \<and> heap_max st5 = heap_max st4"
    by (rule free_prev) (use R4 in simp_all)
  then obtain st5 where f5': "free st4 (of_nat (L + 56 + 8)) = Inr st5"
    and R5': "repr st5 ([] @ (L + 8, 40 + 40 + 8, False) # [(L + 104, 40, True)])
            ((((\<lambda>_. [])(1 := [L + 16]))(bin_of 40 := remove1 (L + 8 + 8) (((\<lambda>_. [])(1 := [L + 16])) (bin_of 40))))
               (bin_of (40 + 40 + 8) :=
                  (L + 8 + 8) # (((\<lambda>_. [])(1 := [L + 16]))(bin_of 40 := remove1 (L + 8 + 8) (((\<lambda>_. [])(1 := [L + 16])) (bin_of 40))))
                     (bin_of (40 + 40 + 8))))" by blast
  have pb: "(of_nat (L + 56 + 8) :: 64 word) = lo + 64" by (simp add: L_def)
  have f5: "free st4 (lo + 64) = Inr st5" using f5' unfolding pb .
  have fl: "(((\<lambda>_. [])(1 := [L + 16]))(bin_of 40 := remove1 (L + 8 + 8) (((\<lambda>_. [])(1 := [L + 16])) (bin_of 40))))
               (bin_of (40 + 40 + 8) :=
                  (L + 8 + 8) # (((\<lambda>_. [])(1 := [L + 16]))(bin_of 40 := remove1 (L + 8 + 8) (((\<lambda>_. [])(1 := [L + 16])) (bin_of 40))))
                     (bin_of (40 + 40 + 8)))
            = ((\<lambda>_. [])(4 := [L + 16]) :: nat \<Rightarrow> nat list)"
    by (auto simp: fun_eq_iff bin_examples)
  have R5: "repr st5 [(L + 8, 88, False), (L + 104, 40, True)] ((\<lambda>_. [])(4 := [L + 16]))"
    using R5' unfolding fl by simp
  have Ra: "repr st5 ([] @ (L + 8, 88, False) # [(L + 104, 40, True)]) ((\<lambda>_. [])(4 := [L + 16]))"
    using R5 by simp
  have Rc: "repr st5 ([(L + 8, 88, False)] @ (L + 104, 40, True) # []) ((\<lambda>_. [])(4 := [L + 16]))"
    using R5 by simp
  note ra = read_block[OF Ra]
  note rc = read_block[OF Rc]
  have a8: "lo + 16 - 8 = (of_nat (L + 8) :: 64 word)" "lo + 112 - 8 = (of_nat (L + 104) :: 64 word)"
    by (simp_all add: L_def)
  have e88: "(88 :: 64 word) = of_nat 88" by simp
  have ix: "getFreeListIndex 88 = 4"
    using bin_of_valid(2)[of 88] by (simp add: bin_examples)
  have "isFree st5 (lo + 16 - 8)" "getBlockSize st5 (lo + 16 - 8) = 88"
    "getBlockSize st5 (getFooter (lo + 16 - 8) 88) = 88"
    "getNextHeader (lo + 16 - 8) 88 = lo + 112 - 8"
    "\<not> isFree st5 (lo + 112 - 8)" "isPrevFree st5 (lo + 112 - 8)"
    unfolding a8 e88 ra(4) ra(5) using ra(1,2,6) rc(2,3) by (simp_all add: last_alloc_def)
  moreover have "segFreeList st5 4 = lo + 16" "segFreeList st5 1 = 0"
    using read_head[OF R5, of 4] read_head[OF R5, of 1] by (simp_all add: head_or_def L_def)
  ultimately show ?thesis
    using t(1,2,3,4)[unfolded st3_def] f4[unfolded st3_def] f5 ix R5[unfolded L_def] by blast
qed

theorem forward_coalescing_witness:
  "0 < unat (0x1000 :: addr) \<and> unat (0x1000 :: addr) mod 16 = 0 \<and> 152 \<le> unat (0x1000 :: size_t) \<and>
   (\<exists>st0 a st1 b st2 c st3 st4 st5.
           mm_init (empty_region 0x1000 0x1000) = (True, st0) \<and>
           malloc st0 40 = Some (Inr (a, st1)) \<and> malloc st1 40 = Some (Inr (b, st2)) \<and>
           malloc st2 40 = Some (Inr (c, st3)) \<and>
           free st3 a = Inr st4 \<and> free st4 b = Inr st5 \<and>
           isFree st5 (a - 8) \<and> getBlockSize st5 (a - 8) = 88 \<and>
           getNextHeader (a - 8) 88 = c - 8 \<and> isPrevFree st5 (c - 8))"
proof -
  have h: "0 < unat (0x1000 :: addr)" "unat (0x1000 :: addr) mod 16 = 0" "152 \<le> unat (0x1000 :: size_t)"
    "unat (0x1000 :: addr) + unat (0x1000 :: size_t) < 2 ^ 64" by simp_all
  from forward_coalescing[OF h] h(1,2,3) show ?thesis by blast
qed

section \<open>Example heaps\<close>

lemma heap3_ok:
  "repr heap3 [(4104, 40, True), (4152, 40, True), (4200, 40, True)] (\<lambda>_. [])"
  "unat (heap_brk heap3) = 4248" "unat (heap_max heap3) = 8192" "heap_lo heap3 = 0x1000"
proof -
  have h: "0 < unat (0x1000 :: addr)" "unat (0x1000 :: addr) mod 16 = 0" "152 \<le> unat (0x1000 :: size_t)"
    "unat (0x1000 :: addr) + unat (0x1000 :: size_t) < 2 ^ 64" by simp_all
  note t = three_allocs[OF h, folded heap0_def, folded heap3_def]
  show "repr heap3 [(4104, 40, True), (4152, 40, True), (4200, 40, True)] (\<lambda>_. [])"
    "unat (heap_brk heap3) = 4248" "unat (heap_max heap3) = 8192" "heap_lo heap3 = 0x1000"
    using t(7,8,9,10) by simp_all
qed

lemma heap_full_ok:
  "repr heap_full [(4104, 40, True)] (\<lambda>_. [])"
  "unat (heap_brk heap_full) = 4152" "unat (heap_max heap_full) = 4152"
proof -
  have h: "0 < unat (0x1000 :: addr)" "unat (0x1000 :: addr) mod 16 = 0" "8 \<le> unat (0x38 :: size_t)"
    "unat (0x1000 :: addr) + unat (0x38 :: size_t) < 2 ^ 64" by simp_all
  note f0 = fresh_region[OF h]
  have n40: "unat (newAlign 40) = 40" by (simp add: newAlign_examples)
  have s40: "(40 :: size_t) \<noteq> 0" "(40 :: size_t) \<le> 0xFFFFFFFFFFFFFFE8" by simp_all
  have nf0: "\<not> fits [] 40" by (simp add: fits_def)
  have c0: "unat (heap_brk (init_st (empty_region 0x1000 0x38))) + (8 + 40)
              \<le> unat (heap_max (init_st (empty_region 0x1000 0x38)))" using f0(4,5) by simp
  note e1 = malloc_extend[OF f0(2) s40 n40 nf0 c0, folded heap_full_def]
  show "repr heap_full [(4104, 40, True)] (\<lambda>_. [])" using e1(2) f0(4) by simp
  show "unat (heap_brk heap_full) = 4152" using e1(5) f0(4) by simp
  show "unat (heap_max heap_full) = 4152" using e1(4) f0(5) by simp
qed

lemma heap_hole_ok:
  "repr heap_hole [(4104, 104, False), (4216, 40, True)] ((\<lambda>_. [])(4 := [4112]))"
  "unat (heap_brk heap_hole) = 4264" "unat (heap_max heap_hole) = 8192"
proof -
  have h: "0 < unat (0x1000 :: addr)" "unat (0x1000 :: addr) mod 16 = 0" "8 \<le> unat (0x1000 :: size_t)"
    "unat (0x1000 :: addr) + unat (0x1000 :: size_t) < 2 ^ 64" by simp_all
  note f0 = fresh_region[OF h, folded heap0_def]
  define s1 where "s1 = malloc_st heap0 100"
  define s2 where "s2 = malloc_st s1 40"
  have n100: "unat (newAlign 100) = 104" by (simp add: newAlign_examples)
  have n40: "unat (newAlign 40) = 40" by (simp add: newAlign_examples)
  have s100: "(100 :: size_t) \<noteq> 0" "(100 :: size_t) \<le> 0xFFFFFFFFFFFFFFE8" by simp_all
  have s40: "(40 :: size_t) \<noteq> 0" "(40 :: size_t) \<le> 0xFFFFFFFFFFFFFFE8" by simp_all
  have nf0: "\<not> fits [] 104" by (simp add: fits_def)
  have c0: "unat (heap_brk heap0) + (8 + 104) \<le> unat (heap_max heap0)" using f0(4,5) by simp
  note e1 = malloc_extend[OF f0(2) s100 n100 nf0 c0, folded s1_def]
  have R1: "repr s1 [(4104, 104, True)] (\<lambda>_. [])" using e1(2) f0(4) by simp
  have u1: "unat (heap_brk s1) = 4216" "unat (heap_max s1) = 8192" using e1(4,5) f0(4,5) by simp_all
  have nf1: "\<not> fits [(4104, 104, True)] 40" by (simp add: fits_def)
  have c1: "unat (heap_brk s1) + (8 + 40) \<le> unat (heap_max s1)" using u1 by simp
  note e2 = malloc_extend[OF R1 s40 n40 nf1 c1, folded s2_def]
  have R2: "repr s2 ([] @ (4104, 104, True) # [(4216, 40, True)]) (\<lambda>_. [])" using e2(2) u1(1) by simp
  have u2: "unat (heap_brk s2) = 4264" "unat (heap_max s2) = 8192" using e2(4,5) u1 by simp_all
  have "\<exists>st'. free s2 (of_nat (4104 + 8)) = Inr st' \<and>
          repr st' ([] @ (4104, 104, False) # [(4216, 40, True)])
            ((\<lambda>_. [])(bin_of 104 := (4104 + 8) # (\<lambda>_. []) (bin_of 104))) \<and>
          heap_lo st' = heap_lo s2 \<and> heap_brk st' = heap_brk s2 \<and> heap_max st' = heap_max s2"
    by (rule free_none[OF R2]) simp_all
  then obtain st' where f: "free s2 (of_nat (4104 + 8)) = Inr st'"
    and R': "repr st' ([] @ (4104, 104, False) # [(4216, 40, True)])
            ((\<lambda>_. [])(bin_of 104 := (4104 + 8) # (\<lambda>_. []) (bin_of 104)))"
    and fs: "heap_brk st' = heap_brk s2" "heap_max st' = heap_max s2" by blast
  have "free s2 0x1010 = Inr st'" using f by simp
  then have hh: "heap_hole = st'" unfolding heap_hole_def s2_def s1_def by (rule free_st_eq)
  have fl: "(\<lambda>_. [])(bin_of 104 := (4104 + 8) # (\<lambda>_. []) (bin_of 104)) = ((\<lambda>_. [])(4 := [4112]) :: nat \<Rightarrow> nat list)"
    by (simp add: bin_examples)
  show "repr heap_hole [(4104, 104, False), (4216, 40, True)] ((\<lambda>_. [])(4 := [4112]))"
    unfolding hh using R' unfolding fl by simp
  show "unat (heap_brk heap_hole) = 4264" "unat (heap_max heap_hole) = 8192"
    unfolding hh fs using u2 by simp_all
qed

text \<open>The footer of the free block of \<open>heap_hole\<close> holds the size 104, so its lowest
  byte is not zero: the payload of that block is not all zero.\<close>

lemma load64_low_byte: "(ucast (load64 f a) :: 8 word) = f a"
  unfolding load64_def by (rule bit_word_eqI) (auto simp add: bit_simps dest: bit_imp_le_length)

lemma footer_byte_nonzero:
  assumes "W m x AND 0xFFFFFFFFFFFFFFF8 = 104"
  shows "m (of_nat x) \<noteq> 0"
proof
  assume z: "m (of_nat x) = 0"
  have "bit (W m x AND 0xFFFFFFFFFFFFFFF8) 3" unfolding assms by simp
  then have "bit (W m x) 3" by (simp add: bit_and_iff)
  then have "bit (ucast (W m x) :: 8 word) 3" by (simp add: bit_ucast_iff)
  then show False using load64_low_byte[of m "of_nat x"] z by (simp add: W_def)
qed

lemma heap_hole_dirty: "mem heap_hole 0x1070 \<noteq> 0"
proof -
  have "W (mem heap_hole) (4104 + 104) AND 0xFFFFFFFFFFFFFFF8 = of_nat 104"
    using repr_mid(5)[of heap_hole "[]" 4104 104 False "[(4216, 40, True)]"] heap_hole_ok(1) by simp
  then have "mem heap_hole (of_nat 4208) \<noteq> 0" by (intro footer_byte_nonzero) simp
  then show ?thesis by simp
qed

section \<open>A request so large that the size of the new block wraps around\<close>

text \<open>The search of \<open>malloc\<close> when every list from the index on is empty.\<close>

lemma loop_empty:
  assumes "\<forall>i. idx < i \<and> i < 15 \<longrightarrow> segFreeList st i = 0"
  shows "idx < 15 \<Longrightarrow> malloc_loop st N (int idx) 0 True =
           Some (case extendHeap st N of (h, st1) \<Rightarrow> Inr (getPayload h, st1))"
  using assms
proof (induction "14 - idx" arbitrary: idx)
  case 0
  then have "idx = 14" by simp
  then show ?case using loop_end[of st N] by simp
next
  case (Suc k)
  then have idx: "idx < 14" by simp
  have "malloc_loop st N (int idx) 0 True = malloc_loop st N (int (Suc idx)) (segFreeList st (Suc idx)) True"
    by (rule loop_next_list[OF idx])
  also have "segFreeList st (Suc idx) = 0" using Suc.prems(2) idx by simp
  also have "malloc_loop st N (int (Suc idx)) 0 True =
           Some (case extendHeap st N of (h, st1) \<Rightarrow> Inr (getPayload h, st1))"
  proof (rule Suc.hyps(1))
    show "k = 14 - Suc idx" using Suc.hyps(2) by simp
    show "Suc idx < 15" using idx by simp
    show "\<forall>i. Suc idx < i \<and> i < 15 \<longrightarrow> segFreeList st i = 0" using Suc.prems(2) by simp
  qed
  finally show ?case .
qed

lemma malloc_empty:
  assumes s: "s \<noteq> 0" and ix: "getFreeListIndex (newAlign s) = int idx" "idx < 15"
    and e: "\<forall>i. idx \<le> i \<and> i < 15 \<longrightarrow> segFreeList st i = 0"
  shows "malloc st s = Some (case extendHeap st (newAlign s) of (h, st1) \<Rightarrow> Inr (getPayload h, st1))"
proof -
  have h: "segFreeList st idx = 0" using e ix(2) by simp
  have "malloc st s = malloc_loop st (newAlign s) (int idx) 0 True"
    unfolding malloc_def Let_def ix(1) using s ix(2) by (simp add: h)
  also have "\<dots> = Some (case extendHeap st (newAlign s) of (h, st1) \<Rightarrow> Inr (getPayload h, st1))"
    by (rule loop_empty[OF _ ix(2)]) (use e in simp)
  finally show ?thesis .
qed

text \<open>The heap extension without any assumption on the heap: the extender has room for
  \<open>8 + N\<close> bytes, where the sum is taken in \<^verbatim>\<open>size_t\<close>.\<close>

lemma extend_raw:
  assumes b8: "8 dvd b" "b + 8 \<le> 2 ^ 64" and hb: "heap_brk st = of_nat b"
    and cap: "unat (heap_brk st) + unat (8 + N) \<le> unat (heap_max st)"
    and nm1: "heap_brk st \<noteq> - 1"
    and N: "N = of_nat n" "8 dvd n"
    and lh: "lastHeader st = of_nat y" "8 dvd y" "y + 8 \<le> 2 ^ 64"
    and pa: "pa = (lastHeader st = heap_lo st \<or> y = b \<or> \<not> isFree st (of_nat y))"
  shows "\<exists>st'. extendHeap st N = (of_nat b, st') \<and> heap_lo st' = heap_lo st \<and>
           heap_brk st' = heap_brk st + (8 + N) \<and> heap_max st' = heap_max st \<and>
           segFreeList st' = segFreeList st \<and> lastHeader st' = of_nat b \<and>
           W (mem st') b = hdr n True pa \<and>
           (\<forall>x. 8 dvd x \<longrightarrow> x + 8 \<le> 2 ^ 64 \<longrightarrow> x \<noteq> b \<longrightarrow> W (mem st') x = W (mem st) x)"
proof -
  define st1 where "st1 = st\<lparr>heap_brk := heap_brk st + (8 + N)\<rparr>"
  define st2 where "st2 = wr st1 (of_nat b) 0"
  define st3 where "st3 = setAlloc st2 (of_nat b)"
  define st4 where "st4 = setBlockSize st3 (of_nat b) N"
  define st5 where "st5 = (if pa then setPrevAlloc st4 (of_nat b) else st4)"
  define st' where "st' = st5\<lparr>lastHeader := of_nat b\<rparr>"
  have m12: "modw st1 b (\<lambda>_. 0) st2" unfolding st2_def by (rule modw_wr[OF b8])
  have m23: "modw st2 b (\<lambda>w. w OR 1) st3" unfolding st3_def by (rule modw_setAlloc[OF b8])
  have m34: "modw st3 b (\<lambda>w. (w AND 7) OR N) st4" unfolding st4_def by (rule modw_setBlockSize[OF b8])
  have m14: "modw st1 b (\<lambda>_. hdr n True False) st4"
    using modw_comp[OF modw_comp[OF m12 m23 b8] m34 b8] unfolding N(1) by (simp only: hdr_fresh)
  have m45: "modw st4 b (\<lambda>w. if pa then w OR 2 else w) st5"
    unfolding st5_def using modw_setPrevAlloc[OF b8, of st4] modw_id[of st4 b] by (cases pa) simp_all
  have m15: "modw st1 b (\<lambda>_. hdr n True pa) st5"
    using modw_comp[OF m14 m45 b8] by (cases pa) (simp_all add: hdr_set_prev_alloc)
  have m1: "mem st1 = mem st" by (simp add: st1_def)
  have f4: "lastHeader st4 = lastHeader st" "heap_lo st4 = heap_lo st"
    using modw_fields[OF m14] by (simp_all add: st1_def)
  have W4b: "W (mem st4) b = hdr n True False" using modw_val[OF m14 b8] .
  have if4: "isFree st4 (of_nat y) = (y \<noteq> b \<and> isFree st (of_nat y))"
  proof (cases "y = b")
    case True
    then show ?thesis using decode(2)[OF W4b N(2)] by simp
  next
    case False
    have "W (mem st4) y = W (mem st) y" using modw_other[OF m14 lh(2,3) False] by (simp add: m1)
    then show ?thesis using False by (simp add: isFree_def rd_W)
  qed
  have cond: "(if lastHeader st4 \<noteq> mm_heap_lo st4
          then (if \<not> isFree st4 (lastHeader st4) then setPrevAlloc st4 (of_nat b) else st4)
          else setPrevAlloc st4 (of_nat b)) = st5"
    unfolding f4 mm_heap_lo_def lh(1) if4 st5_def pa using lh(1) by auto
  have "extendHeap st N = (heap_brk st,
      (if lastHeader st4 \<noteq> mm_heap_lo st4
          then (if \<not> isFree st4 (lastHeader st4) then setPrevAlloc st4 (of_nat b) else st4)
          else setPrevAlloc st4 (of_nat b))\<lparr>lastHeader := heap_brk st\<rparr>)"
    unfolding extendHeap_def mm_sbrk_def st4_def st3_def st2_def st1_def hb[symmetric]
    using cap nm1 by (simp add: Let_def)
  then have run: "extendHeap st N = (of_nat b, st')"
    unfolding cond st'_def hb .
  have f5: "heap_lo st5 = heap_lo st" "heap_brk st5 = heap_brk st + (8 + N)"
    "heap_max st5 = heap_max st" "segFreeList st5 = segFreeList st"
    using modw_fields[OF m15] by (simp_all add: st1_def)
  have Wb: "W (mem st5) b = hdr n True pa" using modw_val[OF m15 b8] .
  have Wo: "W (mem st5) x = W (mem st) x" if "8 dvd x" "x + 8 \<le> 2 ^ 64" "x \<noteq> b" for x
    using modw_other[OF m15 that] by (simp add: m1)
  show ?thesis
    apply (rule exI[of _ st'])
    using run f5 Wb Wo by (simp add: st'_def)
qed

lemma heap_freed_ok:
  "malloc heap0 40 = Some (Inr (0x1010, malloc_st heap0 40))"
  "free (malloc_st heap0 40) 0x1010 = Inr heap_freed"
  "repr heap_freed [(4104, 40, False)] ((\<lambda>_. [])(1 := [4112]))"
  "heap_lo heap_freed = 0x1000" "heap_brk heap_freed = 0x1038" "heap_max heap_freed = 0x2000"
proof -
  have h: "0 < unat (0x1000 :: addr)" "unat (0x1000 :: addr) mod 16 = 0" "8 \<le> unat (0x1000 :: size_t)"
    "unat (0x1000 :: addr) + unat (0x1000 :: size_t) < 2 ^ 64" by simp_all
  note f0 = fresh_region[OF h, folded heap0_def]
  define s1 where "s1 = malloc_st heap0 40"
  have n40: "unat (newAlign 40) = 40" by (simp add: newAlign_examples)
  have s40: "(40 :: size_t) \<noteq> 0" "(40 :: size_t) \<le> 0xFFFFFFFFFFFFFFE8" by simp_all
  have nf0: "\<not> fits [] 40" by (simp add: fits_def)
  have c0: "unat (heap_brk heap0) + (8 + 40) \<le> unat (heap_max heap0)" using f0(4,5) by simp
  note e1 = malloc_extend[OF f0(2) s40 n40 nf0 c0, folded s1_def]
  have b0: "heap_brk heap0 = 0x1000 + 8" using brk_word[OF f0(4)] by simp
  have R1: "repr s1 ([] @ (4104, 40, True) # []) (\<lambda>_. [])" using e1(2) f0(4) by simp
  have u1: "unat (heap_brk s1) = 4152" "unat (heap_max s1) = 8192" "heap_lo s1 = 0x1000"
    using e1(3,4,5) f0(3,4,5) by simp_all
  have "\<exists>st'. free s1 (of_nat (4104 + 8)) = Inr st' \<and>
          repr st' ([] @ (4104, 40, False) # [])
            ((\<lambda>_. [])(bin_of 40 := (4104 + 8) # (\<lambda>_. []) (bin_of 40))) \<and>
          heap_lo st' = heap_lo s1 \<and> heap_brk st' = heap_brk s1 \<and> heap_max st' = heap_max s1"
    by (rule free_none[OF R1]) simp_all
  then obtain st' where f: "free s1 (of_nat (4104 + 8)) = Inr st'"
    and R': "repr st' ([] @ (4104, 40, False) # [])
            ((\<lambda>_. [])(bin_of 40 := (4104 + 8) # (\<lambda>_. []) (bin_of 40)))"
    and fs: "heap_lo st' = heap_lo s1" "heap_brk st' = heap_brk s1" "heap_max st' = heap_max s1" by blast
  have f': "free s1 0x1010 = Inr st'" using f by simp
  then have hh: "heap_freed = st'" unfolding heap_freed_def s1_def by (rule free_st_eq)
  have fl: "(\<lambda>_. [])(bin_of 40 := (4104 + 8) # (\<lambda>_. []) (bin_of 40)) = ((\<lambda>_. [])(1 := [4112]) :: nat \<Rightarrow> nat list)"
    by (simp add: bin_examples)
  show "malloc heap0 40 = Some (Inr (0x1010, malloc_st heap0 40))"
    using e1(1) by (simp add: b0 s1_def)
  show "free (malloc_st heap0 40) 0x1010 = Inr heap_freed" using f' by (simp add: hh s1_def)
  show "repr heap_freed [(4104, 40, False)] ((\<lambda>_. [])(1 := [4112]))"
    unfolding hh using R' unfolding fl by simp
  show "heap_lo heap_freed = 0x1000" unfolding hh fs by (rule u1(3))
  have "heap_brk s1 = of_nat (unat (heap_brk s1))" by simp
  then show "heap_brk heap_freed = 0x1038" unfolding hh fs u1(1) by simp
  have "heap_max s1 = of_nat (unat (heap_max s1))" by simp
  then show "heap_max heap_freed = 0x2000" unfolding hh fs u1(2) by simp
qed

lemma heap_freed_lists:
  "segFreeList heap_freed 1 = 0x1010" "\<forall>i. 2 \<le> i \<and> i < 15 \<longrightarrow> segFreeList heap_freed i = 0"
  "lastHeader heap_freed = 0x1008" "W (mem heap_freed) 4104 = hdr 40 False True"
proof -
  note R = heap_freed_ok(3)
  from R have L: "lists_ok heap_freed ((\<lambda>_. [])(1 := [4112]))" by (simp add: repr_def)
  from L show "segFreeList heap_freed 1 = 0x1010" by (simp add: lists_ok_def)
  from L show "\<forall>i. 2 \<le> i \<and> i < 15 \<longrightarrow> segFreeList heap_freed i = 0" by (simp add: lists_ok_def)
  from R show "lastHeader heap_freed = 0x1008" by (simp add: repr_def)
  from repr_mid(3)[of heap_freed "[]" 4104 40 False "[]"] R
  show "W (mem heap_freed) 4104 = hdr 40 False True" by simp
qed

lemma wrap_size:
  "newAlign 0xFFFFFFFFFFFFFFF0 = 0xFFFFFFFFFFFFFFF8" "getFreeListIndex 0xFFFFFFFFFFFFFFF8 = 14"
  "(8 :: size_t) + 0xFFFFFFFFFFFFFFF8 = 0" "newAlign 56 = 56" "getFreeListIndex 56 = 2"
  by (simp_all add: newAlign_def align_def getFreeListIndex_def)

lemma heap_wrapped_ok:
  "malloc heap_freed 0xFFFFFFFFFFFFFFF0 = Some (Inr (0x1040, heap_wrapped))"
  "heap_lo heap_wrapped = 0x1000" "heap_brk heap_wrapped = 0x1038" "heap_max heap_wrapped = 0x2000"
  "segFreeList heap_wrapped = segFreeList heap_freed" "lastHeader heap_wrapped = 0x1038"
  "\<forall>x. 8 dvd x \<longrightarrow> x + 8 \<le> 2 ^ 64 \<longrightarrow> x \<noteq> 4152 \<longrightarrow> W (mem heap_wrapped) x = W (mem heap_freed) x"
proof -
  have e: "\<forall>i. 14 \<le> i \<and> i < 15 \<longrightarrow> segFreeList heap_freed i = 0"
    using heap_freed_lists(2) by simp
  have m: "malloc heap_freed 0xFFFFFFFFFFFFFFF0 =
      Some (case extendHeap heap_freed 0xFFFFFFFFFFFFFFF8 of (h, st1) \<Rightarrow> Inr (getPayload h, st1))"
    using malloc_empty[of "0xFFFFFFFFFFFFFFF0" 14 heap_freed] e by (simp add: wrap_size)
  have fr: "isFree heap_freed (of_nat 4104)"
    using decode(2)[OF heap_freed_lists(4)] by simp
  have "\<exists>st'. extendHeap heap_freed 0xFFFFFFFFFFFFFFF8 = (of_nat 4152, st') \<and>
           heap_lo st' = heap_lo heap_freed \<and>
           heap_brk st' = heap_brk heap_freed + (8 + 0xFFFFFFFFFFFFFFF8) \<and>
           heap_max st' = heap_max heap_freed \<and>
           segFreeList st' = segFreeList heap_freed \<and> lastHeader st' = of_nat 4152 \<and>
           W (mem st') 4152 = hdr 18446744073709551608 True False \<and>
           (\<forall>x. 8 dvd x \<longrightarrow> x + 8 \<le> 2 ^ 64 \<longrightarrow> x \<noteq> 4152 \<longrightarrow> W (mem st') x = W (mem heap_freed) x)"
  proof (rule extend_raw[where y = 4104])
    show "8 dvd (4152 :: nat)" "(4152 :: nat) + 8 \<le> 2 ^ 64" by simp_all
    show "heap_brk heap_freed = of_nat 4152" by (simp add: heap_freed_ok)
    show "unat (heap_brk heap_freed) + unat (8 + 0xFFFFFFFFFFFFFFF8 :: size_t) \<le> unat (heap_max heap_freed)"
      by (simp add: heap_freed_ok wrap_size)
    show "heap_brk heap_freed \<noteq> - 1" by (simp add: heap_freed_ok)
    show "(0xFFFFFFFFFFFFFFF8 :: size_t) = of_nat 18446744073709551608" by simp
    show "8 dvd (18446744073709551608 :: nat)" by simp
    show "lastHeader heap_freed = of_nat 4104" by (simp add: heap_freed_lists)
    show "8 dvd (4104 :: nat)" "(4104 :: nat) + 8 \<le> 2 ^ 64" by simp_all
    show "False = (lastHeader heap_freed = heap_lo heap_freed \<or> (4104 :: nat) = 4152 \<or>
            \<not> isFree heap_freed (of_nat 4104))"
      using fr by (simp add: heap_freed_lists heap_freed_ok)
  qed
  then obtain st' where x: "extendHeap heap_freed 0xFFFFFFFFFFFFFFF8 = (of_nat 4152, st')"
    and f: "heap_lo st' = heap_lo heap_freed"
      "heap_brk st' = heap_brk heap_freed + (8 + 0xFFFFFFFFFFFFFFF8)"
      "heap_max st' = heap_max heap_freed" "segFreeList st' = segFreeList heap_freed"
      "lastHeader st' = of_nat 4152"
    and w: "\<forall>x. 8 dvd x \<longrightarrow> x + 8 \<le> 2 ^ 64 \<longrightarrow> x \<noteq> 4152 \<longrightarrow> W (mem st') x = W (mem heap_freed) x"
    by blast
  have m': "malloc heap_freed 0xFFFFFFFFFFFFFFF0 = Some (Inr (0x1040, st'))"
    unfolding m x by (simp add: getPayload_plus)
  then have hh: "heap_wrapped = st'" by (simp add: heap_wrapped_def malloc_st_def)
  show "malloc heap_freed 0xFFFFFFFFFFFFFFF0 = Some (Inr (0x1040, heap_wrapped))"
    unfolding hh by (rule m')
  show "heap_lo heap_wrapped = 0x1000" unfolding hh f by (rule heap_freed_ok)
  show "heap_brk heap_wrapped = 0x1038" unfolding hh f by (simp add: heap_freed_ok)
  show "heap_max heap_wrapped = 0x2000" unfolding hh f by (rule heap_freed_ok)
  show "segFreeList heap_wrapped = segFreeList heap_freed" unfolding hh by (rule f)
  show "lastHeader heap_wrapped = 0x1038" unfolding hh f by simp
  show "\<forall>x. 8 dvd x \<longrightarrow> x + 8 \<le> 2 ^ 64 \<longrightarrow> x \<noteq> 4152 \<longrightarrow> W (mem heap_wrapped) x = W (mem heap_freed) x"
    unfolding hh by (rule w)
qed

lemma heap_wrapped2_ok:
  "malloc heap_wrapped 56 = Some (Inr (0x1040, heap_wrapped2))"
  "heap_lo heap_wrapped2 = 0x1000" "heap_brk heap_wrapped2 = 0x1078" "heap_max heap_wrapped2 = 0x2000"
  "segFreeList heap_wrapped2 = segFreeList heap_freed" "lastHeader heap_wrapped2 = 0x1038"
  "W (mem heap_wrapped2) 4152 = hdr 56 True True"
  "\<forall>x. 8 dvd x \<longrightarrow> x + 8 \<le> 2 ^ 64 \<longrightarrow> x \<noteq> 4152 \<longrightarrow> W (mem heap_wrapped2) x = W (mem heap_freed) x"
proof -
  have e: "\<forall>i. 2 \<le> i \<and> i < 15 \<longrightarrow> segFreeList heap_wrapped i = 0"
    using heap_freed_lists(2) by (simp add: heap_wrapped_ok)
  have m: "malloc heap_wrapped 56 =
      Some (case extendHeap heap_wrapped 56 of (h, st1) \<Rightarrow> Inr (getPayload h, st1))"
    using malloc_empty[of 56 2 heap_wrapped] e by (simp add: wrap_size)
  have "\<exists>st'. extendHeap heap_wrapped 56 = (of_nat 4152, st') \<and>
           heap_lo st' = heap_lo heap_wrapped \<and>
           heap_brk st' = heap_brk heap_wrapped + (8 + 56) \<and>
           heap_max st' = heap_max heap_wrapped \<and>
           segFreeList st' = segFreeList heap_wrapped \<and> lastHeader st' = of_nat 4152 \<and>
           W (mem st') 4152 = hdr 56 True True \<and>
           (\<forall>x. 8 dvd x \<longrightarrow> x + 8 \<le> 2 ^ 64 \<longrightarrow> x \<noteq> 4152 \<longrightarrow> W (mem st') x = W (mem heap_wrapped) x)"
  proof (rule extend_raw[where y = 4152])
    show "8 dvd (4152 :: nat)" "(4152 :: nat) + 8 \<le> 2 ^ 64" by simp_all
    show "heap_brk heap_wrapped = of_nat 4152" by (simp add: heap_wrapped_ok)
    show "unat (heap_brk heap_wrapped) + unat (8 + 56 :: size_t) \<le> unat (heap_max heap_wrapped)"
      by (simp add: heap_wrapped_ok)
    show "heap_brk heap_wrapped \<noteq> - 1" by (simp add: heap_wrapped_ok)
    show "(56 :: size_t) = of_nat 56" by simp
    show "8 dvd (56 :: nat)" by simp
    show "lastHeader heap_wrapped = of_nat 4152" by (simp add: heap_wrapped_ok)
    show "8 dvd (4152 :: nat)" "(4152 :: nat) + 8 \<le> 2 ^ 64" by simp_all
    show "True = (lastHeader heap_wrapped = heap_lo heap_wrapped \<or> (4152 :: nat) = 4152 \<or>
            \<not> isFree heap_wrapped (of_nat 4152))" by simp
  qed
  then obtain st' where x: "extendHeap heap_wrapped 56 = (of_nat 4152, st')"
    and f: "heap_lo st' = heap_lo heap_wrapped"
      "heap_brk st' = heap_brk heap_wrapped + (8 + 56)"
      "heap_max st' = heap_max heap_wrapped" "segFreeList st' = segFreeList heap_wrapped"
      "lastHeader st' = of_nat 4152"
    and wb: "W (mem st') 4152 = hdr 56 True True"
    and w: "\<forall>x. 8 dvd x \<longrightarrow> x + 8 \<le> 2 ^ 64 \<longrightarrow> x \<noteq> 4152 \<longrightarrow> W (mem st') x = W (mem heap_wrapped) x"
    by blast
  have m': "malloc heap_wrapped 56 = Some (Inr (0x1040, st'))"
    unfolding m x by (simp add: getPayload_plus)
  then have hh: "heap_wrapped2 = st'" by (simp add: heap_wrapped2_def malloc_st_def)
  show "malloc heap_wrapped 56 = Some (Inr (0x1040, heap_wrapped2))" unfolding hh by (rule m')
  show "heap_lo heap_wrapped2 = 0x1000" unfolding hh f by (rule heap_wrapped_ok)
  show "heap_brk heap_wrapped2 = 0x1078" unfolding hh f by (simp add: heap_wrapped_ok)
  show "heap_max heap_wrapped2 = 0x2000" unfolding hh f by (rule heap_wrapped_ok)
  show "segFreeList heap_wrapped2 = segFreeList heap_freed" unfolding hh f by (rule heap_wrapped_ok)
  show "lastHeader heap_wrapped2 = 0x1038" unfolding hh f by simp
  show "W (mem heap_wrapped2) 4152 = hdr 56 True True" unfolding hh by (rule wb)
  show "\<forall>x. 8 dvd x \<longrightarrow> x + 8 \<le> 2 ^ 64 \<longrightarrow> x \<noteq> 4152 \<longrightarrow> W (mem heap_wrapped2) x = W (mem heap_freed) x"
    unfolding hh using w heap_wrapped_ok(7) by simp
qed

text \<open>In \<open>heap_wrapped2\<close> the block at \<open>0x1008\<close> is free and the block after it is allocated,
  with its previous-allocated bit set.\<close>

lemma heap_wrapped2_blocks:
  "isFree heap_wrapped2 0x1008" "getBlockSize heap_wrapped2 0x1008 = 40"
  "\<not> isFree heap_wrapped2 0x1038" "\<not> isPrevFree heap_wrapped2 0x1038"
  "getBlockSize heap_wrapped2 0x1038 = 56"
proof -
  have "W (mem heap_wrapped2) 4104 = hdr 40 False True"
    using heap_wrapped2_ok(8) heap_freed_lists(4) by simp
  from decode(1,2)[OF this]
  show "isFree heap_wrapped2 0x1008" "getBlockSize heap_wrapped2 0x1008 = 40" by simp_all
  from decode[OF heap_wrapped2_ok(7)]
  show "\<not> isFree heap_wrapped2 0x1038" "\<not> isPrevFree heap_wrapped2 0x1038"
    "getBlockSize heap_wrapped2 0x1038 = 56" by simp_all
qed

lemma heap_broken_ok:
  "free heap_wrapped2 0x1040 = Inr heap_broken"
  "heap_lo heap_broken = 0x1000" "heap_brk heap_broken = 0x1078"
  "W (mem heap_broken) 4104 = hdr 40 False True" "W (mem heap_broken) 4152 = hdr 56 False True"
proof -
  define st1 where "st1 = setBlockSize heap_wrapped2 (of_nat 4208) 56"
  define st2 where "st2 = setFree st1 (of_nat 4208)"
  define st3 where "st3 = setFree st2 (of_nat 4152)"
  define st4 where "st4 = wr st3 (of_nat 4160) 0"
  define st5 where "st5 = wr st4 (of_nat 4168) 0"
  define st6 where "st6 = st5\<lparr>segFreeList := (segFreeList st5)(2 := 0x1040)\<rparr>"
  have a: "8 dvd (4208 :: nat)" "(4208 :: nat) + 8 \<le> 2 ^ 64" "8 dvd (4152 :: nat)" "(4152 :: nat) + 8 \<le> 2 ^ 64"
    "8 dvd (4160 :: nat)" "(4160 :: nat) + 8 \<le> 2 ^ 64" "8 dvd (4168 :: nat)" "(4168 :: nat) + 8 \<le> 2 ^ 64"
    "8 dvd (4104 :: nat)" "(4104 :: nat) + 8 \<le> 2 ^ 64"
    by simp_all
  have m1: "modw heap_wrapped2 4208 (\<lambda>w. (w AND 7) OR 56) st1"
    unfolding st1_def by (rule modw_setBlockSize[OF a(1,2)])
  have m2: "modw st1 4208 (\<lambda>w. w AND 0xFFFFFFFFFFFFFFFE) st2"
    unfolding st2_def by (rule modw_setFree[OF a(1,2)])
  have m3: "modw st2 4152 (\<lambda>w. w AND 0xFFFFFFFFFFFFFFFE) st3"
    unfolding st3_def by (rule modw_setFree[OF a(3,4)])
  have m4: "modw st3 4160 (\<lambda>_. 0) st4" unfolding st4_def by (rule modw_wr[OF a(5,6)])
  have m5: "modw st4 4168 (\<lambda>_. 0) st5" unfolding st5_def by (rule modw_wr[OF a(7,8)])
  note fl = modw_fields[OF m1] modw_fields[OF m2] modw_fields[OF m3] modw_fields[OF m4]
    modw_fields[OF m5]
  have gs: "getBlockSize heap_wrapped2 (of_nat 4152) = of_nat 56"
    and ipf: "isPrevFree heap_wrapped2 (of_nat 4152) = (\<not> True)"
    using decode(1,3)[OF heap_wrapped2_ok(7)] by simp_all
  have ih: "in_heap heap_wrapped2 0x1040"
    by (simp add: in_heap_def mm_heap_hi_def mm_heap_lo_def heap_wrapped2_ok)
  have lh3: "lastHeader st3 = 0x1038" using fl by (simp add: heap_wrapped2_ok)
  have nc: "no_coalesce heap_wrapped2 0x1040 0x1038 0x1070 56 0x1078 2 = Inr (st3, 0x1040, 2)"
    unfolding no_coalesce_def Let_def using lh3 by (simp add: st3_def st2_def st1_def)
  have seg3: "segFreeList st3 2 = 0"
    using fl heap_freed_lists(2) by (simp add: heap_wrapped2_ok)
  have ad: "addFreeBlock st3 0x1040 2 = Inr st6"
    unfolding addFreeBlock_def Let_def using seg3
    by (simp add: setNextFreeBlock_def setPrevFreeBlock_def mul8_div8 st6_def st5_def st4_def)
  have run: "free heap_wrapped2 0x1040 = Inr st6"
  proof -
    have gs': "getBlockSize heap_wrapped2 0x1038 = 56" using gs by simp
    have ipf': "\<not> isPrevFree heap_wrapped2 0x1038" using ipf by simp
    have "free heap_wrapped2 0x1040 =
        (case no_coalesce heap_wrapped2 0x1040 0x1038 0x1070 56 0x1078 2 of
           Inl e \<Rightarrow> Inl e | Inr (st1, p1, index1) \<Rightarrow> addFreeBlock st1 p1 index1)"
      unfolding free_def Let_def using ih gs' ipf'
      by (simp add: heap_wrapped2_ok getFooter_def getNextHeader_def get8ByteAlignment_def wrap_size)
    then show ?thesis unfolding nc by (simp add: ad)
  qed
  then have hh: "heap_broken = st6" unfolding heap_broken_def by (rule free_st_eq)
  show "free heap_wrapped2 0x1040 = Inr heap_broken" unfolding hh by (rule run)
  show "heap_lo heap_broken = 0x1000" unfolding hh using fl by (simp add: st6_def heap_wrapped2_ok)
  show "heap_brk heap_broken = 0x1078" unfolding hh using fl by (simp add: st6_def heap_wrapped2_ok)
  have "W (mem st6) 4104 = W (mem heap_wrapped2) 4104"
    using modw_other[OF m5 a(9,10)] modw_other[OF m4 a(9,10)] modw_other[OF m3 a(9,10)]
      modw_other[OF m2 a(9,10)] modw_other[OF m1 a(9,10)] by (simp add: st6_def)
  also have "\<dots> = W (mem heap_freed) 4104" using heap_wrapped2_ok(8) by simp
  finally show "W (mem heap_broken) 4104 = hdr 40 False True"
    unfolding hh by (simp add: heap_freed_lists)
  have "W (mem st6) 4152 = W (mem st3) 4152"
    using modw_other[OF m5 a(3,4)] modw_other[OF m4 a(3,4)] by (simp add: st6_def)
  also have "\<dots> = W (mem st2) 4152 AND 0xFFFFFFFFFFFFFFFE" by (rule modw_val[OF m3 a(3,4)])
  also have "W (mem st2) 4152 = W (mem heap_wrapped2) 4152"
    using modw_other[OF m2 a(3,4)] modw_other[OF m1 a(3,4)] by simp
  finally show "W (mem heap_broken) 4152 = hdr 56 False True"
    unfolding hh heap_wrapped2_ok(7) using hdr_set_free[OF of_nat_and7, of 56 True True] by simp
qed

text \<open>In \<open>heap_broken\<close> the block at \<open>0x1008\<close> is free and has 40 bytes, the next header is
  \<open>0x1038\<close>, inside the heap, and the block there is free as well.\<close>

lemma heap_broken_adjacent:
  "isFree heap_broken 0x1008" "getBlockSize heap_broken 0x1008 = 40"
  "getNextHeader 0x1008 40 = 0x1038" "isFree heap_broken 0x1038"
  "getBlockSize heap_broken 0x1038 = 56" "getNextHeader 0x1038 56 = 0x1078"
proof -
  from decode(1,2)[OF heap_broken_ok(4)]
  show "isFree heap_broken 0x1008" "getBlockSize heap_broken 0x1008 = 40" by simp_all
  from decode(1,2)[OF heap_broken_ok(5)]
  show "isFree heap_broken 0x1038" "getBlockSize heap_broken 0x1038 = 56" by simp_all
  show "getNextHeader 0x1008 40 = 0x1038" "getNextHeader 0x1038 56 = 0x1078"
    by (simp_all add: getNextHeader_def get8ByteAlignment_def)
qed

text \<open>No sequence of blocks describes \<open>heap_broken\<close>.\<close>

lemma heap_broken_no_repr: "\<not> repr heap_broken bs fl"
proof
  assume R: "repr heap_broken bs fl"
  have u: "unat (heap_lo heap_broken) = 4096" "unat (heap_brk heap_broken) = 4216"
    by (simp_all add: heap_broken_ok)
  from R have c: "chain 4104 bs 4216" and t: "tags_ok (mem heap_broken) True bs"
    by (simp_all add: repr_def u)
  from c obtain b1 rest where bs: "bs = b1 # rest" by (cases bs) auto
  obtain a1 s1 l1 where b1: "b1 = (a1, s1, l1)" by (cases b1)
  from c have c1: "a1 = 4104" "s1 mod 16 = 8" "chain (4104 + 8 + s1) rest 4216"
    unfolding bs b1 by simp_all
  from t have w1: "W (mem heap_broken) 4104 = hdr s1 l1 True" and t1: "tags_ok (mem heap_broken) l1 rest"
    unfolding bs b1 c1(1) by simp_all
  have s8: "8 dvd s1" using c1(2) by (rule mod16_dvd8)
  have sl: "s1 < 2 ^ 64" using chain_le[OF c1(3)] by simp
  from decode(1,2)[OF w1 s8] heap_broken_adjacent(1,2)
  have "(of_nat s1 :: 64 word) = 40" and l1: "\<not> l1" by simp_all
  then have "unat (of_nat s1 :: 64 word) = 40" by simp
  then have s1: "s1 = 40" using unat_of_nat64[OF sl] by simp
  from c1(3) have c2: "chain 4152 rest 4216" by (simp add: s1)
  then obtain b2 rest' where rest: "rest = b2 # rest'" by (cases rest) auto
  obtain a2 s2 l2 where b2: "b2 = (a2, s2, l2)" by (cases b2)
  from c2 have c3: "a2 = 4152" "s2 mod 16 = 8" unfolding rest b2 by simp_all
  from t1 have w2: "W (mem heap_broken) 4152 = hdr s2 l2 l1" and l2: "l2 \<or> l1"
    unfolding rest b2 c3(1) by simp_all
  from decode(2)[OF w2 mod16_dvd8[OF c3(2)]] heap_broken_adjacent(4) have "\<not> l2" by simp
  with l1 l2 show False by simp
qed

section \<open>Failure of the heap extender\<close>

lemma sbrk_fails:
  assumes "n + 8 < 2 ^ 64"
  shows "(fst (mm_sbrk st (8 + of_nat n)) = - 1) = (\<not> unat (heap_brk st) + (8 + n) \<le> unat (heap_max st))"
proof (cases "unat (heap_brk st) + (8 + n) \<le> unat (heap_max st)")
  case True
  have mx: "unat (heap_max st) < 2 ^ 64" using unsigned_less[of "heap_max st", where 'a=nat] by simp
  have "unat (heap_brk st) \<noteq> unat (- 1 :: 64 word)"
    using True mx by (simp add: unsigned_minus_1_eq_mask mask_eq_exp_minus_1)
  then have "heap_brk st \<noteq> - 1" by auto
  then show ?thesis using True unfolding mm_sbrk_def unat_8_plus[OF assms] by simp
next
  case False
  then show ?thesis unfolding mm_sbrk_def unat_8_plus[OF assms] by simp
qed

text \<open>
  Claim C1 says that \<^verbatim>\<open>malloc\<close> returns null exactly when no free block fits and the
  heap extender fails. The code does not: \<^verbatim>\<open>malloc\<close> ends with
  \<^verbatim>\<open>return getPayload(extendHeap(new_block_size))\<close>, and \<^verbatim>\<open>extendHeap\<close> returns
  \<^verbatim>\<open>NULL\<close> when \<^verbatim>\<open>mm_sbrk\<close> fails, so the caller receives \<^verbatim>\<open>getPayload(NULL)\<close>, the
  address 8. What holds of the code, on a well-formed heap in which no free block fits a
  request \<open>s\<close> with \<open>0 < s \<le> 2\<^sup>6\<^sup>4 - 24\<close>: when the extender fails the
  result is the address 8 and the state is unchanged (so the invariants still hold and
  blocks handed out earlier can still be freed); when it succeeds the result is the payload
  of a new last block; the result is never null.
\<close>

theorem malloc_extender_failure:
  assumes "repr st bs fl" and "s \<noteq> 0" and "s \<le> 0xFFFFFFFFFFFFFFE8"
    and "\<not> fits bs (unat (newAlign s))"
  shows "(fst (mm_sbrk st (HEADER_SIZE + newAlign s)) = - 1 \<longrightarrow>
            malloc st s = Some (Inr (8, st)) \<and>
            (\<forall>a sz. (a, sz, True) \<in> set bs \<longrightarrow>
               (\<exists>st'' bs'' fl''. free st (of_nat (a + 8)) = Inr st'' \<and> repr st'' bs'' fl'')))
       \<and> (fst (mm_sbrk st (HEADER_SIZE + newAlign s)) \<noteq> - 1 \<longrightarrow>
            (\<exists>st'. malloc st s = Some (Inr (heap_brk st + 8, st')) \<and>
                   repr st' (bs @ [(unat (heap_brk st), unat (newAlign s), True)]) fl))
       \<and> (\<exists>p st'. malloc st s = Some (Inr (p, st')) \<and> p \<noteq> 0)"
proof -
  define n where "n = unat (newAlign s)"
  note ns = norm_size[OF assms(3), folded n_def]
  have nn: "newAlign s = of_nat n" by (simp add: n_def)
  note sf = sbrk_fails[OF ns(3), of st, folded nn]
  have fr: "\<forall>a sz. (a, sz, True) \<in> set bs \<longrightarrow>
               (\<exists>st'' bs'' fl''. free st (of_nat (a + 8)) = Inr st'' \<and> repr st'' bs'' fl'')"
    using free_spec[OF assms(1)] by blast
  show ?thesis
  proof (cases "unat (heap_brk st) + (8 + n) \<le> unat (heap_max st)")
    case True
    note e = malloc_extend[OF assms(1,2,3) n_def[symmetric] assms(4)[folded n_def] True]
    have m: "(unat (heap_brk st), n, True) \<in> set (bs @ [(unat (heap_brk st), n, True)])" by simp
    have "heap_brk st + 8 \<noteq> 0" using payload_nonzero[OF e(2) m] by simp
    then show ?thesis using e(1,2) True sf unfolding n_def[symmetric] by auto
  next
    case False
    then have "\<not> can_alloc st bs n" using assms(4) by (simp add: can_alloc_def n_def)
    from malloc_fail[OF assms(1,2,3) n_def[symmetric] this] False sf fr show ?thesis by simp
  qed
qed

theorem malloc_extender_failure_witness:
  "repr heap_full [(4104, 40, True)] (\<lambda>_. []) \<and> (40 :: size_t) \<noteq> 0 \<and>
   \<not> fits [(4104, 40, True)] (unat (newAlign 40)) \<and>
   fst (mm_sbrk heap_full (HEADER_SIZE + newAlign 40)) = - 1 \<and>
   malloc heap_full 40 = Some (Inr (8, heap_full)) \<and>
   (\<exists>st'' bs'' fl''. free heap_full 0x1010 = Inr st'' \<and> repr st'' bs'' fl'')"
proof -
  have nf: "\<not> fits [(4104, 40, True)] (unat (newAlign 40))" by (simp add: fits_def)
  have s: "(40 :: size_t) \<noteq> 0" "(40 :: size_t) \<le> 0xFFFFFFFFFFFFFFE8" by simp_all
  have f: "fst (mm_sbrk heap_full (HEADER_SIZE + newAlign 40)) = - 1"
    by (simp add: mm_sbrk_def newAlign_examples heap_full_ok)
  from malloc_extender_failure[OF heap_full_ok(1) s nf] f
  have m: "malloc heap_full 40 = Some (Inr (8, heap_full))"
    and fr: "\<forall>a sz. (a, sz, True) \<in> set [(4104, 40, True)] \<longrightarrow>
               (\<exists>st'' bs'' fl''. free heap_full (of_nat (a + 8)) = Inr st'' \<and> repr st'' bs'' fl'')"
    by simp_all
  from fr have "\<exists>st'' bs'' fl''. free heap_full 0x1010 = Inr st'' \<and> repr st'' bs'' fl''"
    by (elim allE[of _ "4104 :: nat"] allE[of _ "40 :: nat"]) simp
  with m f heap_full_ok(1) nf show ?thesis by simp
qed

section \<open>Splitting\<close>

lemma split_lists_head:
  "head_or (split_lists fl a sz n (bin_of (sz - n - 8))) 0 = a + 8 + n + 8"
  by (simp add: split_lists_def head_or_def)

text \<open>
  Claim C3. When \<^verbatim>\<open>malloc\<close> reuses a free block of payload size \<open>b\<close> for a normalised
  request \<open>n\<close> (that is, when a free block fits), the block is split if and only if
  \<open>b - n \<ge> 32\<close>: then the victim keeps \<open>n\<close> bytes and the rest becomes a free block of
  payload size \<open>b - n - 8\<close> with a matching footer, with its previous-allocated bit set, at
  the head of the list for its size; otherwise the victim keeps its size \<open>b\<close>. A block
  of payload size 24 is never split.
\<close>

theorem split_iff_remainder_ge_32:
  assumes "repr st bs fl" and "s \<noteq> 0" and "s \<le> 0xFFFFFFFFFFFFFFE8"
    and "fits bs (unat (newAlign s))"
  shows "\<exists>pre a b post st' bs' fl'.
           bs = pre @ (a, b, False) # post \<and> unat (newAlign s) \<le> b \<and>
           malloc st s = Some (Inr (of_nat (a + 8), st')) \<and> repr st' bs' fl' \<and>
           bs' = (if 32 \<le> b - unat (newAlign s)
                  then pre @ (a, unat (newAlign s), True) #
                         (a + 8 + unat (newAlign s), b - unat (newAlign s) - 8, False) # post
                  else pre @ (a, b, True) # post) \<and>
           \<not> isFree st' (of_nat a) \<and>
           getBlockSize st' (of_nat a) = (if 32 \<le> b - unat (newAlign s) then newAlign s else of_nat b) \<and>
           (32 \<le> b - unat (newAlign s) \<longrightarrow>
              getNextHeader (of_nat a) (newAlign s) = of_nat (a + 8 + unat (newAlign s)) \<and>
              isFree st' (of_nat (a + 8 + unat (newAlign s))) \<and>
              \<not> isPrevFree st' (of_nat (a + 8 + unat (newAlign s))) \<and>
              getBlockSize st' (of_nat (a + 8 + unat (newAlign s))) = of_nat (b - unat (newAlign s) - 8) \<and>
              getBlockSize st' (getFooter (of_nat (a + 8 + unat (newAlign s))) (of_nat (b - unat (newAlign s) - 8)))
                = of_nat (b - unat (newAlign s) - 8) \<and>
              segFreeList st' (nat (getFreeListIndex (of_nat (b - unat (newAlign s) - 8))))
                = getPayload (of_nat (a + 8 + unat (newAlign s)))) \<and>
           (b = 24 \<longrightarrow> \<not> 32 \<le> b - unat (newAlign s))"
proof -
  define n where "n = unat (newAlign s)"
  have nn: "newAlign s = of_nat n" by (simp add: n_def)
  from malloc_spec[OF assms(1,2,3), folded n_def] obtain p st' where
    m: "malloc st s = Some (Inr (p, st'))" and P: "malloc_post st bs fl n p st'" by blast
  from P assms(4)[folded n_def] obtain pre a b post where
    sp: "bs = pre @ (a, b, False) # post" and nb: "n \<le> b" and p: "p = of_nat (a + 8)"
    and r: "if 32 \<le> b - n
            then repr st' (pre @ (a, n, True) # (a + 8 + n, b - n - 8, False) # post) (split_lists fl a b n)
            else repr st' (pre @ (a, b, True) # post) (fl(bin_of b := remove1 (a + 8) (fl (bin_of b))))"
    unfolding malloc_post_def by auto
  have "\<exists>pre a b post st' bs' fl'.
           bs = pre @ (a, b, False) # post \<and> n \<le> b \<and>
           malloc st s = Some (Inr (of_nat (a + 8), st')) \<and> repr st' bs' fl' \<and>
           bs' = (if 32 \<le> b - n
                  then pre @ (a, n, True) # (a + 8 + n, b - n - 8, False) # post
                  else pre @ (a, b, True) # post) \<and>
           \<not> isFree st' (of_nat a) \<and>
           getBlockSize st' (of_nat a) = (if 32 \<le> b - n then of_nat n else of_nat b) \<and>
           (32 \<le> b - n \<longrightarrow>
              getNextHeader (of_nat a) (of_nat n) = of_nat (a + 8 + n) \<and>
              isFree st' (of_nat (a + 8 + n)) \<and>
              \<not> isPrevFree st' (of_nat (a + 8 + n)) \<and>
              getBlockSize st' (of_nat (a + 8 + n)) = of_nat (b - n - 8) \<and>
              getBlockSize st' (getFooter (of_nat (a + 8 + n)) (of_nat (b - n - 8)))
                = of_nat (b - n - 8) \<and>
              segFreeList st' (nat (getFreeListIndex (of_nat (b - n - 8))))
                = getPayload (of_nat (a + 8 + n))) \<and>
           (b = 24 \<longrightarrow> \<not> 32 \<le> b - n)"
  proof (cases "32 \<le> b - n")
    case True
    define r where "r = b - n - 8"
    from r True have R': "repr st' (pre @ (a, n, True) # (a + 8 + n, r, False) # post) (split_lists fl a b n)"
      by (simp add: r_def)
    have R2: "repr st' ((pre @ [(a, n, True)]) @ (a + 8 + n, r, False) # post) (split_lists fl a b n)"
      using R' by simp
    note ra = read_block[OF R']
    note rr = read_block[OF R2]
    have mr: "(a + 8 + n, r, False) \<in> set (pre @ (a, n, True) # (a + 8 + n, r, False) # post)" by simp
    have k: "bin_of r < 15" using repr_free_block(1)[OF R' mr] .
    have hd: "segFreeList st' (bin_of r) = of_nat (a + 8 + n + 8)"
      using read_head[OF R' k] split_lists_head[of fl a b n] by (simp add: r_def)
    have sg: "segFreeList st' (nat (getFreeListIndex (of_nat r))) = getPayload (of_nat (a + 8 + n))"
      using hd by (simp add: bin_of_def getPayload_plus)
    have ft: "getBlockSize st' (getFooter (of_nat (a + 8 + n)) (of_nat r)) = of_nat r"
      unfolding rr(4) using rr(6) by simp
    have pf: "\<not> isPrevFree st' (of_nat (a + 8 + n))" using rr(3) by simp
    have b24: "b \<noteq> 24" using True by auto
    show ?thesis
      unfolding r_def[symmetric]
      apply (rule exI[of _ pre], rule exI[of _ a], rule exI[of _ b], rule exI[of _ post])
      apply (rule exI[of _ st'], rule exI[of _ "pre @ (a, n, True) # (a + 8 + n, r, False) # post"])
      apply (rule exI[of _ "split_lists fl a b n"])
      using sp nb m[unfolded p] R' True ra(1,2,5) rr(1,2) pf ft sg b24 apply (simp add: r_def)
      done
  next
    case False
    from r False have R': "repr st' (pre @ (a, b, True) # post) (fl(bin_of b := remove1 (a + 8) (fl (bin_of b))))"
      by simp
    note ra = read_block[OF R']
    show ?thesis
      apply (rule exI[of _ pre], rule exI[of _ a], rule exI[of _ b], rule exI[of _ post])
      apply (rule exI[of _ st'], rule exI[of _ "pre @ (a, b, True) # post"])
      apply (rule exI[of _ "fl(bin_of b := remove1 (a + 8) (fl (bin_of b)))"])
      using sp nb m[unfolded p] R' False ra(1,2) apply auto
      done
  qed
  then show ?thesis unfolding nn[symmetric] unfolding n_def .
qed

theorem split_iff_remainder_ge_32_witness:
  "repr heap_hole [(4104, 104, False), (4216, 40, True)] ((\<lambda>_. [])(4 := [4112])) \<and>
   (24 :: size_t) \<noteq> 0 \<and> fits [(4104, 104, False), (4216, 40, True)] (unat (newAlign 24)) \<and>
   (\<exists>st' bs' fl'. malloc heap_hole 24 = Some (Inr (0x1010, st')) \<and> repr st' bs' fl' \<and>
      bs' = [(4104, 24, True), (4136, 72, False), (4216, 40, True)] \<and>
      getBlockSize st' 0x1008 = 24 \<and> isFree st' 0x1028 \<and> getBlockSize st' 0x1028 = 72 \<and>
      segFreeList st' 3 = 0x1030)"
proof -
  have ft: "fits [(4104, 104, False), (4216, 40, True)] (unat (newAlign 24))"
    by (simp add: fits_def newAlign_examples)
  have s: "(24 :: size_t) \<noteq> 0" "(24 :: size_t) \<le> 0xFFFFFFFFFFFFFFE8" by simp_all
  from split_iff_remainder_ge_32[OF heap_hole_ok(1) s ft] obtain pre a b post st' bs' fl' where
    sp: "[(4104, 104, False), (4216, 40, True)] = pre @ (a, b, False) # post"
    and m: "malloc heap_hole 24 = Some (Inr (of_nat (a + 8), st'))" and R': "repr st' bs' fl'"
    and bs': "bs' = (if 32 \<le> b - unat (newAlign 24)
                  then pre @ (a, unat (newAlign 24), True) #
                         (a + 8 + unat (newAlign 24), b - unat (newAlign 24) - 8, False) # post
                  else pre @ (a, b, True) # post)"
    and sz: "getBlockSize st' (of_nat a) = (if 32 \<le> b - unat (newAlign 24) then newAlign 24 else of_nat b)"
    and rest: "32 \<le> b - unat (newAlign 24) \<longrightarrow>
              getNextHeader (of_nat a) (newAlign 24) = of_nat (a + 8 + unat (newAlign 24)) \<and>
              isFree st' (of_nat (a + 8 + unat (newAlign 24))) \<and>
              \<not> isPrevFree st' (of_nat (a + 8 + unat (newAlign 24))) \<and>
              getBlockSize st' (of_nat (a + 8 + unat (newAlign 24))) = of_nat (b - unat (newAlign 24) - 8) \<and>
              getBlockSize st' (getFooter (of_nat (a + 8 + unat (newAlign 24))) (of_nat (b - unat (newAlign 24) - 8)))
                = of_nat (b - unat (newAlign 24) - 8) \<and>
              segFreeList st' (nat (getFreeListIndex (of_nat (b - unat (newAlign 24) - 8))))
                = getPayload (of_nat (a + 8 + unat (newAlign 24)))"
    by blast
  have v: "pre = [] \<and> a = 4104 \<and> b = 104 \<and> post = [(4216, 40, True)]"
    using sp by (cases pre; cases "tl pre") auto
  have ix: "nat (getFreeListIndex 72) = 3" using bin_examples(4) by (simp add: bin_of_def)
  from m R' bs' sz rest v ix heap_hole_ok(1) ft show ?thesis
    by (auto simp: newAlign_examples getPayload_plus)
qed

section \<open>calloc\<close>

text \<open>
  Claim C9. \<^verbatim>\<open>calloc(nmemb, size)\<close> allocates a block for the product \<open>size * nmemb\<close>, which
  is computed in \<^verbatim>\<open>size_t\<close> with no guard (it is the mathematical product modulo \<open>2\<^sup>6\<^sup>4\<close>),
  and zeroes it. On a well-formed heap, whatever the bytes of its blocks are, when a free
  block fits the product or the heap can grow: \<^verbatim>\<open>malloc\<close> of the product returns a payload
  \<open>p\<close>, \<^verbatim>\<open>calloc\<close> returns the same \<open>p\<close>, which is not null and is the payload of an
  allocated block with room for the product; in the state after \<^verbatim>\<open>calloc\<close> the first
  \<open>size * nmemb\<close> bytes at \<open>p\<close> are zero and every other byte is what \<^verbatim>\<open>malloc\<close> left; and
  the heap is well formed. In every state at all, a \<^verbatim>\<open>calloc\<close> that returns a non-null \<open>p\<close>
  has called \<^verbatim>\<open>malloc\<close> for the product and filled \<open>size * nmemb\<close> bytes at \<open>p\<close> with zero.
\<close>

theorem calloc_zeroes_product:
  "(repr st bs fl \<and> sz * nmemb \<noteq> 0 \<and> sz * nmemb \<le> 0xFFFFFFFFFFFFFFE8 \<and>
      can_alloc st bs (unat (newAlign (sz * nmemb))) \<longrightarrow>
      (\<exists>p st1 st' bs' fl' a b.
         malloc st (sz * nmemb) = Some (Inr (p, st1)) \<and>
         malloc_post st bs fl (unat (newAlign (sz * nmemb))) p st1 \<and>
         calloc st nmemb sz = Some (Inr (p, st')) \<and> p \<noteq> 0 \<and>
         repr st' bs' fl' \<and> (a, b, True) \<in> set bs' \<and> p = of_nat (a + 8) \<and>
         unat (sz * nmemb) \<le> b \<and>
         (\<forall>i. i < sz * nmemb \<longrightarrow> mem st' (p + i) = 0) \<and>
         (\<forall>x. \<not> x - p < sz * nmemb \<longrightarrow> mem st' x = mem st1 x)))
   \<and> (\<forall>p st'. calloc st nmemb sz = Some (Inr (p, st')) \<and> p \<noteq> 0 \<longrightarrow>
         (\<exists>st1. malloc st (sz * nmemb) = Some (Inr (p, st1)) \<and>
                mm_memset st1 p 0 (sz * nmemb) = Inr (p, st')) \<and>
         (\<forall>i. i < sz * nmemb \<longrightarrow> mem st' (p + i) = 0))
   \<and> unat (sz * nmemb) = unat sz * unat nmemb mod 2 ^ 64"
proof -
  have B: "(\<exists>st1. malloc st (sz * nmemb) = Some (Inr (p, st1)) \<and>
                  mm_memset st1 p 0 (sz * nmemb) = Inr (p, st') \<and>
                  st' = st1\<lparr>mem := (\<lambda>x. if x - p < sz * nmemb then 0 else mem st1 x)\<rparr>)"
    if c: "calloc st nmemb sz = Some (Inr (p, st'))" and p0: "p \<noteq> 0" for p st'
  proof -
    from c p0 obtain st1 where m: "malloc st (sz * nmemb) = Some (Inr (p, st1))"
      and ms: "mm_memset st1 p 0 (sz * nmemb) = Inr (p, st')"
      unfolding calloc_def Let_def mm_memset_def
      by (auto split: option.splits sum.splits prod.splits if_splits)
    from ms have "st' = st1\<lparr>mem := (\<lambda>x. if x - p < sz * nmemb then 0 else mem st1 x)\<rparr>"
      unfolding mm_memset_def by (auto split: if_splits)
    with m ms show ?thesis by blast
  qed
  have 2: "\<forall>p st'. calloc st nmemb sz = Some (Inr (p, st')) \<and> p \<noteq> 0 \<longrightarrow>
         (\<exists>st1. malloc st (sz * nmemb) = Some (Inr (p, st1)) \<and>
                mm_memset st1 p 0 (sz * nmemb) = Inr (p, st')) \<and>
         (\<forall>i. i < sz * nmemb \<longrightarrow> mem st' (p + i) = 0)"
  proof (intro allI impI)
    fix p st' assume h: "calloc st nmemb sz = Some (Inr (p, st')) \<and> p \<noteq> 0"
    from B[of p st'] h obtain st1 where m: "malloc st (sz * nmemb) = Some (Inr (p, st1))"
      and ms: "mm_memset st1 p 0 (sz * nmemb) = Inr (p, st')"
      and e: "st' = st1\<lparr>mem := (\<lambda>x. if x - p < sz * nmemb then 0 else mem st1 x)\<rparr>" by blast
    from e have "\<forall>i. i < sz * nmemb \<longrightarrow> mem st' (p + i) = 0" by simp
    with m ms show "(\<exists>st1. malloc st (sz * nmemb) = Some (Inr (p, st1)) \<and>
                mm_memset st1 p 0 (sz * nmemb) = Inr (p, st')) \<and>
         (\<forall>i. i < sz * nmemb \<longrightarrow> mem st' (p + i) = 0)" by blast
  qed
  have 3: "unat (sz * nmemb) = unat sz * unat nmemb mod 2 ^ 64"
    by (simp add: unat_word_ariths)
  have 1: "\<exists>p st1 st' bs' fl' a b.
         malloc st (sz * nmemb) = Some (Inr (p, st1)) \<and>
         malloc_post st bs fl (unat (newAlign (sz * nmemb))) p st1 \<and>
         calloc st nmemb sz = Some (Inr (p, st')) \<and> p \<noteq> 0 \<and>
         repr st' bs' fl' \<and> (a, b, True) \<in> set bs' \<and> p = of_nat (a + 8) \<and>
         unat (sz * nmemb) \<le> b \<and>
         (\<forall>i. i < sz * nmemb \<longrightarrow> mem st' (p + i) = 0) \<and>
         (\<forall>x. \<not> x - p < sz * nmemb \<longrightarrow> mem st' x = mem st1 x)"
    if R: "repr st bs fl" and s: "sz * nmemb \<noteq> 0" "sz * nmemb \<le> 0xFFFFFFFFFFFFFFE8"
      and C: "can_alloc st bs (unat (newAlign (sz * nmemb)))"
  proof -
    from calloc_spec[OF R s] C obtain p st' bs' fl' a b where
      c: "calloc st nmemb sz = Some (Inr (p, st'))" and R': "repr st' bs' fl'"
      and blk: "(a, b, True) \<in> set bs'" "p = of_nat (a + 8)" "unat (sz * nmemb) \<le> b"
      by (simp only: if_True) blast
    have p0: "p \<noteq> 0" unfolding blk(2) by (rule payload_nonzero[OF R' blk(1)])
    from B[OF c p0] obtain st1 where m: "malloc st (sz * nmemb) = Some (Inr (p, st1))"
      and e: "st' = st1\<lparr>mem := (\<lambda>x. if x - p < sz * nmemb then 0 else mem st1 x)\<rparr>" by blast
    from malloc_spec[OF R s] m have P: "malloc_post st bs fl (unat (newAlign (sz * nmemb))) p st1"
      by auto
    have z: "\<forall>i. i < sz * nmemb \<longrightarrow> mem st' (p + i) = 0" using e by simp
    have o: "\<forall>x. \<not> x - p < sz * nmemb \<longrightarrow> mem st' x = mem st1 x" using e by simp
    show ?thesis
      apply (rule exI[of _ p])
      apply (rule exI[of _ st1])
      apply (rule exI[of _ st'])
      apply (rule exI[of _ bs'])
      apply (rule exI[of _ fl'])
      apply (rule exI[of _ a])
      apply (rule exI[of _ b])
      using m P c p0 R' blk z o apply (intro conjI)
               apply assumption+
      done
  qed
  from 1 2 3 show ?thesis by blast
qed

theorem calloc_zeroes_product_witness:
  "repr heap_hole [(4104, 104, False), (4216, 40, True)] ((\<lambda>_. [])(4 := [4112])) \<and>
   (100 :: size_t) * 1 \<noteq> 0 \<and> (100 :: size_t) * 1 \<le> 0xFFFFFFFFFFFFFFE8 \<and>
   can_alloc heap_hole [(4104, 104, False), (4216, 40, True)] (unat (newAlign (100 * 1))) \<and>
   mem heap_hole 0x1070 \<noteq> 0 \<and>
   (\<exists>st'. calloc heap_hole 1 100 = Some (Inr (0x1010, st')) \<and> (0x1010 :: addr) \<noteq> 0 \<and>
      (\<forall>i. i < 100 \<longrightarrow> mem st' (0x1010 + i) = 0) \<and> mem st' 0x1070 = 0)"
proof -
  have c: "can_alloc heap_hole [(4104, 104, False), (4216, 40, True)] (unat (newAlign (100 * 1)))"
    by (simp add: can_alloc_def fits_def newAlign_examples)
  have s: "(100 :: size_t) * 1 \<noteq> 0" "(100 :: size_t) * 1 \<le> 0xFFFFFFFFFFFFFFE8" by simp_all
  from calloc_zeroes_product[of heap_hole "[(4104, 104, False), (4216, 40, True)]"
      "(\<lambda>_. [])(4 := [4112])" 100 1] heap_hole_ok(1) s c
  obtain p st1 st' where
    P: "malloc_post heap_hole [(4104, 104, False), (4216, 40, True)] ((\<lambda>_. [])(4 := [4112]))
          (unat (newAlign (100 * 1))) p st1"
    and cl: "calloc heap_hole 1 100 = Some (Inr (p, st'))" and p0: "p \<noteq> 0"
    and z: "\<forall>i. i < 100 * 1 \<longrightarrow> mem st' (p + i) = 0" by blast
  have ft: "fits [(4104, 104, False), (4216, 40, True)] (unat (newAlign (100 * 1)))"
    by (simp add: fits_def newAlign_examples)
  have "\<exists>pre a b post. ([(4104, 104, False), (4216, 40, True)] :: block list) = pre @ (a, b, False) # post \<and>
          p = of_nat (a + 8)"
    using P ft unfolding malloc_post_def by (simp only: if_True) blast
  then obtain pre a b post where
    sp: "([(4104, 104, False), (4216, 40, True)] :: block list) = pre @ (a, b, False) # post"
    and p: "p = of_nat (a + 8)" by blast
  have "a = 4104" using sp by (cases pre; cases "tl pre") auto
  then have pv: "p = 0x1010" using p by simp
  have "(96 :: size_t) < 100 * 1" by simp
  with z have "mem st' (p + 96) = 0" by blast
  then have d: "mem st' 0x1070 = 0" by (simp add: pv)
  from z have zz: "\<forall>i. i < 100 \<longrightarrow> mem st' (0x1010 + i) = 0" by (simp add: pv)
  from heap_hole_ok(1) s c heap_hole_dirty cl p0 zz d show ?thesis unfolding pv by blast
qed

section \<open>The invariants are kept\<close>

lemma malloc_keeps:
  assumes R: "repr st bs fl" and s: "s \<noteq> 0" "s \<le> 0xFFFFFFFFFFFFFFE8"
  shows "\<exists>p st' bs' fl'. malloc st s = Some (Inr (p, st')) \<and> repr st' bs' fl'"
proof -
  from malloc_spec[OF R s] obtain p st' where
    m: "malloc st s = Some (Inr (p, st'))" and P: "malloc_post st bs fl (unat (newAlign s)) p st'" by blast
  show ?thesis
  proof (cases "can_alloc st bs (unat (newAlign s))")
    case True
    from malloc_post_block[OF R P True] m show ?thesis by blast
  next
    case False
    from malloc_post_fail(2)[OF P False] m R show ?thesis by blast
  qed
qed

lemma malloc_ok:
  assumes R: "repr st bs fl" and s: "s \<noteq> 0" "s \<le> 0xFFFFFFFFFFFFFFE8"
    and C: "can_alloc st bs (unat (newAlign s))"
  shows "\<exists>p st' bs' fl' a sz. malloc st s = Some (Inr (p, st')) \<and> repr st' bs' fl' \<and>
           (a, sz, True) \<in> set bs' \<and> unat s \<le> sz \<and> p = of_nat (a + 8) \<and> p \<noteq> 0 \<and> unat p mod 16 = 0"
proof -
  from malloc_spec[OF R s] obtain p st' where
    m: "malloc st s = Some (Inr (p, st'))" and P: "malloc_post st bs fl (unat (newAlign s)) p st'" by blast
  from malloc_post_block[OF R P C] obtain bs' fl' a sz where
    R': "repr st' bs' fl'" and b: "(a, sz, True) \<in> set bs'" and n: "unat (newAlign s) \<le> sz"
    and p: "p = of_nat (a + 8)" by blast
  note blk = repr_block[OF R' b]
  have "unat p = a + 8" unfolding p using blk(8) by (intro unat_of_nat64) simp
  then have al: "unat p mod 16 = 0" using blk(9) by simp
  have p0: "p \<noteq> 0" unfolding p by (rule payload_nonzero[OF R' b])
  have "unat s \<le> sz" using norm_size(4)[OF s(2)] n by simp
  with m R' b p0 al show ?thesis
    by (intro exI[of _ p] exI[of _ st'] exI[of _ bs'] exI[of _ fl'] exI[of _ a] exI[of _ sz])
      (simp add: p)
qed

lemma free_merged:
  assumes R: "repr st (pre @ (a, sz, True) # post) fl"
  shows "\<exists>st' fl'. free st (of_nat (a + 8)) = Inr st' \<and> repr st' (coalesced pre a sz post) fl' \<and>
           heap_lo st' = heap_lo st \<and> heap_brk st' = heap_brk st \<and> heap_max st' = heap_max st"
proof -
  consider (none) "last_alloc True pre" "\<And>a2 s2 l2 post'. post = (a2, s2, l2) # post' \<Longrightarrow> l2"
    | (nxt) a2 s2 post' where "last_alloc True pre" "post = (a2, s2, False) # post'"
    | (prv) pre' ap sp where "pre = pre' @ [(ap, sp, False)]"
        "\<And>a2 s2 l2 post'. post = (a2, s2, l2) # post' \<Longrightarrow> l2"
    | (both) pre' ap sp a2 s2 post' where "pre = pre' @ [(ap, sp, False)]" "post = (a2, s2, False) # post'"
  proof -
    have pc: "last_alloc True pre \<or> (\<exists>pre' ap sp. pre = pre' @ [(ap, sp, False)])"
    proof (cases pre rule: rev_cases)
      case Nil
      then show ?thesis by simp
    next
      case (snoc pre' b)
      obtain ap sp lp where "b = (ap, sp, lp)" by (cases b)
      with snoc show ?thesis by (cases lp) simp_all
    qed
    have qc: "(\<forall>a2 s2 l2 post'. post = (a2, s2, l2) # post' \<longrightarrow> l2) \<or>
              (\<exists>a2 s2 post'. post = (a2, s2, False) # post')"
    proof (cases post)
      case Nil
      then show ?thesis by simp
    next
      case (Cons b post')
      obtain a2 s2 l2 where "b = (a2, s2, l2)" by (cases b)
      with Cons show ?thesis by (cases l2) simp_all
    qed
    from pc qc show ?thesis using none nxt prv both by blast
  qed
  then show ?thesis
  proof cases
    case none
    have l: "\<not> (pre \<noteq> [] \<and> \<not> snd (snd (last pre)))" using none(1) by (auto simp: last_alloc_def split: if_splits)
    have r: "\<not> (post \<noteq> [] \<and> \<not> snd (snd (hd post)))"
    proof (cases post)
      case Nil
      then show ?thesis by simp
    next
      case (Cons b post')
      obtain a2 s2 l2 where "b = (a2, s2, l2)" by (cases b)
      with Cons none(2) show ?thesis by simp
    qed
    have c: "coalesced pre a sz post = pre @ (a, sz, False) # post"
      using l r by (auto simp: coalesced_def)
    have "\<exists>st'. free st (of_nat (a + 8)) = Inr st' \<and>
           repr st' (pre @ (a, sz, False) # post) (fl(bin_of sz := (a + 8) # fl (bin_of sz))) \<and>
           heap_lo st' = heap_lo st \<and> heap_brk st' = heap_brk st \<and> heap_max st' = heap_max st"
      by (rule free_none[OF R none(1)]) (rule none(2))
    then show ?thesis unfolding c by blast
  next
    case nxt
    have l: "\<not> (pre \<noteq> [] \<and> \<not> snd (snd (last pre)))" using nxt(1) by (auto simp: last_alloc_def split: if_splits)
    have c: "coalesced pre a sz post = pre @ (a, sz + s2 + 8, False) # post'"
      using l by (auto simp: coalesced_def nxt(2))
    from free_next[OF R[unfolded nxt(2)] nxt(1)] show ?thesis unfolding c by blast
  next
    case prv
    have Rp: "repr st (pre' @ (ap, sp, False) # (a, sz, True) # post) fl" using R prv(1) by simp
    have r: "\<not> (post \<noteq> [] \<and> \<not> snd (snd (hd post)))"
    proof (cases post)
      case Nil
      then show ?thesis by simp
    next
      case (Cons b post')
      obtain a2 s2 l2 where "b = (a2, s2, l2)" by (cases b)
      with Cons prv(2) show ?thesis by simp
    qed
    have c: "coalesced pre a sz post = pre' @ (ap, sp + sz + 8, False) # post"
      using r by (auto simp: coalesced_def prv(1))
    have "\<exists>st'. free st (of_nat (a + 8)) = Inr st' \<and>
           repr st' (pre' @ (ap, sp + sz + 8, False) # post)
             ((fl(bin_of sp := remove1 (ap + 8) (fl (bin_of sp))))
                (bin_of (sp + sz + 8) :=
                   (ap + 8) # (fl(bin_of sp := remove1 (ap + 8) (fl (bin_of sp)))) (bin_of (sp + sz + 8)))) \<and>
           heap_lo st' = heap_lo st \<and> heap_brk st' = heap_brk st \<and> heap_max st' = heap_max st"
      by (rule free_prev[OF Rp]) (rule prv(2))
    then show ?thesis unfolding c by blast
  next
    case both
    have Rb: "repr st (pre' @ (ap, sp, False) # (a, sz, True) # (a2, s2, False) # post') fl"
      using R both by simp
    have c: "coalesced pre a sz post = pre' @ (ap, sp + sz + s2 + 16, False) # post'"
      by (simp add: coalesced_def both)
    from free_both[OF Rb] show ?thesis unfolding c by blast
  qed
qed

text \<open>The neighbours of a free block of a well-formed heap are allocated.\<close>

lemma free_block_neighbours:
  assumes R: "repr st (pre @ (a, sz, False) # post) fl"
  shows "pre = [] \<or> snd (snd (last pre))" "post = [] \<or> snd (snd (hd post))"
proof -
  from repr_mid(4)[OF R] show "pre = [] \<or> snd (snd (last pre))" by (auto simp: last_alloc_def split: if_splits)
  show "post = [] \<or> snd (snd (hd post))"
  proof (cases post)
    case Nil
    then show ?thesis by simp
  next
    case (Cons b post')
    obtain a2 s2 l2 where b: "b = (a2, s2, l2)" by (cases b)
    have "repr st ((pre @ [(a, sz, False)]) @ (a2, s2, l2) # post') fl" using R Cons b by simp
    from repr_mid(4)[OF this] show ?thesis using Cons b by simp
  qed
qed

text \<open>
  Claim C4, for requests of at most \<open>2\<^sup>6\<^sup>4 - 24\<close> bytes. On a heap in which the invariants
  hold (\<open>repr\<close>: the heap is a sequence of blocks \<open>bs\<close> whose headers, footers and free
  lists are consistent) no two adjacent blocks are both free, and every public operation
  that returns leaves such a heap again:
  \<^item> \<^verbatim>\<open>malloc(s)\<close> for \<open>0 < s \<le> 2\<^sup>6\<^sup>4 - 24\<close>; when a free block fits, the victim at \<open>a\<close> is
    replaced by \<open>placed\<close>, and both neighbours of the victim are allocated, so the free
    right half of a split lies between the allocated left half and an allocated block or
    the end of the heap;
  \<^item> \<^verbatim>\<open>free\<close> of the payload of an allocated block, after which the blocks are
    \<open>coalesced\<close>: the block and its free neighbours are one free block;
  \<^item> \<^verbatim>\<open>realloc\<close> and \<^verbatim>\<open>calloc\<close> for sizes in the same range whenever the allocation inside
    them can succeed. When it cannot, they copy to or fill the address 8, which is
    outside the heap, and there is no state after the call.
\<close>

theorem no_adjacent_free_blocks:
  assumes "repr st bs fl"
  shows "naf bs
     \<and> (\<forall>s. s \<noteq> 0 \<and> s \<le> 0xFFFFFFFFFFFFFFE8 \<longrightarrow>
           (\<exists>p st' bs' fl'. malloc st s = Some (Inr (p, st')) \<and> repr st' bs' fl' \<and> naf bs'))
     \<and> (\<forall>s. s \<noteq> 0 \<and> s \<le> 0xFFFFFFFFFFFFFFE8 \<and> fits bs (unat (newAlign s)) \<longrightarrow>
           (\<exists>pre a b post st' fl'. bs = pre @ (a, b, False) # post \<and> unat (newAlign s) \<le> b \<and>
              malloc st s = Some (Inr (of_nat (a + 8), st')) \<and>
              repr st' (placed pre a b (unat (newAlign s)) post) fl' \<and>
              naf (placed pre a b (unat (newAlign s)) post) \<and>
              (pre = [] \<or> snd (snd (last pre))) \<and> (post = [] \<or> snd (snd (hd post)))))
     \<and> (\<forall>pre a sz post. bs = pre @ (a, sz, True) # post \<longrightarrow>
           (\<exists>st' fl'. free st (of_nat (a + 8)) = Inr st' \<and>
              repr st' (coalesced pre a sz post) fl' \<and> naf (coalesced pre a sz post)))
     \<and> (\<forall>a sz s. (a, sz, True) \<in> set bs \<and> s \<noteq> 0 \<and> s \<le> 0xFFFFFFFFFFFFFFE8 \<longrightarrow>
           (if can_alloc st bs (unat (newAlign s))
            then \<exists>p st' bs' fl'. realloc st (of_nat (a + 8)) s = Some (Inr (p, st')) \<and>
                   repr st' bs' fl' \<and> naf bs'
            else realloc st (of_nat (a + 8)) s = Some (Inl InvalidAccess)))
     \<and> (\<forall>nmemb sz. sz * nmemb \<noteq> 0 \<and> sz * nmemb \<le> 0xFFFFFFFFFFFFFFE8 \<longrightarrow>
           (if can_alloc st bs (unat (newAlign (sz * nmemb)))
            then \<exists>p st' bs' fl'. calloc st nmemb sz = Some (Inr (p, st')) \<and>
                   repr st' bs' fl' \<and> naf bs'
            else calloc st nmemb sz = Some (Inl InvalidAccess)))"
proof (intro conjI allI impI)
  show "naf bs" by (rule repr_naf[OF assms])
next
  fix s :: size_t assume "s \<noteq> 0 \<and> s \<le> 0xFFFFFFFFFFFFFFE8"
  then have s: "s \<noteq> 0" "s \<le> 0xFFFFFFFFFFFFFFE8" by simp_all
  from malloc_keeps[OF assms s] repr_naf
  show "\<exists>p st' bs' fl'. malloc st s = Some (Inr (p, st')) \<and> repr st' bs' fl' \<and> naf bs'" by blast
next
  fix s :: size_t assume "s \<noteq> 0 \<and> s \<le> 0xFFFFFFFFFFFFFFE8 \<and> fits bs (unat (newAlign s))"
  then have s: "s \<noteq> 0" "s \<le> 0xFFFFFFFFFFFFFFE8" and ft: "fits bs (unat (newAlign s))" by simp_all
  define n where "n = unat (newAlign s)"
  from malloc_spec[OF assms s] obtain p st' where
    m: "malloc st s = Some (Inr (p, st'))" and P: "malloc_post st bs fl n p st'"
    unfolding n_def by blast
  have "\<exists>pre a b post. bs = pre @ (a, b, False) # post \<and> n \<le> b \<and> p = of_nat (a + 8) \<and>
           (if 32 \<le> b - n
            then repr st' (pre @ (a, n, True) # (a + 8 + n, b - n - 8, False) # post)
                   (split_lists fl a b n)
            else repr st' (pre @ (a, b, True) # post)
                   (fl(bin_of b := remove1 (a + 8) (fl (bin_of b)))))"
    using P ft unfolding malloc_post_def n_def by (simp only: if_True) blast
  then obtain pre a b post where sp: "bs = pre @ (a, b, False) # post" and nb: "n \<le> b"
    and p: "p = of_nat (a + 8)"
    and r: "if 32 \<le> b - n
            then repr st' (pre @ (a, n, True) # (a + 8 + n, b - n - 8, False) # post)
                   (split_lists fl a b n)
            else repr st' (pre @ (a, b, True) # post)
                   (fl(bin_of b := remove1 (a + 8) (fl (bin_of b))))" by blast
  have "\<exists>fl'. repr st' (placed pre a b n post) fl'"
    using r unfolding placed_def by (cases "32 \<le> b - n") auto
  then obtain fl' where R': "repr st' (placed pre a b n post) fl'" by blast
  note nb2 = free_block_neighbours[OF assms[unfolded sp]]
  show "\<exists>pre a b post st' fl'. bs = pre @ (a, b, False) # post \<and> unat (newAlign s) \<le> b \<and>
              malloc st s = Some (Inr (of_nat (a + 8), st')) \<and>
              repr st' (placed pre a b (unat (newAlign s)) post) fl' \<and>
              naf (placed pre a b (unat (newAlign s)) post) \<and>
              (pre = [] \<or> snd (snd (last pre))) \<and> (post = [] \<or> snd (snd (hd post)))"
    unfolding n_def[symmetric]
    apply (rule exI[of _ pre])
    apply (rule exI[of _ a])
    apply (rule exI[of _ b])
    apply (rule exI[of _ post])
    apply (rule exI[of _ st'])
    apply (rule exI[of _ fl'])
    using sp nb m[unfolded p] R' repr_naf[OF R'] nb2 apply (intro conjI)
          apply assumption+
    done
next
  fix pre a sz post assume sp: "bs = pre @ (a, sz, True) # post"
  from free_merged[OF assms[unfolded sp]] repr_naf
  show "\<exists>st' fl'. free st (of_nat (a + 8)) = Inr st' \<and>
              repr st' (coalesced pre a sz post) fl' \<and> naf (coalesced pre a sz post)" by blast
next
  fix a sz and s :: size_t
  assume h: "(a, sz, True) \<in> set bs \<and> s \<noteq> 0 \<and> s \<le> 0xFFFFFFFFFFFFFFE8"
  then have b: "(a, sz, True) \<in> set bs" and s: "s \<noteq> 0" "s \<le> 0xFFFFFFFFFFFFFFE8" by simp_all
  note r = realloc_spec[OF assms b s]
  show "if can_alloc st bs (unat (newAlign s))
        then \<exists>p st' bs' fl'. realloc st (of_nat (a + 8)) s = Some (Inr (p, st')) \<and>
               repr st' bs' fl' \<and> naf bs'
        else realloc st (of_nat (a + 8)) s = Some (Inl InvalidAccess)"
  proof (cases "can_alloc st bs (unat (newAlign s))")
    case True
    with r obtain p st' bs' fl' where "realloc st (of_nat (a + 8)) s = Some (Inr (p, st'))"
      "repr st' bs' fl'" by (simp only: if_True) blast
    with repr_naf True show ?thesis by (simp only: if_True) blast
  next
    case False
    with r show ?thesis by simp
  qed
next
  fix nmemb sz :: size_t
  assume h: "sz * nmemb \<noteq> 0 \<and> sz * nmemb \<le> 0xFFFFFFFFFFFFFFE8"
  then have s: "sz * nmemb \<noteq> 0" "sz * nmemb \<le> 0xFFFFFFFFFFFFFFE8" by simp_all
  note r = calloc_spec[OF assms s]
  show "if can_alloc st bs (unat (newAlign (sz * nmemb)))
        then \<exists>p st' bs' fl'. calloc st nmemb sz = Some (Inr (p, st')) \<and> repr st' bs' fl' \<and> naf bs'
        else calloc st nmemb sz = Some (Inl InvalidAccess)"
  proof (cases "can_alloc st bs (unat (newAlign (sz * nmemb)))")
    case True
    with r obtain p st' bs' fl' where "calloc st nmemb sz = Some (Inr (p, st'))"
      "repr st' bs' fl'" by (simp only: if_True) blast
    with repr_naf True show ?thesis by (simp only: if_True) blast
  next
    case False
    with r show ?thesis by simp
  qed
qed

theorem no_adjacent_free_blocks_witness:
  "repr heap_hole [(4104, 104, False), (4216, 40, True)] ((\<lambda>_. [])(4 := [4112])) \<and>
   naf [(4104, 104, False), (4216, 40, True)] \<and>
   fits [(4104, 104, False), (4216, 40, True)] (unat (newAlign 24)) \<and>
   (\<exists>st' fl'. malloc heap_hole 24 = Some (Inr (0x1010, st')) \<and>
      repr st' [(4104, 24, True), (4136, 72, False), (4216, 40, True)] fl' \<and>
      naf [(4104, 24, True), (4136, 72, False), (4216, 40, True)]) \<and>
   (\<exists>st' fl'. free heap_hole 0x1080 = Inr st' \<and> repr st' [(4104, 152, False)] fl' \<and>
      naf [(4104, 152, False)]) \<and>
   can_alloc heap_hole [(4104, 104, False), (4216, 40, True)] (unat (newAlign 24)) \<and>
   (\<exists>p st' bs' fl'. realloc heap_hole 0x1080 24 = Some (Inr (p, st')) \<and> repr st' bs' fl' \<and> naf bs') \<and>
   (\<exists>p st' bs' fl'. calloc heap_hole 3 8 = Some (Inr (p, st')) \<and> repr st' bs' fl' \<and> naf bs')"
proof -
  note t = no_adjacent_free_blocks[OF heap_hole_ok(1)]
  note t3 = t[THEN conjunct2, THEN conjunct2, THEN conjunct1, rule_format]
  note t4 = t[THEN conjunct2, THEN conjunct2, THEN conjunct2, THEN conjunct1, rule_format]
  note t5 = t[THEN conjunct2, THEN conjunct2, THEN conjunct2, THEN conjunct2, THEN conjunct1, rule_format]
  note t6 = t[THEN conjunct2, THEN conjunct2, THEN conjunct2, THEN conjunct2, THEN conjunct2, rule_format]
  have ft: "fits [(4104, 104, False), (4216, 40, True)] (unat (newAlign 24))"
    by (simp add: fits_def newAlign_examples)
  have c: "can_alloc heap_hole [(4104, 104, False), (4216, 40, True)] (unat (newAlign 24))"
    using ft by (simp add: can_alloc_def)
  from t have 0: "naf [(4104, 104, False), (4216, 40, True)]" by simp
  have s24: "(24 :: size_t) \<noteq> 0 \<and> (24 :: size_t) \<le> 0xFFFFFFFFFFFFFFE8 \<and>
      fits [(4104, 104, False), (4216, 40, True)] (unat (newAlign 24))"
    using ft by simp
  from t3[OF s24] obtain pre a b0 post st' fl' where
    sp: "([(4104, 104, False), (4216, 40, True)] :: block list) = pre @ (a, b0, False) # post"
    and m: "malloc heap_hole 24 = Some (Inr (of_nat (a + 8), st'))"
    and R': "repr st' (placed pre a b0 (unat (newAlign 24)) post) fl'"
    and n': "naf (placed pre a b0 (unat (newAlign 24)) post)" by blast
  have v: "pre = [] \<and> a = 4104 \<and> b0 = 104 \<and> post = [(4216, 40, True)]"
    using sp by (cases pre; cases "tl pre") auto
  have pl: "placed pre a b0 (unat (newAlign 24)) post = [(4104, 24, True), (4136, 72, False), (4216, 40, True)]"
    using v by (simp add: placed_def newAlign_examples)
  have m': "malloc heap_hole 24 = Some (Inr (0x1010, st'))" using m v by simp
  have 1: "\<exists>st' fl'. malloc heap_hole 24 = Some (Inr (0x1010, st')) \<and>
      repr st' [(4104, 24, True), (4136, 72, False), (4216, 40, True)] fl' \<and>
      naf [(4104, 24, True), (4136, 72, False), (4216, 40, True)]"
    using m' R' n' unfolding pl by blast
  have e: "([(4104, 104, False), (4216, 40, True)] :: block list) = [(4104, 104, False)] @ (4216, 40, True) # []"
    by simp
  have co: "coalesced [(4104, 104, False)] 4216 40 [] = [(4104, 152, False)]"
    by (simp add: coalesced_def)
  from t4[OF e] have 2: "\<exists>st' fl'. free heap_hole 0x1080 = Inr st' \<and> repr st' [(4104, 152, False)] fl' \<and>
      naf [(4104, 152, False)]"
    unfolding co by simp
  have r24: "(4216, 40, True) \<in> set [(4104, 104, False), (4216, 40, True)] \<and> (24 :: size_t) \<noteq> 0 \<and>
      (24 :: size_t) \<le> 0xFFFFFFFFFFFFFFE8" by simp
  from t5[OF r24] c
  have 3: "\<exists>p st' bs' fl'. realloc heap_hole 0x1080 24 = Some (Inr (p, st')) \<and> repr st' bs' fl' \<and> naf bs'"
    by simp
  have c24: "(8 :: size_t) * 3 \<noteq> 0 \<and> (8 :: size_t) * 3 \<le> 0xFFFFFFFFFFFFFFE8" by simp
  from t6[OF c24] c
  have 4: "\<exists>p st' bs' fl'. calloc heap_hole 3 8 = Some (Inr (p, st')) \<and> repr st' bs' fl' \<and> naf bs'"
    by simp
  from heap_hole_ok(1) 0 ft 1 2 c 3 4 show ?thesis by blast
qed

text \<open>
  Claim C4 as stated, for every request size, fails. On a fresh heap, \<^verbatim>\<open>malloc(40)\<close> and
  \<^verbatim>\<open>free\<close> of its result leave a well-formed heap with one free block. \<^verbatim>\<open>malloc\<close> of
  \<open>2\<^sup>6\<^sup>4 - 16\<close> bytes then returns \<open>0x1040\<close> without growing the heap, \<^verbatim>\<open>malloc(56)\<close> returns
  \<open>0x1040\<close> again: the heap now has a free block of 40 bytes at \<open>0x1008\<close> and an allocated
  block of 56 bytes at \<open>0x1038\<close> whose previous-allocated bit is set. After \<^verbatim>\<open>free(0x1040)\<close>
  the free block at \<open>0x1008\<close> is followed, inside the heap, by the free block of 56 bytes at
  \<open>0x1038\<close>: two adjacent free blocks, in a heap that no sequence of blocks describes.
\<close>

theorem adjacent_free_blocks_counterexample:
  "mm_init (empty_region 0x1000 0x1000) = (True, heap0) \<and>
   malloc heap0 40 = Some (Inr (0x1010, malloc_st heap0 40)) \<and>
   free (malloc_st heap0 40) 0x1010 = Inr heap_freed \<and>
   repr heap_freed [(4104, 40, False)] ((\<lambda>_. [])(1 := [4112])) \<and>
   malloc heap_freed 0xFFFFFFFFFFFFFFF0 = Some (Inr (0x1040, heap_wrapped)) \<and>
   malloc heap_wrapped 56 = Some (Inr (0x1040, heap_wrapped2)) \<and>
   isFree heap_wrapped2 0x1008 \<and> getBlockSize heap_wrapped2 0x1008 = 40 \<and>
   \<not> isFree heap_wrapped2 0x1038 \<and> \<not> isPrevFree heap_wrapped2 0x1038 \<and>
   getBlockSize heap_wrapped2 0x1038 = 56 \<and> heap_brk heap_wrapped2 = 0x1078 \<and>
   free heap_wrapped2 0x1040 = Inr heap_broken \<and>
   heap_lo heap_broken = 0x1000 \<and> heap_brk heap_broken = 0x1078 \<and>
   isFree heap_broken 0x1008 \<and> getBlockSize heap_broken 0x1008 = 40 \<and>
   getNextHeader 0x1008 40 = 0x1038 \<and>
   isFree heap_broken 0x1038 \<and> getBlockSize heap_broken 0x1038 = 56 \<and>
   getNextHeader 0x1038 56 = 0x1078 \<and>
   (\<forall>bs fl. \<not> repr heap_broken bs fl)"
proof -
  have h: "0 < unat (0x1000 :: addr)" "unat (0x1000 :: addr) mod 16 = 0" "8 \<le> unat (0x1000 :: size_t)"
    "unat (0x1000 :: addr) + unat (0x1000 :: size_t) < 2 ^ 64" by simp_all
  note f0 = fresh_region[OF h, folded heap0_def]
  show ?thesis
    using f0(1) heap_freed_ok(1,2,3) heap_wrapped_ok(1) heap_wrapped2_ok(1,3) heap_wrapped2_blocks
      heap_broken_ok(1,2,3) heap_broken_adjacent heap_broken_no_repr
    by (intro conjI allI) assumption+
qed

section \<open>Alignment of payloads\<close>

text \<open>
  Claim C6. In a well-formed heap the low address is a multiple of 16 (\<^verbatim>\<open>mm_init\<close>
  establishes the invariant only for such a region) and the payload address of every
  block is a multiple of 16. For a request \<open>0 < s \<le> 2\<^sup>6\<^sup>4 - 24\<close>: when a free block fits or
  the heap can grow, the address returned by \<^verbatim>\<open>malloc\<close>, \<^verbatim>\<open>realloc\<close> and \<^verbatim>\<open>calloc\<close> is the
  payload of a block of the heap after the call, is not null and is a multiple of 16.
  When no free block fits and the heap cannot grow, \<^verbatim>\<open>malloc\<close> returns the address 8 and
  leaves the heap as it is: 8 is not null, is not a multiple of 16 and is the payload of no
  block; \<^verbatim>\<open>realloc\<close> and \<^verbatim>\<open>calloc\<close> then use that address as the destination of a byte copy
  or fill, which is outside the heap.
\<close>

theorem payload_alignment:
  assumes "repr st bs fl"
  shows "unat (heap_lo st) mod 16 = 0
     \<and> (\<forall>(a, sz, al) \<in> set bs. unat (getPayload (of_nat a)) mod 16 = 0)
     \<and> (\<forall>s. s \<noteq> 0 \<and> s \<le> 0xFFFFFFFFFFFFFFE8 \<longrightarrow>
           (if can_alloc st bs (unat (newAlign s))
            then \<exists>p st' bs' fl' a sz. malloc st s = Some (Inr (p, st')) \<and> repr st' bs' fl' \<and>
                   (a, sz, True) \<in> set bs' \<and> p = getPayload (of_nat a) \<and> p \<noteq> 0 \<and>
                   unat p mod 16 = 0
            else malloc st s = Some (Inr (8, st)) \<and> (8 :: addr) \<noteq> 0 \<and>
                 unat (8 :: addr) mod 16 = 8 \<and>
                 (\<forall>(a, sz, al) \<in> set bs. getPayload (of_nat a) \<noteq> 8)))
     \<and> (\<forall>a0 s0 s. (a0, s0, True) \<in> set bs \<and> s \<noteq> 0 \<and> s \<le> 0xFFFFFFFFFFFFFFE8 \<longrightarrow>
           (if can_alloc st bs (unat (newAlign s))
            then \<exists>p st' bs' fl'. realloc st (of_nat (a0 + 8)) s = Some (Inr (p, st')) \<and>
                   repr st' bs' fl' \<and> p \<noteq> 0 \<and> unat p mod 16 = 0
            else realloc st (of_nat (a0 + 8)) s = Some (Inl InvalidAccess)))
     \<and> (\<forall>nmemb sz. sz * nmemb \<noteq> 0 \<and> sz * nmemb \<le> 0xFFFFFFFFFFFFFFE8 \<longrightarrow>
           (if can_alloc st bs (unat (newAlign (sz * nmemb)))
            then \<exists>p st' bs' fl'. calloc st nmemb sz = Some (Inr (p, st')) \<and> repr st' bs' fl' \<and>
                   p \<noteq> 0 \<and> unat p mod 16 = 0
            else calloc st nmemb sz = Some (Inl InvalidAccess)))"
proof (intro conjI allI impI ballI)
  show "unat (heap_lo st) mod 16 = 0" by (rule repr_bounds(2)[OF assms])
next
  fix b assume b: "b \<in> set bs"
  obtain a sz al where e: "b = (a, sz, al)" by (cases b)
  note blk = repr_block[OF assms b[unfolded e]]
  have "unat (of_nat (a + 8) :: 64 word) = a + 8" using blk(8) by (intro unat_of_nat64) simp
  then have "unat (getPayload (of_nat a)) mod 16 = 0" using blk(9) by (simp add: nav_payload)
  then show "case b of (a, sz, al) \<Rightarrow> unat (getPayload (of_nat a)) mod 16 = 0" by (simp add: e)
next
  fix s :: size_t
  assume "s \<noteq> 0 \<and> s \<le> 0xFFFFFFFFFFFFFFE8"
  then have s: "s \<noteq> 0" "s \<le> 0xFFFFFFFFFFFFFFE8" by simp_all
  show "if can_alloc st bs (unat (newAlign s))
        then \<exists>p st' bs' fl' a sz. malloc st s = Some (Inr (p, st')) \<and> repr st' bs' fl' \<and>
               (a, sz, True) \<in> set bs' \<and> p = getPayload (of_nat a) \<and> p \<noteq> 0 \<and> unat p mod 16 = 0
        else malloc st s = Some (Inr (8, st)) \<and> (8 :: addr) \<noteq> 0 \<and> unat (8 :: addr) mod 16 = 8 \<and>
             (\<forall>(a, sz, al) \<in> set bs. getPayload (of_nat a) \<noteq> 8)"
  proof (cases "can_alloc st bs (unat (newAlign s))")
    case True
    from malloc_ok[OF assms s True]
    have "\<exists>p st' bs' fl' a sz. malloc st s = Some (Inr (p, st')) \<and> repr st' bs' fl' \<and>
              (a, sz, True) \<in> set bs' \<and> p = getPayload (of_nat a) \<and> p \<noteq> 0 \<and> unat p mod 16 = 0"
      unfolding nav_payload by (elim exE conjE, intro exI conjI) assumption+
    with True show ?thesis by (simp only: if_True)
  next
    case False
    have m: "malloc st s = Some (Inr (8, st))" by (rule malloc_fail[OF assms s refl False])
    have np: "\<forall>(a, sz, al) \<in> set bs. getPayload (of_nat a) \<noteq> 8"
    proof (intro ballI)
      fix b assume b: "b \<in> set bs"
      obtain a sz al where e: "b = (a, sz, al)" by (cases b)
      note blk = repr_block[OF assms b[unfolded e]]
      have u: "unat (of_nat (a + 8) :: 64 word) = a + 8" using blk(8) by (intro unat_of_nat64) simp
      have "(of_nat (a + 8) :: 64 word) \<noteq> 8"
      proof
        assume "(of_nat (a + 8) :: 64 word) = 8"
        then have "unat (of_nat (a + 8) :: 64 word) = 8" by simp
        with u blk(1) show False by simp
      qed
      then show "case b of (a, sz, al) \<Rightarrow> getPayload (of_nat a) \<noteq> 8" by (simp add: e nav_payload)
    qed
    from m np False show ?thesis by (simp only: if_False) simp
  qed
next
  fix a0 s0 and s :: size_t
  assume "(a0, s0, True) \<in> set bs \<and> s \<noteq> 0 \<and> s \<le> 0xFFFFFFFFFFFFFFE8"
  then have b: "(a0, s0, True) \<in> set bs" and s: "s \<noteq> 0" "s \<le> 0xFFFFFFFFFFFFFFE8" by simp_all
  show "if can_alloc st bs (unat (newAlign s))
        then \<exists>p st' bs' fl'. realloc st (of_nat (a0 + 8)) s = Some (Inr (p, st')) \<and>
               repr st' bs' fl' \<and> p \<noteq> 0 \<and> unat p mod 16 = 0
        else realloc st (of_nat (a0 + 8)) s = Some (Inl InvalidAccess)"
  proof (cases "can_alloc st bs (unat (newAlign s))")
    case c: True
    from malloc_ok[OF assms s c] obtain p where
      m: "\<exists>st1. malloc st s = Some (Inr (p, st1))" and al: "unat p mod 16 = 0" "p \<noteq> 0"
      by (elim exE conjE) (rule that, rule exI)
    from realloc_spec[OF assms b s] c obtain p' st1 st' bs' fl' where
      m': "malloc st s = Some (Inr (p', st1))"
      and r: "realloc st (of_nat (a0 + 8)) s = Some (Inr (p', st'))" "repr st' bs' fl'"
      by (simp only: if_True) blast
    from m m' have "p' = p" by auto
    with r al have "\<exists>p st' bs' fl'. realloc st (of_nat (a0 + 8)) s = Some (Inr (p, st')) \<and>
              repr st' bs' fl' \<and> p \<noteq> 0 \<and> unat p mod 16 = 0" by auto
    with c show ?thesis by (simp only: if_True)
  next
    case False
    with realloc_spec[OF assms b s] show ?thesis by (simp only: if_False)
  qed
next
  fix nmemb sz :: size_t
  assume "sz * nmemb \<noteq> 0 \<and> sz * nmemb \<le> 0xFFFFFFFFFFFFFFE8"
  then have s: "sz * nmemb \<noteq> 0" "sz * nmemb \<le> 0xFFFFFFFFFFFFFFE8" by simp_all
  show "if can_alloc st bs (unat (newAlign (sz * nmemb)))
        then \<exists>p st' bs' fl'. calloc st nmemb sz = Some (Inr (p, st')) \<and> repr st' bs' fl' \<and>
               p \<noteq> 0 \<and> unat p mod 16 = 0
        else calloc st nmemb sz = Some (Inl InvalidAccess)"
  proof (cases "can_alloc st bs (unat (newAlign (sz * nmemb)))")
    case c: True
    from malloc_ok[OF assms s c] obtain p where
      m: "\<exists>st1. malloc st (sz * nmemb) = Some (Inr (p, st1))" and al: "unat p mod 16 = 0" "p \<noteq> 0"
      by (elim exE conjE) (rule that, rule exI)
    from calloc_spec[OF assms s] c obtain p' st1 st' bs' fl' where
      m': "malloc st (sz * nmemb) = Some (Inr (p', st1))"
      and r: "calloc st nmemb sz = Some (Inr (p', st'))" "repr st' bs' fl'"
      by (simp only: if_True) blast
    from m m' have "p' = p" by auto
    with r al have "\<exists>p st' bs' fl'. calloc st nmemb sz = Some (Inr (p, st')) \<and> repr st' bs' fl' \<and>
              p \<noteq> 0 \<and> unat p mod 16 = 0" by auto
    with c show ?thesis by (simp only: if_True)
  next
    case False
    with calloc_spec[OF assms s] show ?thesis by (simp only: if_False)
  qed
qed

theorem payload_alignment_witness:
  "repr heap_full [(4104, 40, True)] (\<lambda>_. []) \<and>
   \<not> can_alloc heap_full [(4104, 40, True)] (unat (newAlign 40)) \<and>
   malloc heap_full 40 = Some (Inr (8, heap_full)) \<and> (8 :: addr) \<noteq> 0 \<and> unat (8 :: addr) mod 16 = 8 \<and>
   getPayload 4104 \<noteq> 8 \<and>
   repr heap_hole [(4104, 104, False), (4216, 40, True)] ((\<lambda>_. [])(4 := [4112])) \<and>
   can_alloc heap_hole [(4104, 104, False), (4216, 40, True)] (unat (newAlign 24)) \<and>
   (\<exists>p st'. malloc heap_hole 24 = Some (Inr (p, st')) \<and> p \<noteq> 0 \<and> unat p mod 16 = 0) \<and>
   (\<exists>p st'. realloc heap_hole 0x1080 24 = Some (Inr (p, st')) \<and> p \<noteq> 0 \<and> unat p mod 16 = 0) \<and>
   (\<exists>p st'. calloc heap_hole 3 8 = Some (Inr (p, st')) \<and> p \<noteq> 0 \<and> unat p mod 16 = 0)"
proof -
  note f = payload_alignment[OF heap_full_ok(1)]
  have nc: "\<not> can_alloc heap_full [(4104, 40, True)] (unat (newAlign 40))"
    by (simp add: can_alloc_def fits_def newAlign_examples heap_full_ok)
  from f nc have 5: "malloc heap_full 40 = Some (Inr (8, heap_full)) \<and> (8 :: addr) \<noteq> 0 \<and>
      unat (8 :: addr) mod 16 = 8 \<and> getPayload 4104 \<noteq> 8"
    by (elim conjE allE[of _ "40 :: size_t"]) auto
  note t = payload_alignment[OF heap_hole_ok(1)]
  have c: "can_alloc heap_hole [(4104, 104, False), (4216, 40, True)] (unat (newAlign 24))"
    by (simp add: can_alloc_def fits_def newAlign_examples)
  have b: "(4216, 40, True) \<in> set [(4104, 104, False), (4216, 40, True)]" by simp
  from t c have 2: "\<exists>p st'. malloc heap_hole 24 = Some (Inr (p, st')) \<and> p \<noteq> 0 \<and> unat p mod 16 = 0"
    by (elim conjE allE[of _ "24 :: size_t"]) auto
  from t b c have 3: "\<exists>p st'. realloc heap_hole 0x1080 24 = Some (Inr (p, st')) \<and> p \<noteq> 0 \<and> unat p mod 16 = 0"
    by (elim conjE allE[of _ "4216 :: nat"] allE[of _ "40 :: nat"] allE[of _ "24 :: size_t"]) auto
  from t c have 4: "\<exists>p st'. calloc heap_hole 3 8 = Some (Inr (p, st')) \<and> p \<noteq> 0 \<and> unat p mod 16 = 0"
    by (elim conjE allE[of _ "3 :: size_t"] allE[of _ "8 :: size_t"]) auto
  from heap_full_ok(1) nc 5 heap_hole_ok(1) c 2 3 4 show ?thesis by blast
qed

section \<open>realloc\<close>

text \<open>
  Claim C2, for the payload \<open>q\<close> of an allocated block of payload size \<open>so\<close> in a
  well-formed heap and a request \<open>0 < s \<le> 2\<^sup>6\<^sup>4 - 24\<close>. When the allocation can succeed,
  \<^verbatim>\<open>realloc\<close> does what the claim says: it calls \<^verbatim>\<open>malloc(s)\<close>, which gives a new payload
  \<open>p\<close>; it copies exactly \<open>min s so\<close> bytes from \<open>q\<close> to \<open>p\<close>; it frees the old block; it
  returns \<open>p\<close>, and the heap is well formed again. With a null pointer it is \<^verbatim>\<open>malloc(s)\<close>;
  with \<open>s = 0\<close> it frees the block and returns null. When the allocation cannot succeed the
  code does not return null: \<^verbatim>\<open>malloc\<close> has returned the address 8 (claim C1), the test
  \<^verbatim>\<open>if(!newptr)\<close> does not fire, and \<^verbatim>\<open>mm_memcpy\<close> is called with destination 8, which is
  outside the heap.
\<close>

theorem realloc_behaviour:
  assumes "repr st bs fl" and "(a, so, True) \<in> set bs" and "s \<noteq> 0" and "s \<le> 0xFFFFFFFFFFFFFFE8"
  shows "(if can_alloc st bs (unat (newAlign s))
          then \<exists>p st1 k st2 st' bs' fl'.
                 malloc st s = Some (Inr (p, st1)) \<and> p \<noteq> 0 \<and> p \<noteq> of_nat (a + 8) \<and>
                 unat k = min (unat s) so \<and>
                 mm_memcpy st1 p (of_nat (a + 8)) k = Inr (p, st2) \<and>
                 (\<forall>i. i < k \<longrightarrow> mem st2 (p + i) = mem st1 (of_nat (a + 8) + i)) \<and>
                 free st2 (of_nat (a + 8)) = Inr st' \<and>
                 realloc st (of_nat (a + 8)) s = Some (Inr (p, st')) \<and> repr st' bs' fl' \<and>
                 heap_lo st' = heap_lo st \<and> heap_max st' = heap_max st
          else malloc st s = Some (Inr (8, st)) \<and>
               realloc st (of_nat (a + 8)) s = Some (Inl InvalidAccess))
       \<and> realloc st 0 s = malloc st s
       \<and> (\<exists>st'. free st (of_nat (a + 8)) = Inr st' \<and> realloc st (of_nat (a + 8)) 0 = Some (Inr (0, st')))"
proof -
  note r = realloc_spec[OF assms]
  have 1: "realloc st 0 s = malloc st s" by (simp add: realloc_def)
  from free_spec[OF assms(1,2)] obtain st' where f: "free st (of_nat (a + 8)) = Inr st'" by blast
  have q0: "(of_nat (a + 8) :: 64 word) \<noteq> 0" by (rule payload_nonzero[OF assms(1,2)])
  have 2: "realloc st (of_nat (a + 8)) 0 = Some (Inr (0, st'))"
    using q0 f by (simp add: realloc_def del: of_nat_add)
  have 3: "malloc st s = Some (Inr (8, st))" if "\<not> can_alloc st bs (unat (newAlign s))"
    by (rule malloc_fail[OF assms(1,3,4) refl that])
  show ?thesis
  proof (cases "can_alloc st bs (unat (newAlign s))")
    case True
    with r 1 2 f show ?thesis by (simp only: if_True) blast
  next
    case False
    with r 1 2 3 f show ?thesis by (simp only: if_False) blast
  qed
qed

theorem realloc_behaviour_witness:
  "repr heap_full [(4104, 40, True)] (\<lambda>_. []) \<and> (4104, 40, True) \<in> set [(4104, 40, True)] \<and>
   \<not> can_alloc heap_full [(4104, 40, True)] (unat (newAlign 64)) \<and>
   malloc heap_full 64 = Some (Inr (8, heap_full)) \<and>
   realloc heap_full 0x1010 64 = Some (Inl InvalidAccess) \<and>
   realloc heap_full 0 64 = malloc heap_full 64"
proof -
  have b: "(4104, 40, True) \<in> set [(4104, 40, True)]" by simp
  have s: "(64 :: size_t) \<noteq> 0" "(64 :: size_t) \<le> 0xFFFFFFFFFFFFFFE8" by simp_all
  have c: "\<not> can_alloc heap_full [(4104, 40, True)] (unat (newAlign 64))"
    by (simp add: can_alloc_def fits_def newAlign_examples heap_full_ok)
  from realloc_behaviour[OF heap_full_ok(1) b s] c heap_full_ok(1) show ?thesis by simp
qed

end
